(* ===== verification/Prelude.thy ===== *)
theory Prelude
  imports Main "HOL-Library.Word" "HOL-Library.Monad_Syntax"
begin

text \<open>What the theories share: the machine words of the C types, lemmas on sums and disjunctions of words without
  common bits, on masks and on casts between widths, and on error values in the option monad.\<close>

unbundle bit_operations_syntax

type_synonym u8 = "8 word"
type_synonym u16 = "16 word"
type_synonym u32 = "32 word"
type_synonym u64 = "64 word"

lemma bit_carry_nat:
  "bit (a + b) n \<longleftrightarrow> (bit a n \<noteq> (bit b n \<noteq> (2 ^ n \<le> take_bit n a + take_bit n b)))" for a b :: nat
proof -
  have lt: "a mod 2 ^ n + b mod 2 ^ n < 2 * 2 ^ n"
    using mod_less_divisor [of "2 ^ n" a] mod_less_divisor [of "2 ^ n" b]
      zero_less_power [of "2::nat" n] by linarith
  have c: "(a mod 2 ^ n + b mod 2 ^ n) div 2 ^ n = of_bool (2 ^ n \<le> a mod 2 ^ n + b mod 2 ^ n)"
    using lt by (auto simp: div_nat_eqI)
  show ?thesis
    by (simp add: bit_iff_odd take_bit_eq_mod div_add1_eq [of a b] c) blast
qed

lemma or_eq_plus: "a AND b = 0 \<Longrightarrow> a OR b = a + b" for a b :: "'a::len word"
  by (simp add: disjunctive_add_eq_or)

lemma and_disjoint_masks: "m AND n = 0 \<Longrightarrow> (a AND m) AND (b AND n) = 0" for a b :: "'a::len word"
proof -
  have "(a AND m) AND (b AND n) = (a AND b) AND (m AND n)" by (simp only: ac_simps)
  then show "m AND n = 0 \<Longrightarrow> (a AND m) AND (b AND n) = 0" by simp
qed

lemma and_add_split:
  "m AND n = 0 \<Longrightarrow> x AND (m + n) = (x AND m) + (x AND n)" for x m n :: "'a::len word"
proof -
  assume mn: "m AND n = 0"
  have "(x AND m) AND (x AND n) = x AND (m AND n)"
    by (rule bit_word_eqI) (auto simp: bit_simps)
  with mn have disj: "(x AND m) AND (x AND n) = 0"
    by simp
  have "x AND (m + n) = x AND (m OR n)"
    by (simp only: or_eq_plus [OF mn])
  also have "\<dots> = (x AND m) OR (x AND n)"
    by (rule bit.conj_disj_distrib)
  also have "\<dots> = (x AND m) + (x AND n)"
    by (rule or_eq_plus [OF disj])
  finally show ?thesis .
qed

lemma and_exp_eq_of_bool: "x AND 2 ^ n = of_bool (bit x n) * 2 ^ n" for x :: "'a::len word"
  by (rule bit_word_eqI) (auto simp: bit_simps)

lemma bit_carry_word:
  fixes a b :: "'a::len word"
  assumes "n < LENGTH('a)"
  shows "bit (a XOR b XOR (a + b)) n \<longleftrightarrow>
    2 ^ n \<le> unat a mod 2 ^ n + unat b mod 2 ^ n"
proof -
  have "bit (a + b) n \<longleftrightarrow> bit (unat a + unat b) n"
  proof -
    have "bit (a + b) n \<longleftrightarrow> bit (unat (a + b)) n"
      by (simp add: bit_unsigned_iff)
    also have "\<dots> \<longleftrightarrow> bit (take_bit LENGTH('a) (unat a + unat b)) n"
      by (simp add: unat_word_ariths take_bit_eq_mod)
    also have "\<dots> \<longleftrightarrow> bit (unat a + unat b) n"
      using assms by (simp add: bit_take_bit_iff)
    finally show ?thesis .
  qed
  also have "\<dots> \<longleftrightarrow> (bit a n \<noteq> (bit b n \<noteq> (2 ^ n \<le> take_bit n (unat a) + take_bit n (unat b))))"
    using assms by (simp add: bit_carry_nat bit_unsigned_iff)
  finally show ?thesis
    using assms by (auto simp: bit_xor_iff take_bit_eq_mod)
qed

lemma ucast_ucast_id: "LENGTH('a) \<le> LENGTH('b) \<Longrightarrow> ucast (ucast x :: 'b::len word) = x"
  for x :: "'a::len word"
  by (rule bit_word_eqI) (auto simp: bit_simps dest: bit_imp_le_length)

lemma ucast_u8_u32 [simp]: "ucast (ucast x :: u32) = x" for x :: u8
  by (rule ucast_ucast_id) simp

lemma take_bit_eq_self_unat: "unat x < 2 ^ n \<Longrightarrow> take_bit n x = x" for x :: "'a::len word"
proof -
  assume "unat x < 2 ^ n"
  then have "unat (take_bit n x) = unat x"
    by (simp only: unsigned_take_bit_eq take_bit_nat_eq_self)
  then show ?thesis by (rule unsigned_word_eqI)
qed

lemma or_push_bit_int:
  fixes a b :: int
  assumes "0 \<le> a" "a < 2 ^ n"
  shows "a OR push_bit n b = a + 2 ^ n * b"
proof -
  have "take_bit n a = a" using assms by (simp add: take_bit_int_eq_self)
  then have "\<not> bit a k" if "n \<le> k" for k using that by (metis bit_take_bit_iff not_le)
  then have "a AND push_bit n b = 0" by (intro bit_eqI) (auto simp: bit_simps)
  then show ?thesis by (simp add: disjunctive_add_eq_or [symmetric] push_bit_eq_mult ac_simps)
qed

lemma ucast_u32_u8: "ucast (ucast x :: u8) = take_bit 8 x" for x :: u32
  by (rule bit_word_eqI) (auto simp: bit_simps)

lemma and_255: "x AND 0xFF = take_bit 8 x" for x :: "'a::len word"
  by (simp add: take_bit_eq_mask mask_eq_exp_minus_1)

lemma and_127: "x AND 0x7F = take_bit 7 x" for x :: "'a::len word"
  by (simp add: take_bit_eq_mask mask_eq_exp_minus_1)

lemma take_bit_word_add: "take_bit n (take_bit n a + take_bit n b) = take_bit n (a + b)" for a b :: "'a::len word"
proof -
  have i: "take_bit (min LENGTH('a) n) (take_bit n x + take_bit n y) = take_bit (min LENGTH('a) n) (x + y)" for x y :: int
  proof -
    let ?m = "min LENGTH('a) n"
    have "take_bit ?m (take_bit n x + take_bit n y) = take_bit ?m (take_bit ?m (take_bit n x) + take_bit ?m (take_bit n y))"
      by (simp only: take_bit_add)
    also have "\<dots> = take_bit ?m (take_bit ?m x + take_bit ?m y)" by simp
    finally show ?thesis by (simp only: take_bit_add)
  qed
  have j: "take_bit (min LENGTH('a) n) (take_bit (min LENGTH('a) n) x + take_bit (min LENGTH('a) n) y) = take_bit (min LENGTH('a) n) (x + y)" for x y :: int
      by (simp only: take_bit_add)
  show ?thesis
by (transfer fixing: n) (simp add: i j)
qed

text \<open>Equality of words bit by bit, with the bits as numerals.\<close>

lemma all_lt_8: "(\<forall>n<8::nat. P n) \<longleftrightarrow> P 0 \<and> P 1 \<and> P 2 \<and> P 3 \<and> P 4 \<and> P 5 \<and> P 6 \<and> P 7"
  by (simp add: numeral_eq_Suc All_less_Suc conj_ac)

lemma all_lt_32: "(\<forall>n<32::nat. P n) \<longleftrightarrow>
    P 0 \<and> P 1 \<and> P 2 \<and> P 3 \<and> P 4 \<and> P 5 \<and> P 6 \<and> P 7 \<and> P 8 \<and> P 9 \<and> P 10 \<and> P 11 \<and> P 12 \<and> P 13 \<and> P 14 \<and> P 15 \<and> 
    P 16 \<and> P 17 \<and> P 18 \<and> P 19 \<and> P 20 \<and> P 21 \<and> P 22 \<and> P 23 \<and> P 24 \<and> P 25 \<and> P 26 \<and> P 27 \<and> P 28 \<and> P 29 \<and> P 30 \<and> P 31"
  by (simp add: numeral_eq_Suc All_less_Suc conj_ac)

lemma u8_eq_bits: "a = b \<longleftrightarrow> (\<forall>n<8. bit a n = bit b n)" for a b :: u8
  using bit_word_eqI [of a b] by auto

lemma u32_eq_bits: "a = b \<longleftrightarrow> (\<forall>n<32. bit a n = bit b n)" for a b :: u32
  using bit_word_eqI [of a b] by auto

lemma not_bit_unat_less: "unat w < 2 ^ m \<Longrightarrow> m \<le> n \<Longrightarrow> \<not> bit w n" for w :: "'a::len word"
  by (metis bit_take_bit_iff not_le take_bit_eq_self_unat)

lemma not_bit_u8: "8 \<le> n \<Longrightarrow> \<not> bit x n" for x :: u8
  using bit_imp_le_length [of x n] by auto

end
