(* ===== verification/Bcd.thy ===== *)
theory Bcd
  imports Prelude
begin

text \<open>Packed binary coded decimal numbers, the inline functions of bcd.h. An \<^verbatim>\<open>unsigned int\<close> is a 32 bit
  word, so all arithmetic wraps as it does in C. The specification side is \<open>digit\<close>, the value of a
  nibble, and \<open>bcd_value\<close>, the number that eight nibbles denote in base ten. The carries of the
  binary additions the code performs are computed once, for a general word length, in the prelude.\<close>

unbundle bit_operations_syntax

definition vbi_dec2bcd :: "u32 \<Rightarrow> u32" where
  "vbi_dec2bcd dec = dec mod 10 + (dec div 10 mod 10) * 16 + (dec div 100 mod 10) * 256"

definition vbi_bcd2dec :: "u32 \<Rightarrow> u32" where
  "vbi_bcd2dec bcd =
     (bcd AND 15) + (drop_bit 4 bcd AND 15) * 10 + (drop_bit 8 bcd AND 15) * 100"

definition vbi_add_bcd :: "u32 \<Rightarrow> u32 \<Rightarrow> u32" where
  "vbi_add_bcd a b =
     (let a1 = a + 0x06666666;
          t = a1 + b;
          b1 = b XOR (a1 XOR t);
          b2 = drop_bit 3 (NOT b1 AND 0x11111110);
          b3 = b2 OR b2 * 2
      in t - b3)"

definition vbi_is_bcd :: "u32 \<Rightarrow> bool" where
  "vbi_is_bcd bcd \<longleftrightarrow> ((bcd + 0x06666666) XOR (bcd XOR 0x06666666)) AND 0x11111110 = 0"

definition vbi_bcd_digits_greater :: "u32 \<Rightarrow> u32 \<Rightarrow> bool" where
  "vbi_bcd_digits_greater bcd maximum =
     (let m = maximum XOR NOT 0
      in ((bcd + m) XOR bcd XOR m) AND 0x11111110 \<noteq> 0)"

definition digit :: "u32 \<Rightarrow> nat \<Rightarrow> nat" where
  "digit x i = unat x div 16 ^ i mod 16"

definition bcd_value :: "u32 \<Rightarrow> nat" where
  "bcd_value x = (\<Sum>i<8. digit x i * 10 ^ i)"

lemma and_carry_mask:
  "x AND 0x11111110 =
     of_bool (bit x 4) * 0x10 + (of_bool (bit x 8) * 0x100 + (of_bool (bit x 12) * 0x1000
     + (of_bool (bit x 16) * 0x10000 + (of_bool (bit x 20) * 0x100000
     + (of_bool (bit x 24) * 0x1000000 + of_bool (bit x 28) * 0x10000000)))))" for x :: u32
  using and_add_split [of "0x10" "0x11111100" x] and_add_split [of "0x100" "0x11111000" x]
    and_add_split [of "0x1000" "0x11110000" x] and_add_split [of "0x10000" "0x11100000" x]
    and_add_split [of "0x100000" "0x11000000" x] and_add_split [of "0x1000000" "0x10000000" x]
    and_exp_eq_of_bool [of x 4] and_exp_eq_of_bool [of x 8] and_exp_eq_of_bool [of x 12]
    and_exp_eq_of_bool [of x 16] and_exp_eq_of_bool [of x 20] and_exp_eq_of_bool [of x 24]
    and_exp_eq_of_bool [of x 28]
  by simp

lemma and_carry_mask_eq_0:
  "x AND 0x11111110 = 0 \<longleftrightarrow>
     \<not> bit x 4 \<and> \<not> bit x 8 \<and> \<not> bit x 12 \<and> \<not> bit x 16 \<and> \<not> bit x 20 \<and> \<not> bit x 24 \<and> \<not> bit x 28"
  for x :: u32
  unfolding and_carry_mask by (simp split: bool.split)

lemma all_lt_7: "(\<forall>i<7. P i) \<longleftrightarrow> P 0 \<and> P 1 \<and> P 2 \<and> P 3 \<and> P 4 \<and> P 5 \<and> P (6::nat)"
  by (simp add: eval_nat_numeral less_Suc_eq) blast

lemma ex_lt_7: "(\<exists>i<7. P i) \<longleftrightarrow> P 0 \<or> P 1 \<or> P 2 \<or> P 3 \<or> P 4 \<or> P 5 \<or> P (6::nat)"
  using all_lt_7 [of "\<lambda>i. \<not> P i"] by blast

lemma digit_lt [simp]: "digit x i < 16"
  by (simp add: digit_def)

lemma low_digits_Suc: "unat x mod 16 ^ Suc k = unat x mod 16 ^ k + 16 ^ k * digit x k"
  using mod_mult2_eq [of "unat x" "16 ^ k" 16] by (simp add: digit_def ac_simps)

lemma low_digits:
  "unat x mod 16 = digit x 0"
  "unat x mod 256 = digit x 0 + 16 * digit x 1"
  "unat x mod 4096 = digit x 0 + 16 * digit x 1 + 256 * digit x 2"
  "unat x mod 65536 = digit x 0 + 16 * digit x 1 + 256 * digit x 2 + 4096 * digit x 3"
  "unat x mod 1048576 = digit x 0 + 16 * digit x 1 + 256 * digit x 2 + 4096 * digit x 3
     + 65536 * digit x 4"
  "unat x mod 16777216 = digit x 0 + 16 * digit x 1 + 256 * digit x 2 + 4096 * digit x 3
     + 65536 * digit x 4 + 1048576 * digit x 5"
  "unat x mod 268435456 = digit x 0 + 16 * digit x 1 + 256 * digit x 2 + 4096 * digit x 3
     + 65536 * digit x 4 + 1048576 * digit x 5 + 16777216 * digit x 6"
  using low_digits_Suc [of x 0] low_digits_Suc [of x 1] low_digits_Suc [of x 2]
    low_digits_Suc [of x 3] low_digits_Suc [of x 4] low_digits_Suc [of x 5] low_digits_Suc [of x 6]
  by simp_all

lemma carry_bits:
  "\<forall>k\<in>{4, 8, 12, 16, 20, 24, 28}. bit (x XOR y XOR (x + y)) k \<longleftrightarrow>
     2 ^ k \<le> unat x mod 2 ^ k + unat y mod 2 ^ k" for x y :: u32
  by (simp add: bit_carry_word)

lemma no_carry_6_iff:
  fixes d :: "nat \<Rightarrow> nat"
  shows "(\<not> 16 \<le> d 0 + 6 \<and> \<not> 256 \<le> d 0 + 16 * d 1 + 102
    \<and> \<not> 4096 \<le> d 0 + 16 * d 1 + 256 * d 2 + 1638
    \<and> \<not> 65536 \<le> d 0 + 16 * d 1 + 256 * d 2 + 4096 * d 3 + 26214
    \<and> \<not> 1048576 \<le> d 0 + 16 * d 1 + 256 * d 2 + 4096 * d 3 + 65536 * d 4 + 419430
    \<and> \<not> 16777216 \<le> d 0 + 16 * d 1 + 256 * d 2 + 4096 * d 3 + 65536 * d 4 + 1048576 * d 5 + 6710886
    \<and> \<not> 268435456 \<le> d 0 + 16 * d 1 + 256 * d 2 + 4096 * d 3 + 65536 * d 4 + 1048576 * d 5
        + 16777216 * d 6 + 107374182)
   \<longleftrightarrow> d 0 \<le> 9 \<and> d 1 \<le> 9 \<and> d 2 \<le> 9 \<and> d 3 \<le> 9 \<and> d 4 \<le> 9 \<and> d 5 \<le> 9 \<and> d 6 \<le> 9"
  by (intro iffI conjI; elim conjE; linarith)

lemma vbi_is_bcd_iff: "vbi_is_bcd x \<longleftrightarrow> (\<forall>i<7. digit x i \<le> 9)"
proof -
  have "vbi_is_bcd x \<longleftrightarrow> (x XOR 0x06666666 XOR (x + 0x06666666)) AND 0x11111110 = 0"
    by (simp add: vbi_is_bcd_def ac_simps)
  then show ?thesis
    using carry_bits [of x "0x06666666"] no_carry_6_iff [of "digit x"]
    by (simp only: and_carry_mask_eq_0 all_lt_7) (simp add: low_digits)
qed

lemma not_mod_exp:
  fixes y :: "'a::len word"
  assumes "k \<le> LENGTH('a)"
  shows "unat (NOT y) mod 2 ^ k = 2 ^ k - 1 - unat y mod 2 ^ k"
proof -
  have "unat (NOT y) mod 2 ^ k = unat (take_bit k (NOT y))"
    by (simp add: unsigned_take_bit_eq flip: take_bit_eq_mod)
  also have "\<dots> = unat (mask k - take_bit k y)"
    by (simp only: take_bit_not_eq_mask_diff)
  also have "\<dots> = unat (mask k :: 'a word) - unat (take_bit k y)"
    by (rule unat_sub) (simp add: take_bit_eq_mask word_and_le1)
  also have "unat (mask k :: 'a word) = 2 ^ k - 1"
  proof -
    have "unat (mask k :: 'a word) = unat (take_bit k (- 1 :: 'a word))"
      by (simp only: take_bit_minus_one_eq_mask)
    also have "\<dots> = mask k"
      using assms by (simp only: unsigned_take_bit_eq unsigned_minus_1_eq_mask take_bit_of_mask min_absorb1)
    finally show ?thesis by (simp add: mask_eq_exp_minus_1)
  qed
  also have "unat (take_bit k y) = unat y mod 2 ^ k"
    by (simp only: unsigned_take_bit_eq flip: take_bit_eq_mod)
  finally show ?thesis .
qed

lemma carry_not_iff:
  fixes x y z :: u32
  assumes "k < 32" "z = NOT y"
  shows "bit (x XOR z XOR (x + z)) k \<longleftrightarrow> unat y mod 2 ^ k < unat x mod 2 ^ k"
proof -
  have "c \<le> a + (c - 1 - b) \<longleftrightarrow> b < a" if "b < c" for a b c :: nat
    using that by arith
  from this [of "unat y mod 2 ^ k" "2 ^ k"] show ?thesis
    using assms not_mod_exp [of k y] by (simp add: bit_carry_word assms(2) [symmetric])
qed

lemma prefix_greater_iff:
  fixes d m :: "nat \<Rightarrow> nat"
  assumes "\<And>i. d i < 16" "\<And>i. m i < 16"
  shows "m 0 < d 0
    \<or> m 0 + 16 * m 1 < d 0 + 16 * d 1
    \<or> m 0 + 16 * m 1 + 256 * m 2 < d 0 + 16 * d 1 + 256 * d 2
    \<or> m 0 + 16 * m 1 + 256 * m 2 + 4096 * m 3 < d 0 + 16 * d 1 + 256 * d 2 + 4096 * d 3
    \<or> m 0 + 16 * m 1 + 256 * m 2 + 4096 * m 3 + 65536 * m 4
        < d 0 + 16 * d 1 + 256 * d 2 + 4096 * d 3 + 65536 * d 4
    \<or> m 0 + 16 * m 1 + 256 * m 2 + 4096 * m 3 + 65536 * m 4 + 1048576 * m 5
        < d 0 + 16 * d 1 + 256 * d 2 + 4096 * d 3 + 65536 * d 4 + 1048576 * d 5
    \<or> m 0 + 16 * m 1 + 256 * m 2 + 4096 * m 3 + 65536 * m 4 + 1048576 * m 5 + 16777216 * m 6
        < d 0 + 16 * d 1 + 256 * d 2 + 4096 * d 3 + 65536 * d 4 + 1048576 * d 5 + 16777216 * d 6
   \<longleftrightarrow> m 0 < d 0 \<or> m 1 < d 1 \<or> m 2 < d 2 \<or> m 3 < d 3 \<or> m 4 < d 4 \<or> m 5 < d 5 \<or> m 6 < d 6"
    (is "?l \<longleftrightarrow> ?r")
proof
  assume ?r
  then show ?l
    using assms [of 0] assms [of 1] assms [of 2] assms [of 3] assms [of 4] assms [of 5] assms [of 6]
    by (elim disjE; linarith)
next
  assume l: ?l
  show ?r
  proof (rule ccontr)
    assume "\<not> ?r"
    then have "d 0 \<le> m 0" "d 1 \<le> m 1" "d 2 \<le> m 2" "d 3 \<le> m 3" "d 4 \<le> m 4" "d 5 \<le> m 5" "d 6 \<le> m 6"
      by simp_all
    with l show False by (elim disjE; linarith)
  qed
qed

lemma vbi_bcd_digits_greater_iff:
  "vbi_bcd_digits_greater x m \<longleftrightarrow> (\<exists>i<7. digit m i < digit x i)"
proof -
  define z where "z = NOT m"
  have "vbi_bcd_digits_greater x m \<longleftrightarrow> (x XOR z XOR (x + z)) AND 0x11111110 \<noteq> 0"
    by (simp add: vbi_bcd_digits_greater_def Let_def ac_simps z_def)
  then show ?thesis
    using prefix_greater_iff [of "digit x" "digit m"]
    by (simp only: and_carry_mask_eq_0 ex_lt_7 de_Morgan_conj not_not)
      (simp add: carry_not_iff [OF _ z_def] low_digits)
qed

lemma bcd_value_expand:
  "bcd_value x = digit x 0 + 10 * digit x 1 + 100 * digit x 2 + 1000 * digit x 3 + 10000 * digit x 4
     + 100000 * digit x 5 + 1000000 * digit x 6 + 10000000 * digit x 7"
  by (simp add: bcd_value_def lessThan_nat_numeral)

lemma unat_digits:
  "unat x = digit x 0 + 16 * digit x 1 + 256 * digit x 2 + 4096 * digit x 3 + 65536 * digit x 4
     + 1048576 * digit x 5 + 16777216 * digit x 6 + 268435456 * digit x 7"
  using low_digits_Suc [of x 7] low_digits(7) [of x] unsigned_less [where 'a = nat, of x] by simp

lemma carry_complement:
  fixes y :: u32
  defines "b2 \<equiv> drop_bit 3 (y AND 0x11111110)"
  shows "unat (b2 OR b2 * 2) = 6 * (of_bool (bit y 4) + 16 * of_bool (bit y 8) + 256 * of_bool (bit y 12)
    + 4096 * of_bool (bit y 16) + 65536 * of_bool (bit y 20) + 1048576 * of_bool (bit y 24)
    + 16777216 * of_bool (bit y 28))" (is "_ = 6 * ?M")
proof -
  have b2: "b2 = word_of_nat (2 * ?M)"
  proof -
    have "unat b2 = unat (y AND 0x11111110) div 8"
    proof -
      have "unat b2 = drop_bit 3 (unat (y AND 0x11111110))"
        by (simp only: b2_def unat_drop_bit_eq)
      then show ?thesis by (simp add: drop_bit_eq_div)
    qed
    also have "y AND 0x11111110 = word_of_nat (16 * ?M)"
      by (simp add: and_carry_mask)
    also have "unat \<dots> div 8 = 2 * ?M"
      by (simp add: unat_of_nat)
    finally have "word_of_nat (unat b2) = (word_of_nat (2 * ?M) :: u32)" by simp
    then show ?thesis by simp
  qed
  have "b2 AND b2 * 2 = 0"
  proof -
    have "b2 AND b2 * 2 = (drop_bit 3 y AND push_bit 1 (drop_bit 3 y)) AND (0x02222222 AND 0x04444444)"
    proof -
      have "b2 * 2 = push_bit 1 b2" by (simp add: push_bit_eq_mult)
      moreover have "b2 = drop_bit 3 y AND 0x02222222" by (simp add: b2_def drop_bit_and)
      moreover have "push_bit 1 (drop_bit 3 y AND 0x02222222) = push_bit 1 (drop_bit 3 y) AND 0x04444444"
        by (simp add: push_bit_and)
      ultimately show ?thesis by (simp only: ac_simps)
    qed
    then show ?thesis by simp
  qed
  then have "b2 OR b2 * 2 = b2 + b2 * 2" by (rule or_eq_plus)
  also have "\<dots> = word_of_nat (6 * ?M)"
    by (simp add: b2)
  finally show ?thesis
    by (simp add: unat_of_nat)
qed

lemma low_carry_Suc:
  fixes p u s :: nat
  assumes "u < 2 * p"
  shows "16 * p \<le> u + p * s \<longleftrightarrow> 16 \<le> s + of_bool (p \<le> u)"
proof -
  have p: "0 < p" using assms by simp
  have "16 * p \<le> u + p * s \<longleftrightarrow> 16 \<le> (u + p * s) div p"
    by (rule less_eq_div_iff_mult_less_eq [OF p, symmetric])
  also have "(u + p * s) div p = s + of_bool (p \<le> u)"
    using p assms by (auto simp: div_nat_eqI)
  finally show ?thesis .
qed

lemma bcd_add_digits:
  fixes s :: "nat \<Rightarrow> nat"
  assumes "\<And>i. s i \<le> 18"
  defines "L \<equiv> \<lambda>k. \<Sum>i<k. (s i + 6) * 16 ^ i"
  defines "c \<equiv> \<lambda>k. of_bool (16 ^ k \<le> L k)"
  shows "L k < 2 * 16 ^ k" "c (Suc k) = of_bool (10 \<le> s k + c k)"
proof -
  show l: "L k < 2 * 16 ^ k" for k
  proof (induction k)
    case (Suc k)
    have "(s k + 6) * 16 ^ k \<le> 24 * 16 ^ k" using assms(1) [of k] by (intro mult_le_mono) simp_all
    moreover have "L (Suc k) = L k + (s k + 6) * 16 ^ k" by (simp add: L_def)
    moreover have "(0::nat) < 16 ^ k" by simp
    ultimately show ?case using Suc unfolding power_Suc by linarith
  qed (simp add: L_def)
  show "c (Suc k) = of_bool (10 \<le> s k + c k)"
    using low_carry_Suc [OF l, of k "s k + 6"] by (simp add: c_def L_def ac_simps)
qed

lemma bcd_sum_adjust:
  fixes s c x :: "nat \<Rightarrow> nat"
  assumes "c 0 = 0" "\<And>k. x k + 10 * c (Suc k) = s k + c k"
  shows "(\<Sum>k<n. (s k + 6 * c (Suc k)) * 16 ^ k) = (\<Sum>k<n. x k * 16 ^ k) + c n * 16 ^ n"
    and "(\<Sum>k<n. s k * 10 ^ k) = (\<Sum>k<n. x k * 10 ^ k) + c n * 10 ^ n"
proof (induction n)
  case (Suc n)
  have e: "s n + 6 * c (Suc n) + c n = x n + 16 * c (Suc n)" using assms(2) [of n] by simp
  case 1
  have "(s n + 6 * c (Suc n)) * 16 ^ n + c n * 16 ^ n = (s n + 6 * c (Suc n) + c n) * 16 ^ n"
    by (simp only: distrib_right)
  also have "\<dots> = x n * 16 ^ n + c (Suc n) * 16 ^ Suc n"
    unfolding e by (simp add: distrib_right)
  finally show ?case using Suc(1) by simp
  case 2
  have "s n * 10 ^ n + c n * 10 ^ n = (s n + c n) * 10 ^ n" by (simp only: distrib_right)
  also have "\<dots> = x n * 10 ^ n + c (Suc n) * 10 ^ Suc n"
    unfolding assms(2) [of n, symmetric] by (simp add: distrib_right)
  finally show ?case using Suc(2) by simp
qed (simp_all add: assms(1))

lemma low_digits_sum: "unat x mod 16 ^ k = (\<Sum>i<k. digit x i * 16 ^ i)"
proof (induction k)
  case (Suc k)
  then show ?case by (simp only: low_digits_Suc sum.lessThan_Suc) simp
qed simp

lemma digit_sum_less: "(\<And>i. d i < 16) \<Longrightarrow> (\<Sum>i<k. d i * 16 ^ i) < (16::nat) ^ k" for d :: "nat \<Rightarrow> nat"
proof (induction k)
  case (Suc k)
  have "d k * 16 ^ k \<le> 15 * 16 ^ k" using Suc(2) [of k] by simp
  moreover have "(0::nat) < 16 ^ k" by simp
  moreover have "(\<Sum>i<k. d i * 16 ^ i) < 16 ^ k" using Suc by blast
  ultimately show ?case unfolding sum.lessThan_Suc power_Suc by linarith
qed simp

lemma digit_sum_mod:
  fixes d :: "nat \<Rightarrow> nat"
  assumes "\<And>i. d i < 16" "k \<le> n"
  shows "(\<Sum>i<n. d i * 16 ^ i) mod 16 ^ k = (\<Sum>i<k. d i * 16 ^ i)"
  using assms(2)
proof (induction n rule: dec_induct)
  case base
  show ?case using digit_sum_less [OF assms(1)] by simp
next
  case (step n)
  then obtain e where "16 ^ n = 16 ^ k * (16 ^ e :: nat)"
    by (metis le_add_diff_inverse power_add)
  then have "(\<Sum>i<Suc n. d i * 16 ^ i) = (\<Sum>i<n. d i * 16 ^ i) + 16 ^ k * (d n * 16 ^ e)"
    by simp
  with step show ?case by (simp only: mod_mult_self2)
qed

lemma unat_digit_sum: "unat x = (\<Sum>i<8. digit x i * 16 ^ i)"
  using low_digits_sum [of x 8] unsigned_less [where 'a = nat, of x] by simp

lemma digit_of_sum:
  assumes "unat x = (\<Sum>i<n. d i * 16 ^ i)" "\<And>i. d i < 16" "i < n"
  shows "digit x i = d i"
proof -
  have "(\<Sum>j<Suc i. digit x j * 16 ^ j) = (\<Sum>j<Suc i. d j * 16 ^ j)"
    using low_digits_sum [of x "Suc i"] digit_sum_mod [of d "Suc i" n] assms by simp
  moreover have "(\<Sum>j<i. digit x j * 16 ^ j) = (\<Sum>j<i. d j * 16 ^ j)"
    using low_digits_sum [of x i] digit_sum_mod [of d i n] assms by simp
  ultimately show ?thesis by simp
qed

lemma vbi_add_bcd_digits:
  assumes a: "\<forall>i<7. digit a i \<le> 9" "digit a 7 = 0" and b: "\<forall>i<7. digit b i \<le> 9" "digit b 7 = 0"
  shows "bcd_value (vbi_add_bcd a b) = bcd_value a + bcd_value b"
    and "\<forall>i<8. digit (vbi_add_bcd a b) i \<le> 9"
proof -
  define s where "s k = (if k < 7 then digit a k + digit b k else 0)" for k
  have s18: "s k \<le> 18" for k using a(1) b(1) by (force simp: s_def)
  define c where "c k = (of_bool (16 ^ k \<le> (\<Sum>i<k. (s i + 6) * 16 ^ i)) :: nat)" for k
  have c: "c 0 = 0" "c (Suc k) = of_bool (10 \<le> s k + c k)" for k
    using bcd_add_digits(2) [of s k, OF s18] by (simp_all add: c_def)
  define x where "x k = s k + c k - 10 * c (Suc k)" for k
  have c1: "c k \<le> 1" for k by (simp add: c_def)
  have x: "x k + 10 * c (Suc k) = s k + c k" "x k \<le> 9" for k
    using s18 [of k] c1 [of k] by (auto simp: x_def c)
  define a1 where "a1 = a + 0x06666666"
  define t where "t = a1 + b"
  define da where "da k = (if k < 7 then digit a k + 6 else 0)" for k
  have da: "da k < 16" for k using a(1) by (force simp: da_def)
  have ua: "unat a = (\<Sum>i<7. digit a i * 16 ^ i)" and ub: "unat b = (\<Sum>i<7. digit b i * 16 ^ i)"
    using unat_digit_sum [of a] unat_digit_sum [of b] a(2) b(2)
      sum.lessThan_Suc [of "\<lambda>i. digit a i * 16 ^ i" 7] sum.lessThan_Suc [of "\<lambda>i. digit b i * 16 ^ i" 7]
    by simp_all
  have ub8: "unat b < 16 ^ 7" unfolding ub by (rule digit_sum_less) simp
  have ua1: "unat a1 = (\<Sum>i<7. da i * 16 ^ i)"
  proof -
    have "(\<Sum>i<7. da i * 16 ^ i) = unat a + 0x06666666"
      by (simp add: ua da_def lessThan_nat_numeral)
    moreover have "(\<Sum>i<7. da i * 16 ^ i) < 16 ^ 7" by (rule digit_sum_less) (rule da)
    ultimately show ?thesis
      by (simp add: a1_def unat_word_ariths)
  qed
  have low: "unat a1 mod 16 ^ k + unat b mod 16 ^ k = (\<Sum>i<k. (s i + 6) * 16 ^ i)" if "k \<le> 7" for k
  proof -
    have "unat a1 mod 16 ^ k = (\<Sum>i<k. da i * 16 ^ i)"
      unfolding ua1 using da that by (rule digit_sum_mod)
    moreover have "(\<Sum>i<k. da i * 16 ^ i) + (\<Sum>i<k. digit b i * 16 ^ i) = (\<Sum>i<k. (s i + 6) * 16 ^ i)"
      unfolding sum.distrib [symmetric] using that
      by (intro sum.cong) (auto simp: s_def da_def algebra_simps)
    ultimately show ?thesis using low_digits_sum [of b k] by simp
  qed
  have carry: "bit (a1 XOR b XOR t) (4 * k) \<longleftrightarrow> c k = 1" if "k \<le> 7" for k
    using that bit_carry_word [of "4 * k" a1 b] low [OF that]
    by (simp add: power_mult t_def c_def)
  have ut: "unat t = (\<Sum>i<7. (s i + 6) * 16 ^ i)"
  proof -
    have "unat a1 < 16 ^ 7" unfolding ua1 by (rule digit_sum_less) (rule da)
    then have "unat t = unat a1 + unat b" "unat a1 mod 16 ^ 7 = unat a1" "unat b mod 16 ^ 7 = unat b"
      using ub8 by (simp_all add: t_def unat_word_ariths)
    then show ?thesis using low [of 7] by simp
  qed
  have c8: "c 8 = 0" using c(2) [of 7] c1 [of 7] by (simp add: s_def)
  have ur: "unat (vbi_add_bcd a b) = (\<Sum>i<8. x i * 16 ^ i)"
  proof -
    let ?y = "NOT (b XOR (a1 XOR t))"
    let ?b3 = "drop_bit 3 (?y AND 0x11111110) OR drop_bit 3 (?y AND 0x11111110) * 2"
    have nbit: "(of_bool (bit ?y n) :: nat) = 1 - c (n div 4)" if "n \<in> {4, 8, 12, 16, 20, 24, 28}" for n
    proof -
      have "a1 XOR b XOR t = b XOR (a1 XOR t)" by (simp add: ac_simps)
      then show ?thesis
        using that carry [of "n div 4"] c1 [of "n div 4"] by (auto simp: bit_not_iff)
    qed
    have b3: "unat ?b3 = (\<Sum>i<7. (6 * (1 - c (Suc i))) * 16 ^ i)"
      unfolding carry_complement by (simp add: nbit lessThan_nat_numeral flip: numeral_2_eq_2)
    have *: "(\<Sum>i<7. (s i + 6 * c (Suc i)) * 16 ^ i) + unat ?b3 = unat t"
      unfolding b3 ut sum.distrib [symmetric]
      using c1 by (intro sum.cong) (auto simp: le_Suc_eq algebra_simps)
    have "vbi_add_bcd a b = t - ?b3"
      by (simp add: vbi_add_bcd_def Let_def a1_def t_def)
    moreover have "unat (t - ?b3) = unat t - unat ?b3"
      using * by (intro unat_sub) (simp add: word_le_nat_alt)
    ultimately have "unat (vbi_add_bcd a b) = (\<Sum>i<7. (s i + 6 * c (Suc i)) * 16 ^ i)"
      using * by simp
    moreover have "x 7 = c 7" by (simp add: x_def s_def c8)
    ultimately show ?thesis
      using bcd_sum_adjust(1) [OF c(1) x(1), of 7] by (simp add: lessThan_nat_numeral)
  qed
  have x16: "x i < 16" for i using x(2) [of i] by simp
  have dr: "digit (vbi_add_bcd a b) i = x i" if "i < 8" for i
    using ur x16 that by (rule digit_of_sum)
  show "bcd_value (vbi_add_bcd a b) = bcd_value a + bcd_value b"
  proof -
    have "bcd_value (vbi_add_bcd a b) = (\<Sum>i<8. x i * 10 ^ i)" by (simp add: bcd_value_def dr)
    moreover note c8
    moreover have "bcd_value a + bcd_value b = (\<Sum>i<8. s i * 10 ^ i)"
      unfolding bcd_value_def sum.distrib [symmetric] using a(2) b(2)
      by (intro sum.cong) (auto simp: s_def algebra_simps less_Suc_eq dest: less_antisym)
    ultimately show ?thesis using bcd_sum_adjust(2) [OF c(1) x(1), of 8] by simp
  qed
  show "\<forall>i<8. digit (vbi_add_bcd a b) i \<le> 9" using x(2) dr by simp
qed

lemma unat_vbi_bcd2dec: "unat (vbi_bcd2dec x) = digit x 0 + 10 * digit x 1 + 100 * digit x 2"
proof -
  have d: "unat (drop_bit (4 * i) x AND 15) = digit x i" for i
  proof -
    have "drop_bit (4 * i) x AND 15 = take_bit 4 (drop_bit (4 * i) x)"
      by (simp add: take_bit_eq_mask mask_eq_exp_minus_1)
    then have "unat (drop_bit (4 * i) x AND 15) = take_bit 4 (drop_bit (4 * i) (unat x))"
      by (simp only: unsigned_take_bit_eq unat_drop_bit_eq)
    then show ?thesis by (simp add: digit_def take_bit_eq_mod drop_bit_eq_div power_mult)
  qed
  have no_wrap: "((u + v * 10 mod 4294967296) mod 4294967296 + w * 100 mod 4294967296) mod 4294967296
      = u + 10 * v + 100 * w" if "u < 16" "v < 16" "w < 16" for u v w :: nat
    using that by simp
  show ?thesis
    using d [of 0] d [of 1] d [of 2] no_wrap [of "digit x 0" "digit x 1" "digit x 2"]
    by (simp add: vbi_bcd2dec_def unat_word_ariths)
qed

lemma unat_vbi_dec2bcd:
  "unat (vbi_dec2bcd x) = unat x mod 10 + unat x div 10 mod 10 * 16 + unat x div 100 mod 10 * 256"
proof -
  have "unat x div k < 4294967296" for k
    by (rule le_less_trans [OF div_le_dividend]) (use unsigned_less [where 'a = nat, of x] in simp)
  then show ?thesis
    by (simp add: vbi_dec2bcd_def unat_word_ariths unat_mod_distrib unat_div_distrib)
qed

lemma mod_1000_digits: "n mod 10 + 10 * (n div 10 mod 10) + 100 * (n div 100 mod 10) = n mod (1000::nat)"
proof -
  have "n mod 1000 = 10 * (n div 10 mod 100) + n mod 10" using mod_mult2_eq [of n 10 100] by simp
  moreover have "n div 10 mod 100 = 10 * (n div 100 mod 10) + n div 10 mod 10"
    using mod_mult2_eq [of "n div 10" 10 10] by (simp add: div_mult2_eq [symmetric])
  ultimately show ?thesis by simp
qed

lemma digit_vbi_dec2bcd:
  "digit (vbi_dec2bcd x) 0 = unat x mod 10" "digit (vbi_dec2bcd x) 1 = unat x div 10 mod 10"
  "digit (vbi_dec2bcd x) 2 = unat x div 100 mod 10"
proof -
  define d where "d i = unat x div 10 ^ i mod 10" for i
  have "unat (vbi_dec2bcd x) = (\<Sum>i<3. d i * 16 ^ i)"
    by (simp add: unat_vbi_dec2bcd lessThan_nat_numeral d_def)
  from digit_of_sum [OF this] show "digit (vbi_dec2bcd x) 0 = unat x mod 10"
    "digit (vbi_dec2bcd x) 1 = unat x div 10 mod 10" "digit (vbi_dec2bcd x) 2 = unat x div 100 mod 10"
    by (simp_all add: d_def)
qed

text \<open>C14: Converting a number to packed BCD and back gives its three low decimal digits; so the round trip is
  the identity on 0 to 999, as the documentation says, and extra digits are discarded.\<close>

theorem vbi_bcd2dec_dec2bcd: "vbi_bcd2dec (vbi_dec2bcd x) = x mod 1000"
  by (rule unsigned_word_eqI [where 'a = nat])
    (simp only: unat_vbi_bcd2dec digit_vbi_dec2bcd mod_1000_digits unat_mod_distrib, simp)

text \<open>C12: \<^verbatim>\<open>vbi_add_bcd\<close> is decimal addition: for two packed BCD numbers of at most seven digits (the top
  nibble zero) the result has only decimal digits, and the number it denotes is the sum of the numbers
  the arguments denote.\<close>

theorem vbi_add_bcd_correct:
  assumes "vbi_is_bcd a" "digit a 7 = 0" "vbi_is_bcd b" "digit b 7 = 0"
  shows "bcd_value (vbi_add_bcd a b) = bcd_value a + bcd_value b
    \<and> (\<forall>i<8. digit (vbi_add_bcd a b) i \<le> 9)"
  using assms vbi_add_bcd_digits [of a b] by (simp add: vbi_is_bcd_iff)

theorem vbi_add_bcd_correct_witness:
  "bcd_value (vbi_add_bcd 0x0199999 0x9999901) = bcd_value 0x0199999 + bcd_value 0x9999901
    \<and> digit (vbi_add_bcd 0x0199999 0x9999901) 7 \<le> 9"
proof -
  have "vbi_is_bcd 0x0199999" "vbi_is_bcd 0x9999901" by code_simp+
  moreover have "digit 0x0199999 7 = 0" "digit 0x9999901 7 = 0" by (simp_all add: digit_def)
  ultimately show ?thesis using vbi_add_bcd_correct [of "0x0199999" "0x9999901"] by simp
qed

text \<open>\<^verbatim>\<open>vbi_is_bcd\<close> accepts exactly the numbers whose seven low nibbles are decimal digits, and
  \<^verbatim>\<open>vbi_bcd_digits_greater\<close> holds exactly if one of the seven low digits exceeds the digit of the maximum
  at the same place. The most significant nibble takes no part in either test.\<close>

theorem bcd_tests_digitwise:
  "(vbi_is_bcd x \<longleftrightarrow> (\<forall>i<7. digit x i \<le> 9))
   \<and> (vbi_bcd_digits_greater x m \<longleftrightarrow> (\<exists>i<7. digit m i < digit x i))"
  by (simp add: vbi_is_bcd_iff vbi_bcd_digits_greater_iff)

theorem bcd_tests_digitwise_witness:
  "(vbi_is_bcd 0x295959 \<longleftrightarrow> (\<forall>i<7. digit 0x295959 i \<le> 9))
   \<and> (vbi_bcd_digits_greater 0x246000 0x295959 \<longleftrightarrow> (\<exists>i<7. digit 0x295959 i < digit 0x246000 i))"
  using bcd_tests_digitwise [of "0x295959" "0x295959"] bcd_tests_digitwise [of "0x246000" "0x295959"]
  by blast

end
