(* ===== verification/Gf2.thy ===== *)
theory Gf2
  imports Prelude
begin

text \<open>Linear algebra over bits. The tables of hamm-tables.h are linear or affine in the bits of their index, so a
  table is given by its columns, one for each bit of the index: \<open>column_table\<close> computes a table from its columns and
  \<open>xor_cols\<close> one entry of it. A function built from exclusive or, masks, shifts and such tables is affine (the
  collection \<open>affine_intros\<close>) and two affine functions agree when they agree on zero and the unit vectors.\<close>

unbundle bit_operations_syntax

subsection \<open>Sums of columns\<close>

primrec xor_cols :: "'b::len word list \<Rightarrow> (nat \<Rightarrow> bool) \<Rightarrow> 'b word" where
  "xor_cols [] f = 0"
| "xor_cols (c # cs) f = (if f 0 then c else 0) XOR xor_cols cs (\<lambda>n. f (Suc n))"

primrec column_table :: "'b::len word list \<Rightarrow> 'b word \<Rightarrow> 'b word list" where
  "column_table [] k = [k]"
| "column_table (c # cs) k = column_table cs k @ column_table cs (k XOR c)"

lemma xor_cols_xor:
  "xor_cols cs (\<lambda>n. f n \<noteq> g n) = xor_cols cs f XOR xor_cols cs g"
proof (induction cs arbitrary: f g)
  case (Cons c cs)
  show ?case
    using Cons [of "\<lambda>n. f (Suc n)" "\<lambda>n. g (Suc n)"] by (simp add: ac_simps) 
qed simp

lemma xor_cols_bit_xor:
  "xor_cols cs (bit (a XOR b)) = xor_cols cs (bit a) XOR xor_cols cs (bit b)"
  for a b :: "'a::len word"
  using xor_cols_xor [of cs "bit a" "bit b"] by (simp add: bit_xor_iff [abs_def])

lemma xor_cols_cong:
  "(\<And>n. n < length cs \<Longrightarrow> f n = g n) \<Longrightarrow> xor_cols cs f = xor_cols cs g"
proof (induction cs arbitrary: f g)
  case (Cons c cs)
  have "xor_cols cs (\<lambda>n. f (Suc n)) = xor_cols cs (\<lambda>n. g (Suc n))"
    using Cons.prems by (intro Cons.IH) simp
  with Cons.prems [of 0] show ?case by simp
qed simp

lemma xor_cols_append:
  "xor_cols (cs @ [c]) f = xor_cols cs f XOR (if f (length cs) then c else 0)"
  by (induction cs arbitrary: f) (simp_all add: ac_simps)

lemma length_column_table [simp]: "length (column_table cs k) = 2 ^ length cs"
  by (induction cs arbitrary: k) simp_all

lemma nth_column_table:
  "i < 2 ^ length cs \<Longrightarrow> column_table cs k ! i = k XOR xor_cols (rev cs) (bit i)"
proof (induction cs arbitrary: k i)
  case (Cons c cs)
  show ?case
  proof (cases "i < 2 ^ length cs")
    case True
    then have "\<not> bit i (length cs)" by (simp add: bit_iff_odd)
    with True Cons.IH [of i k] show ?thesis by (simp add: nth_append xor_cols_append)
  next
    case False
    define j where "j = i - 2 ^ length cs"
    have j: "j < 2 ^ length cs" "i = j + 2 ^ length cs"
      using False Cons.prems by (simp_all add: j_def)
    have b: "bit i (length cs)" using j by (simp add: bit_iff_odd div_add_self2)
    have "xor_cols (rev cs) (bit i) = xor_cols (rev cs) (bit j)"
    proof (rule xor_cols_cong)
      fix n assume "n < length (rev cs)"
      then obtain e where "length cs = n + Suc e" using less_iff_Suc_add by auto
      then have "i = j + 2 ^ n * (2 * 2 ^ e)" by (simp add: j(2) power_add)
      then have "i div 2 ^ n = 2 * 2 ^ e + j div 2 ^ n" by (simp only: div_mult_self2) simp
      then show "bit i n = bit j n" by (simp add: bit_iff_odd)
    qed
    with False b Cons.IH [of j "k XOR c"] j(1) show ?thesis
      by (simp add: nth_append xor_cols_append j_def ac_simps)
  qed
qed simp

lemma bit_xor_cols_all:
  "(\<forall>c\<in>set cs. bit c k) \<Longrightarrow>
     bit (xor_cols cs f) k \<longleftrightarrow> odd (\<Sum>n<length cs. of_bool (f n) :: nat)"
proof (induction cs arbitrary: f)
  case (Cons c cs)
  then show ?case
    using Cons.IH [of "\<lambda>n. f (Suc n)"] by (auto simp: bit_xor_iff sum.lessThan_Suc_shift simp del: sum.lessThan_Suc)
qed simp

subsection \<open>Affine maps\<close>

definition affine :: "('a::len word \<Rightarrow> 'b::len word) \<Rightarrow> bool" where
  "affine f \<longleftrightarrow> (\<forall>a b. f (a XOR b) = f a XOR f b XOR f 0)"

named_theorems affine_intros

lemma affine_const [affine_intros]: "affine (\<lambda>x. c)"
  by (simp add: affine_def)

lemma affine_id [affine_intros]: "affine (\<lambda>x. x)"
  by (simp add: affine_def)

lemma affine_xor [affine_intros]: "affine f \<Longrightarrow> affine g \<Longrightarrow> affine (\<lambda>x. f x XOR g x)"
  by (simp add: affine_def ac_simps)

lemma affine_and [affine_intros]: "affine f \<Longrightarrow> affine (\<lambda>x. f x AND c)"
  by (simp add: affine_def bit.conj_xor_distrib2)

lemma affine_drop_bit [affine_intros]: "affine f \<Longrightarrow> affine (\<lambda>x. drop_bit n (f x))"
  by (simp add: affine_def drop_bit_xor)

lemma affine_push_bit [affine_intros]: "affine f \<Longrightarrow> affine (\<lambda>x. push_bit n (f x))"
  by (simp add: affine_def push_bit_xor)

lemma affine_ucast [affine_intros]: "affine f \<Longrightarrow> affine (\<lambda>x. ucast (f x))"
  by (simp add: affine_def unsigned_xor_eq)

lemma affine_table [affine_intros]:
  assumes "affine f" "t = column_table cs k" "length cs = LENGTH('a)"
  shows "affine (\<lambda>x. t ! unat (f x :: 'a::len word))"
proof -
  have "t ! unat y = k XOR xor_cols (rev cs) (bit y)" for y :: "'a word"
  proof -
    have "t ! unat y = k XOR xor_cols (rev cs) (bit (unat y))"
      using assms(2,3) unsigned_less [where 'a = nat, of y] by (simp add: nth_column_table)
    then show ?thesis by (simp add: bit_unsigned_iff [abs_def])
  qed
  then show ?thesis
    using assms(1) by (simp add: affine_def xor_cols_bit_xor ac_simps)
qed

lemma affine_eq:
  assumes "affine f" "affine g" "f 0 = g 0" "\<forall>k<n. f (2 ^ k) = g (2 ^ k)" "take_bit n x = x"
  shows "f x = g x"
  using assms(4,5)
proof (induction n arbitrary: x)
  case 0
  then show ?case using assms(3) by simp
next
  case (Suc n)
  define y where "y = take_bit n x"
  have "bit x k \<longleftrightarrow> k < Suc n \<and> bit x k" for k
    using Suc.prems(2) by (metis bit_take_bit_iff)
  then have "x = y XOR (if bit x n then 2 ^ n else 0)"
    unfolding y_def by (intro bit_word_eqI) (auto simp: bit_simps less_Suc_eq)
  moreover have "f y = g y" using Suc by (simp add: y_def)
  ultimately show ?case
    using assms(1-3) Suc.prems(1) by (cases "bit x n") (auto simp: affine_def)
qed

definition affine_lt :: "nat \<Rightarrow> ('a::len word \<Rightarrow> 'b::len word) \<Rightarrow> bool" where
  "affine_lt n f \<longleftrightarrow> affine f \<and> (\<forall>x. take_bit n (f x) = f x)"

lemma affine_lt_const: "take_bit n c = c \<Longrightarrow> affine_lt n (\<lambda>x. c)"
  by (simp add: affine_lt_def affine_const)

lemma affine_lt_one [affine_intros]: "affine_lt 1 (\<lambda>x. 1)"
  by (rule affine_lt_const) simp

lemma affine_lt_zero [affine_intros]: "affine_lt 1 (\<lambda>x. 0)"
  by (rule affine_lt_const) simp

lemma affine_lt_xor [affine_intros]:
  "affine_lt n f \<Longrightarrow> affine_lt n g \<Longrightarrow> affine_lt n (\<lambda>x. f x XOR g x)"
  by (simp add: affine_lt_def affine_xor)

lemma affine_lt_bit [affine_intros]: "affine f \<Longrightarrow> affine_lt 1 (\<lambda>x. drop_bit n (f x) AND 1)"
  unfolding affine_lt_def by (auto intro!: affine_intros simp: take_bit_eq_mask)

lemma affine_lt_add_push_bit:
  assumes "affine_lt n f" "affine_lt 1 g" "n \<le> m"
  shows "affine_lt (Suc m) (\<lambda>x. f x + push_bit m (g x))"
proof -
  have f: "\<not> bit (f x) k" if "n \<le> k" for x k
    using assms(1) that unfolding affine_lt_def by (metis bit_take_bit_iff not_le)
  have g: "\<not> bit (g x) k" if "k \<noteq> 0" for x k
    using assms(2) that unfolding affine_lt_def by (metis bit_take_bit_iff less_one)
  have disj: "f x AND push_bit m (g x) = 0" for x
    by (rule bit_word_eqI) (use assms(3) f in \<open>auto simp: bit_simps\<close>)
  have eq: "f x + push_bit m (g x) = f x XOR push_bit m (g x)" for x
    using disj [of x] by (simp add: disjunctive_add_eq_xor)
  have "take_bit (Suc m) (f x XOR push_bit m (g x)) = f x XOR push_bit m (g x)" for x
    by (rule bit_word_eqI)
      (use assms(3) f g in \<open>auto simp: bit_simps not_less Suc_le_eq le_less intro: ccontr\<close>)
  moreover have "affine (\<lambda>x. f x XOR push_bit m (g x))"
    using assms(1,2) by (intro affine_intros) (simp_all add: affine_lt_def)
  ultimately show ?thesis by (simp add: affine_lt_def eq)
qed

lemma affine_ltD: "affine_lt n f \<Longrightarrow> affine f"
  by (simp add: affine_lt_def)

lemma xor_cols_exp: "k < length cs \<Longrightarrow> xor_cols cs (\<lambda>n. n = k) = cs ! k"
proof (induction cs arbitrary: k)
  case (Cons c cs)
  have z: "xor_cols cs (\<lambda>n. False) = 0" for cs :: "'c::len word list" by (induction cs) simp_all
  from Cons show ?case by (cases k) (simp_all add: z)
qed simp

lemma map_affine_eq_column_table:
  fixes f :: "'a::len word \<Rightarrow> 'b::len word"
  assumes "affine f" "n \<le> LENGTH('a)"
  shows "map (\<lambda>i. f (word_of_nat i)) [0..<2 ^ n] =
    column_table (rev (map (\<lambda>k. f (2 ^ k) XOR f 0) [0..<n])) (f 0)" (is "_ = column_table (rev ?cs) _")
proof (rule nth_equalityI)
  fix i assume "i < length (map (\<lambda>i. f (word_of_nat i)) [0..<2 ^ n])"
  then have i: "i < 2 ^ n" by simp
  define g where "g = (\<lambda>x::'a word. f 0 XOR xor_cols ?cs (bit x))"
  have ag: "affine g"
    by (simp add: affine_def g_def xor_cols_bit_xor ac_simps) (simp add: xor_cols_bit_xor [of _ 0 0, simplified])
  have z: "f 0 = g 0"
    using xor_cols_bit_xor [of ?cs "0::'a word" 0] by (simp add: g_def)
  have basis: "\<forall>k<n. f (2 ^ k) = g (2 ^ k)"
  proof (intro allI impI)
    fix k assume k: "k < n"
    then have "bit (2 ^ k :: 'a word) = (\<lambda>n. n = k)"
      using assms(2) by (auto simp: bit_exp_iff)
    then show "f (2 ^ k) = g (2 ^ k)" using k by (simp add: g_def xor_cols_exp ac_simps)
  qed
  have tb: "take_bit n (word_of_nat i) = (word_of_nat i :: 'a word)"
    using i by (simp only: take_bit_of_nat take_bit_nat_eq_self)
  have "f (word_of_nat i) = g (word_of_nat i)"
    by (rule affine_eq [OF assms(1) ag z basis tb])
  also have "xor_cols ?cs (bit (word_of_nat i :: 'a word)) = xor_cols ?cs (bit i)"
  proof (rule xor_cols_cong)
    fix m assume "m < length ?cs"
    then have "m < LENGTH('a)" using assms(2) by simp
    then show "bit (word_of_nat i :: 'a word) m = bit i m" by (simp add: bit_of_nat_iff)
  qed
  then have "g (word_of_nat i) = column_table (rev ?cs) (f 0) ! i"
    using i by (simp add: g_def nth_column_table)
  finally show "map (\<lambda>i. f (word_of_nat i)) [0..<2 ^ n] ! i = column_table (rev ?cs) (f 0) ! i"
    using i by simp
qed simp

end
