(* ===== verification/Hamm.thy ===== *)
theory Hamm
  imports Gf2
begin

text \<open>The error correction codes of hamm.h, hamm.c and hamm-tables.h: bit reversal, odd parity, Hamming 8/4 and
  Hamming 24/18, with the tables as they are in the source. The locale \<open>sec_ded\<close> states what a code that corrects
  single and detects double bit errors promises; here it is interpreted for Hamming 8/4.\<close>

unbundle bit_operations_syntax

subsection \<open>The tables of hamm-tables.h\<close>

definition vbi_bit_reverse :: "u8 list" where
  "vbi_bit_reverse = [
    0, 128, 64, 192, 32, 160, 96, 224, 16, 144, 80, 208, 48, 176, 112, 240, 8, 136, 72, 200, 40,
    168, 104, 232, 24, 152, 88, 216, 56, 184, 120, 248, 4, 132, 68, 196, 36, 164, 100, 228, 20,
    148, 84, 212, 52, 180, 116, 244, 12, 140, 76, 204, 44, 172, 108, 236, 28, 156, 92, 220, 60,
    188, 124, 252, 2, 130, 66, 194, 34, 162, 98, 226, 18, 146, 82, 210, 50, 178, 114, 242, 10, 138,
    74, 202, 42, 170, 106, 234, 26, 154, 90, 218, 58, 186, 122, 250, 6, 134, 70, 198, 38, 166, 102,
    230, 22, 150, 86, 214, 54, 182, 118, 246, 14, 142, 78, 206, 46, 174, 110, 238, 30, 158, 94,
    222, 62, 190, 126, 254, 1, 129, 65, 193, 33, 161, 97, 225, 17, 145, 81, 209, 49, 177, 113, 241,
    9, 137, 73, 201, 41, 169, 105, 233, 25, 153, 89, 217, 57, 185, 121, 249, 5, 133, 69, 197, 37,
    165, 101, 229, 21, 149, 85, 213, 53, 181, 117, 245, 13, 141, 77, 205, 45, 173, 109, 237, 29,
    157, 93, 221, 61, 189, 125, 253, 3, 131, 67, 195, 35, 163, 99, 227, 19, 147, 83, 211, 51, 179,
    115, 243, 11, 139, 75, 203, 43, 171, 107, 235, 27, 155, 91, 219, 59, 187, 123, 251, 7, 135, 71,
    199, 39, 167, 103, 231, 23, 151, 87, 215, 55, 183, 119, 247, 15, 143, 79, 207, 47, 175, 111,
    239, 31, 159, 95, 223, 63, 191, 127, 255]"

definition vbi_hamm8_fwd :: "u8 list" where
  "vbi_hamm8_fwd = [
    21, 2, 73, 94, 100, 115, 56, 47, 208, 199, 140, 155, 161, 182, 253, 234]"

definition vbi_hamm8_inv :: "int list" where
  "vbi_hamm8_inv = [
    1, - 1, 1, 1, - 1, 0, 1, - 1, - 1, 2, 1, - 1, 10, - 1, - 1, 7, - 1, 0, 1, - 1, 0, 0, - 1, 0, 6,
    - 1, - 1, 11, - 1, 0, 3, - 1, - 1, 12, 1, - 1, 4, - 1, - 1, 7, 6, - 1, - 1, 7, - 1, 7, 7, 7, 6,
    - 1, - 1, 5, - 1, 0, 13, - 1, 6, 6, 6, - 1, 6, - 1, - 1, 7, - 1, 2, 1, - 1, 4, - 1, - 1, 9, 2,
    2, - 1, 2, - 1, 2, 3, - 1, 8, - 1, - 1, 5, - 1, 0, 3, - 1, - 1, 2, 3, - 1, 3, - 1, 3, 3, 4,
    - 1, - 1, 5, 4, 4, 4, - 1, - 1, 2, 15, - 1, 4, - 1, - 1, 7, - 1, 5, 5, 5, 4, - 1, - 1, 5, 6,
    - 1, - 1, 5, - 1, 14, 3, - 1, - 1, 12, 1, - 1, 10, - 1, - 1, 9, 10, - 1, - 1, 11, 10, 10, 10,
    - 1, 8, - 1, - 1, 11, - 1, 0, 13, - 1, - 1, 11, 11, 11, 10, - 1, - 1, 11, 12, 12, - 1, 12, - 1,
    12, 13, - 1, - 1, 12, 15, - 1, 10, - 1, - 1, 7, - 1, 12, 13, - 1, 13, - 1, 13, 13, 6, - 1, - 1,
    11, - 1, 14, 13, - 1, 8, - 1, - 1, 9, - 1, 9, 9, 9, - 1, 2, 15, - 1, 10, - 1, - 1, 9, 8, 8, 8,
    - 1, 8, - 1, - 1, 9, 8, - 1, - 1, 11, - 1, 14, 3, - 1, - 1, 12, 15, - 1, 4, - 1, - 1, 9, 15,
    - 1, 15, 15, - 1, 14, 15, - 1, 8, - 1, - 1, 5, - 1, 14, 13, - 1, - 1, 14, 15, - 1, 14, 14, - 1,
    14]"

definition vbi_hamm24_fwd_0 :: "u8 list" where
  "vbi_hamm24_fwd_0 = [
    139, 140, 146, 149, 161, 166, 184, 191, 192, 199, 217, 222, 234, 237, 243, 244, 10, 13, 19, 20,
    32, 39, 57, 62, 65, 70, 88, 95, 107, 108, 114, 117, 9, 14, 16, 23, 35, 36, 58, 61, 66, 69, 91,
    92, 104, 111, 113, 118, 136, 143, 145, 150, 162, 165, 187, 188, 195, 196, 218, 221, 233, 238,
    240, 247, 8, 15, 17, 22, 34, 37, 59, 60, 67, 68, 90, 93, 105, 110, 112, 119, 137, 142, 144,
    151, 163, 164, 186, 189, 194, 197, 219, 220, 232, 239, 241, 246, 138, 141, 147, 148, 160, 167,
    185, 190, 193, 198, 216, 223, 235, 236, 242, 245, 11, 12, 18, 21, 33, 38, 56, 63, 64, 71, 89,
    94, 106, 109, 115, 116, 3, 4, 26, 29, 41, 46, 48, 55, 72, 79, 81, 86, 98, 101, 123, 124, 130,
    133, 155, 156, 168, 175, 177, 182, 201, 206, 208, 215, 227, 228, 250, 253, 129, 134, 152, 159,
    171, 172, 178, 181, 202, 205, 211, 212, 224, 231, 249, 254, 0, 7, 25, 30, 42, 45, 51, 52, 75,
    76, 82, 85, 97, 102, 120, 127, 128, 135, 153, 158, 170, 173, 179, 180, 203, 204, 210, 213, 225,
    230, 248, 255, 1, 6, 24, 31, 43, 44, 50, 53, 74, 77, 83, 84, 96, 103, 121, 126, 2, 5, 27, 28,
    40, 47, 49, 54, 73, 78, 80, 87, 99, 100, 122, 125, 131, 132, 154, 157, 169, 174, 176, 183, 200,
    207, 209, 214, 226, 229, 251, 252]"

definition vbi_hamm24_fwd_1 :: "u8 list" where
  "vbi_hamm24_fwd_1 = [
    0, 137, 138, 3, 139, 2, 1, 136, 1, 136, 139, 2, 138, 3, 0, 137, 2, 139, 136, 1, 137, 0, 3, 138,
    3, 138, 137, 0, 136, 1, 2, 139, 3, 138, 137, 0, 136, 1, 2, 139, 2, 139, 136, 1, 137, 0, 3, 138,
    1, 136, 139, 2, 138, 3, 0, 137, 0, 137, 138, 3, 139, 2, 1, 136, 8, 129, 130, 11, 131, 10, 9,
    128, 9, 128, 131, 10, 130, 11, 8, 129, 10, 131, 128, 9, 129, 8, 11, 130, 11, 130, 129, 8, 128,
    9, 10, 131, 11, 130, 129, 8, 128, 9, 10, 131, 10, 131, 128, 9, 129, 8, 11, 130, 9, 128, 131,
    10, 130, 11, 8, 129, 8, 129, 130, 11, 131, 10, 9, 128, 9, 128, 131, 10, 130, 11, 8, 129, 8,
    129, 130, 11, 131, 10, 9, 128, 11, 130, 129, 8, 128, 9, 10, 131, 10, 131, 128, 9, 129, 8, 11,
    130, 10, 131, 128, 9, 129, 8, 11, 130, 11, 130, 129, 8, 128, 9, 10, 131, 8, 129, 130, 11, 131,
    10, 9, 128, 9, 128, 131, 10, 130, 11, 8, 129, 1, 136, 139, 2, 138, 3, 0, 137, 0, 137, 138, 3,
    139, 2, 1, 136, 3, 138, 137, 0, 136, 1, 2, 139, 2, 139, 136, 1, 137, 0, 3, 138, 2, 139, 136, 1,
    137, 0, 3, 138, 3, 138, 137, 0, 136, 1, 2, 139, 0, 137, 138, 3, 139, 2, 1, 136, 1, 136, 139, 2,
    138, 3, 0, 137]"

definition vbi_hamm24_fwd_2 :: "u8 list" where
  "vbi_hamm24_fwd_2 = [
    0, 10, 11, 1]"

definition vbi_hamm24_inv_par :: "u8 list list" where
  "vbi_hamm24_inv_par = [[
    0, 33, 34, 3, 35, 2, 1, 32, 36, 5, 6, 39, 7, 38, 37, 4, 37, 4, 7, 38, 6, 39, 36, 5, 1, 32, 35,
    2, 34, 3, 0, 33, 38, 7, 4, 37, 5, 36, 39, 6, 2, 35, 32, 1, 33, 0, 3, 34, 3, 34, 33, 0, 32, 1,
    2, 35, 39, 6, 5, 36, 4, 37, 38, 7, 39, 6, 5, 36, 4, 37, 38, 7, 3, 34, 33, 0, 32, 1, 2, 35, 2,
    35, 32, 1, 33, 0, 3, 34, 38, 7, 4, 37, 5, 36, 39, 6, 1, 32, 35, 2, 34, 3, 0, 33, 37, 4, 7, 38,
    6, 39, 36, 5, 36, 5, 6, 39, 7, 38, 37, 4, 0, 33, 34, 3, 35, 2, 1, 32, 40, 9, 10, 43, 11, 42,
    41, 8, 12, 45, 46, 15, 47, 14, 13, 44, 13, 44, 47, 14, 46, 15, 12, 45, 41, 8, 11, 42, 10, 43,
    40, 9, 14, 47, 44, 13, 45, 12, 15, 46, 42, 11, 8, 41, 9, 40, 43, 10, 43, 10, 9, 40, 8, 41, 42,
    11, 15, 46, 45, 12, 44, 13, 14, 47, 15, 46, 45, 12, 44, 13, 14, 47, 43, 10, 9, 40, 8, 41, 42,
    11, 42, 11, 8, 41, 9, 40, 43, 10, 14, 47, 44, 13, 45, 12, 15, 46, 41, 8, 11, 42, 10, 43, 40, 9,
    13, 44, 47, 14, 46, 15, 12, 45, 12, 45, 46, 15, 47, 14, 13, 44, 40, 9, 10, 43, 11, 42, 41, 8],
  [
    0, 41, 42, 3, 43, 2, 1, 40, 44, 5, 6, 47, 7, 46, 45, 4, 45, 4, 7, 46, 6, 47, 44, 5, 1, 40, 43,
    2, 42, 3, 0, 41, 46, 7, 4, 45, 5, 44, 47, 6, 2, 43, 40, 1, 41, 0, 3, 42, 3, 42, 41, 0, 40, 1,
    2, 43, 47, 6, 5, 44, 4, 45, 46, 7, 47, 6, 5, 44, 4, 45, 46, 7, 3, 42, 41, 0, 40, 1, 2, 43, 2,
    43, 40, 1, 41, 0, 3, 42, 46, 7, 4, 45, 5, 44, 47, 6, 1, 40, 43, 2, 42, 3, 0, 41, 45, 4, 7, 46,
    6, 47, 44, 5, 44, 5, 6, 47, 7, 46, 45, 4, 0, 41, 42, 3, 43, 2, 1, 40, 48, 25, 26, 51, 27, 50,
    49, 24, 28, 53, 54, 31, 55, 30, 29, 52, 29, 52, 55, 30, 54, 31, 28, 53, 49, 24, 27, 50, 26, 51,
    48, 25, 30, 55, 52, 29, 53, 28, 31, 54, 50, 27, 24, 49, 25, 48, 51, 26, 51, 26, 25, 48, 24, 49,
    50, 27, 31, 54, 53, 28, 52, 29, 30, 55, 31, 54, 53, 28, 52, 29, 30, 55, 51, 26, 25, 48, 24, 49,
    50, 27, 50, 27, 24, 49, 25, 48, 51, 26, 30, 55, 52, 29, 53, 28, 31, 54, 49, 24, 27, 50, 26, 51,
    48, 25, 29, 52, 55, 30, 54, 31, 28, 53, 28, 53, 54, 31, 55, 30, 29, 52, 48, 25, 26, 51, 27, 50,
    49, 24],
  [
    63, 14, 13, 60, 12, 61, 62, 15, 11, 58, 57, 8, 56, 9, 10, 59, 10, 59, 56, 9, 57, 8, 11, 58, 62,
    15, 12, 61, 13, 60, 63, 14, 9, 56, 59, 10, 58, 11, 8, 57, 61, 12, 15, 62, 14, 63, 60, 13, 60,
    13, 14, 63, 15, 62, 61, 12, 8, 57, 58, 11, 59, 10, 9, 56, 8, 57, 58, 11, 59, 10, 9, 56, 60, 13,
    14, 63, 15, 62, 61, 12, 61, 12, 15, 62, 14, 63, 60, 13, 9, 56, 59, 10, 58, 11, 8, 57, 62, 15,
    12, 61, 13, 60, 63, 14, 10, 59, 56, 9, 57, 8, 11, 58, 11, 58, 57, 8, 56, 9, 10, 59, 63, 14, 13,
    60, 12, 61, 62, 15, 31, 46, 45, 28, 44, 29, 30, 47, 43, 26, 25, 40, 24, 41, 42, 27, 42, 27, 24,
    41, 25, 40, 43, 26, 30, 47, 44, 29, 45, 28, 31, 46, 41, 24, 27, 42, 26, 43, 40, 25, 29, 44, 47,
    30, 46, 31, 28, 45, 28, 45, 46, 31, 47, 30, 29, 44, 40, 25, 26, 43, 27, 42, 41, 24, 40, 25, 26,
    43, 27, 42, 41, 24, 28, 45, 46, 31, 47, 30, 29, 44, 29, 44, 47, 30, 46, 31, 28, 45, 41, 24, 27,
    42, 26, 43, 40, 25, 30, 47, 44, 29, 45, 28, 31, 46, 42, 27, 24, 41, 25, 40, 43, 26, 43, 26, 25,
    40, 24, 41, 42, 27, 31, 46, 45, 28, 44, 29, 30, 47]]"

definition vbi_hamm24_inv_d1_d4 :: "u8 list" where
  "vbi_hamm24_inv_d1_d4 = [
    0, 1, 0, 1, 2, 3, 2, 3, 4, 5, 4, 5, 6, 7, 6, 7, 8, 9, 8, 9, 10, 11, 10, 11, 12, 13, 12, 13, 14,
    15, 14, 15, 0, 1, 0, 1, 2, 3, 2, 3, 4, 5, 4, 5, 6, 7, 6, 7, 8, 9, 8, 9, 10, 11, 10, 11, 12, 13,
    12, 13, 14, 15, 14, 15]"

definition vbi_hamm24_inv_err :: "u32 list" where
  "vbi_hamm24_inv_err = [
    0, 2147483648, 2147483648, 2147483648, 2147483648, 2147483648, 2147483648, 2147483648,
    2147483648, 2147483648, 2147483648, 2147483648, 2147483648, 2147483648, 2147483648, 2147483648,
    2147483648, 2147483648, 2147483648, 2147483648, 2147483648, 2147483648, 2147483648, 2147483648,
    2147483648, 2147483648, 2147483648, 2147483648, 2147483648, 2147483648, 2147483648, 2147483648,
    0, 0, 0, 1, 0, 2, 4, 8, 0, 16, 32, 64, 128, 256, 512, 1024, 0, 2048, 4096, 8192, 16384, 32768,
    65536, 131072, 2147483648, 2147483648, 2147483648, 2147483648, 2147483648, 2147483648,
    2147483648, 2147483648]"

subsection \<open>The inline functions of hamm.h\<close>

definition vbi_rev8 :: "u32 \<Rightarrow> u32" where
  "vbi_rev8 c = ucast (vbi_bit_reverse ! unat (ucast c :: u8))"

definition vbi_rev16 :: "u32 \<Rightarrow> u32" where
  "vbi_rev16 c = ucast (vbi_bit_reverse ! unat (ucast c :: u8)) * 256
     + ucast (vbi_bit_reverse ! unat (ucast (drop_bit 8 c) :: u8))"

definition vbi_rev16p :: "u8 list \<Rightarrow> u32" where
  "vbi_rev16p p = ucast (vbi_bit_reverse ! unat (p ! 0)) * 256
     + ucast (vbi_bit_reverse ! unat (p ! 1))"

text \<open>The entries of \<^verbatim>\<open>_vbi_hamm24_inv_par\<close> are non-negative \<^verbatim>\<open>int8_t\<close>; the integer
  promotion is the zero extension to \<^verbatim>\<open>int\<close>.\<close>

definition inv_par :: "nat \<Rightarrow> u8 \<Rightarrow> u32" where
  "inv_par k b = ucast (vbi_hamm24_inv_par ! k ! unat b)"

definition vbi_par8 :: "u32 \<Rightarrow> u32" where
  "vbi_par8 c =
     (let c = c AND 255
      in c XOR (128 AND NOT (push_bit 2 (inv_par 0 (ucast c)))))"

definition vbi_unpar8 :: "u32 \<Rightarrow> int" where
  "vbi_unpar8 c = (if inv_par 0 (ucast c) AND 32 \<noteq> 0 then uint (c AND 127) else - 1)"

definition vbi_ham8 :: "u32 \<Rightarrow> u32" where
  "vbi_ham8 c = ucast (vbi_hamm8_fwd ! unat (c AND 15))"

definition vbi_unham8 :: "u32 \<Rightarrow> int" where
  "vbi_unham8 c = vbi_hamm8_inv ! unat (ucast c :: u8)"

definition vbi_unham16p :: "u8 list \<Rightarrow> int" where
  "vbi_unham16p p = (vbi_hamm8_inv ! unat (p ! 0)) OR push_bit 4 (vbi_hamm8_inv ! unat (p ! 1))"

subsection \<open>The functions of hamm.c\<close>

text \<open>The loops run over a pointer; \<^const>\<open>None\<close> is an access beyond the end of the array.\<close>

fun vbi_par :: "u8 list \<Rightarrow> nat \<Rightarrow> u8 list option" where
  "vbi_par p 0 = Some p"
| "vbi_par [] (Suc n) = None"
| "vbi_par (c # p) (Suc n) =
     do { p \<leftarrow> vbi_par p n;
          Some ((c XOR (128 AND NOT (push_bit 2 (vbi_hamm24_inv_par ! 0 ! unat c)))) # p) }"

fun vbi_unpar_loop :: "u32 \<Rightarrow> u8 list \<Rightarrow> nat \<Rightarrow> (u32 \<times> u8 list) option" where
  "vbi_unpar_loop r p 0 = Some (r, p)"
| "vbi_unpar_loop r [] (Suc n) = None"
| "vbi_unpar_loop r (c # p) (Suc n) =
     do { (r, p) \<leftarrow> vbi_unpar_loop (r OR push_bit (32 - 1 - 5) (NOT (inv_par 0 c))) p n;
          Some (r, (c AND 127) # p) }"

definition vbi_unpar :: "u8 list \<Rightarrow> nat \<Rightarrow> (int \<times> u8 list) option" where
  "vbi_unpar p n = do { (r, p) \<leftarrow> vbi_unpar_loop 0 p n; Some (sint r, p) }"

definition vbi_ham24p :: "u8 list \<Rightarrow> u32 \<Rightarrow> u8 list" where
  "vbi_ham24p p c =
     (let Byte_0 = vbi_hamm24_fwd_0 ! unat (drop_bit 0 c AND 0xFF)
                   XOR vbi_hamm24_fwd_1 ! unat (drop_bit 8 c AND 0xFF)
                   XOR vbi_hamm24_fwd_2 ! unat (drop_bit 16 c AND 0x03);
          D5_D11 = drop_bit 4 c AND 0x7F;
          D12_D18 = drop_bit 11 c AND 0x7F;
          P5 = 0x80 AND NOT (push_bit 2 (inv_par 0 (ucast D12_D18)));
          P6 = 0x80 AND push_bit 2 (inv_par 0 Byte_0 XOR inv_par 0 (ucast D5_D11))
      in p[0 := Byte_0, 1 := ucast (D5_D11 OR P5), 2 := ucast (D12_D18 OR P6)])"

definition vbi_unham24p :: "u8 list \<Rightarrow> int" where
  "vbi_unham24p p =
     (let D1_D4 = ucast (vbi_hamm24_inv_d1_d4 ! unat (drop_bit 2 (p ! 0)));
          D5_D11 = ucast (p ! 1) AND 0x7F;
          D12_D18 = ucast (p ! 2) AND 0x7F;
          d = D1_D4 OR push_bit 4 D5_D11 OR push_bit 11 D12_D18;
          ABCDEF = inv_par 0 (p ! 0) XOR inv_par 1 (p ! 1) XOR inv_par 2 (p ! 2)
      in sint (d XOR vbi_hamm24_inv_err ! unat ABCDEF :: u32))"

subsection \<open>What an error correcting code promises\<close>

text \<open>A code word of \<^term>\<open>width\<close> bits is decoded to the number it encodes after at most one bit error, and
  to a negative number after two.\<close>

locale sec_ded =
  fixes enc :: "'d \<Rightarrow> 'w" and dec :: "'w \<Rightarrow> int" and flip :: "nat \<Rightarrow> 'w \<Rightarrow> 'w"
    and width :: nat and valid :: "'d \<Rightarrow> bool" and num :: "'d \<Rightarrow> int"
  assumes num_nonneg: "valid d \<Longrightarrow> 0 \<le> num d"
    and num_inj: "valid d \<Longrightarrow> valid d' \<Longrightarrow> num d = num d' \<Longrightarrow> d = d'"
    and dec_enc: "valid d \<Longrightarrow> dec (enc d) = num d"
    and dec_flip: "valid d \<Longrightarrow> i < width \<Longrightarrow> dec (flip i (enc d)) = num d"
    and dec_flip_flip: "valid d \<Longrightarrow> i < width \<Longrightarrow> j < i \<Longrightarrow> dec (flip i (flip j (enc d))) < 0"
begin

lemma enc_inj: "valid d \<Longrightarrow> valid d' \<Longrightarrow> enc d = enc d' \<Longrightarrow> d = d'"
  by (metis dec_enc num_inj)

lemma corrected_distinct:
  "valid d \<Longrightarrow> valid d' \<Longrightarrow> i < width \<Longrightarrow> j < width \<Longrightarrow> flip i (enc d) = flip j (enc d') \<Longrightarrow> d = d'"
  by (metis dec_flip num_inj)

lemma distance_3:
  "valid d \<Longrightarrow> valid d' \<Longrightarrow> i < width \<Longrightarrow> j < i \<Longrightarrow> k < width \<Longrightarrow>
     flip i (flip j (enc d)) \<noteq> flip k (enc d')"
  by (metis dec_flip dec_flip_flip num_nonneg not_le)

end

subsection \<open>Hamming 8/4\<close>

definition flip8 :: "nat \<Rightarrow> u8 \<Rightarrow> u8" where
  "flip8 j b = b XOR push_bit j 1"

lemma unham8_table:
  "list_all (\<lambda>i. let w = vbi_hamm8_fwd ! i in
     vbi_hamm8_inv ! unat w = int i
     \<and> list_all (\<lambda>j. vbi_hamm8_inv ! unat (flip8 j w) = int i
     \<and> list_all (\<lambda>k. vbi_hamm8_inv ! unat (flip8 j (flip8 k w)) = - 1) [0..<j]) [0..<8]) [0..<16]"
  by code_simp

lemma hamm8_inv_range: "list_all (\<lambda>x. - 1 \<le> x \<and> x < 16) vbi_hamm8_inv \<and> length vbi_hamm8_inv = 256"
  by code_simp

lemma hamm8_inv_nth: "- 1 \<le> vbi_hamm8_inv ! unat b \<and> vbi_hamm8_inv ! unat b < 16" for b :: u8
  using hamm8_inv_range unsigned_less [where 'a = nat, of b] by (simp add: list_all_length)

lemma vbi_unham8_range: "- 1 \<le> vbi_unham8 c" "vbi_unham8 c < 16"
  using hamm8_inv_nth by (simp_all add: vbi_unham8_def)

lemma vbi_unham8_ucast [simp]: "vbi_unham8 (ucast b) = vbi_hamm8_inv ! unat b" for b :: u8
  by (simp add: vbi_unham8_def)

lemma word_lt_16_and: "d < 16 \<Longrightarrow> d AND 15 = d" for d :: u32
  using take_bit_eq_self_unat [of d 4]
  by (simp add: take_bit_eq_mask mask_eq_exp_minus_1 word_less_nat_alt)

interpretation ham8: sec_ded
  "\<lambda>d. ucast (vbi_ham8 d) :: u8" "\<lambda>b. vbi_unham8 (ucast b)" flip8 8 "\<lambda>d. d < 16" uint
proof unfold_locales
  fix d :: u32 and i j :: nat
  assume d: "d < 16"
  then have u: "unat d < 16" by (simp add: word_less_nat_alt)
  have e: "ucast (vbi_ham8 d) = vbi_hamm8_fwd ! unat d"
    using d by (simp add: vbi_ham8_def word_lt_16_and)
  show "vbi_unham8 (ucast (ucast (vbi_ham8 d) :: u8)) = uint d"
    using unham8_table u unfolding e by (simp add: list_all_iff Let_def)
  show "i < 8 \<Longrightarrow> vbi_unham8 (ucast (flip8 i (ucast (vbi_ham8 d)))) = uint d"
    using unham8_table u unfolding e by (simp add: list_all_iff Let_def)
  show "i < 8 \<Longrightarrow> j < i \<Longrightarrow> vbi_unham8 (ucast (flip8 i (flip8 j (ucast (vbi_ham8 d))))) < 0"
    using unham8_table u unfolding e by (simp add: list_all_iff Let_def)
qed (auto intro: unsigned_word_eqI)

lemma vbi_unham16p_neg:
  "vbi_unham16p p < 0 \<longleftrightarrow> vbi_hamm8_inv ! unat (p ! 0) < 0 \<or> vbi_hamm8_inv ! unat (p ! 1) < 0"
  using or_nonnegative_int_iff [of "vbi_hamm8_inv ! unat (p ! 0)" "push_bit 4 (vbi_hamm8_inv ! unat (p ! 1))"]
  by (auto simp: vbi_unham16p_def not_le [symmetric])

lemma vbi_unham16p_nonneg:
  "vbi_unham16p p \<ge> 0 \<Longrightarrow>
     vbi_unham16p p = vbi_hamm8_inv ! unat (p ! 0) + 16 * vbi_hamm8_inv ! unat (p ! 1)"
  using or_push_bit_int [of "vbi_hamm8_inv ! unat (p ! 0)" 4 "vbi_hamm8_inv ! unat (p ! 1)"]
    hamm8_inv_nth [of "p ! 0"] vbi_unham16p_neg [of p]
  by (simp add: vbi_unham16p_def not_less)

lemma vbi_unham16p_lt: "vbi_unham16p p < 256"
  using vbi_unham16p_nonneg [of p] hamm8_inv_nth [of "p ! 0"] hamm8_inv_nth [of "p ! 1"]
  by (cases "vbi_unham16p p \<ge> 0") auto

subsection \<open>Bit reversal and parity\<close>

lemma bit_reverse_columns:
  "vbi_bit_reverse = column_table [0x01, 0x02, 0x04, 0x08, 0x10, 0x20, 0x40, 0x80] 0"
  by code_simp

lemma nth_bit_reverse: "vbi_bit_reverse ! unat b =
   xor_cols [0x80, 0x40, 0x20, 0x10, 0x08, 0x04, 0x02, 0x01] (bit b)" for b :: u8
  using nth_column_table [of "unat b" "[0x01, 0x02, 0x04, 0x08, 0x10, 0x20, 0x40, 0x80] :: u8 list" 0]
    unsigned_less [where 'a = nat, of b]
  by (simp add: bit_reverse_columns bit_unsigned_iff [abs_def])

lemma bit_vbi_bit_reverse: "n < 8 \<Longrightarrow> bit (vbi_bit_reverse ! unat b) n \<longleftrightarrow> bit b (7 - n)" for b :: u8
proof -
  have "list_all (\<lambda>n. \<forall>f. bit (xor_cols [0x80, 0x40, 0x20, 0x10, 0x08, 0x04, 0x02, 0x01 :: u8] f) n
      = f (7 - n)) [0..<8]"
    by (simp add: upt_rec bit_simps) (simp add: numeral_eq_Suc)
  then show "n < 8 \<Longrightarrow> bit (vbi_bit_reverse ! unat b) n \<longleftrightarrow> bit b (7 - n)"
    by (simp add: nth_bit_reverse list_all_iff)
qed

lemma bit_reverse_involution: "vbi_bit_reverse ! unat (vbi_bit_reverse ! unat b) = b" for b :: u8
  by (rule bit_word_eqI) (simp add: bit_vbi_bit_reverse)

lemma vbi_rev8_rev8: "vbi_rev8 (vbi_rev8 c) = c AND 0xFF"
  by (simp add: vbi_rev8_def bit_reverse_involution ucast_u32_u8 and_255)

definition odd_parity :: "u8 \<Rightarrow> bool" where
  "odd_parity b \<longleftrightarrow> odd (\<Sum>n<8. of_bool (bit b n) :: nat)"

lemma inv_par_0_columns:
  "vbi_hamm24_inv_par ! 0 = column_table [0x28, 0x27, 0x26, 0x25, 0x24, 0x23, 0x22, 0x21] 0"
  by code_simp

lemma bit_inv_par_0: "bit (vbi_hamm24_inv_par ! 0 ! unat b) 5 \<longleftrightarrow> odd_parity b"
proof -
  define cs :: "u8 list" where "cs = [0x28, 0x27, 0x26, 0x25, 0x24, 0x23, 0x22, 0x21]"
  have "vbi_hamm24_inv_par ! 0 ! unat b = xor_cols (rev cs) (bit b)"
    using nth_column_table [of "unat b" cs 0] unsigned_less [where 'a = nat, of b]
    by (simp add: inv_par_0_columns cs_def bit_unsigned_iff [abs_def])
  moreover have "\<forall>c\<in>set (rev cs). bit c 5" "length (rev cs) = 8"
    by (simp_all add: cs_def bit_simps)
  ultimately show ?thesis
    using bit_xor_cols_all [of "rev cs" 5 "bit b"] by (simp only: odd_parity_def)
qed

lemma inv_par_bit_5: "bit (inv_par 0 b) 5 \<longleftrightarrow> odd_parity b"
  by (simp add: inv_par_def bit_unsigned_iff bit_inv_par_0)

lemma odd_parity_flip_7: "odd_parity (b XOR 128) \<longleftrightarrow> \<not> odd_parity b"
proof -
  have "(\<Sum>n<7. of_bool (bit (b XOR 128) n) :: nat) = (\<Sum>n<7. of_bool (bit b n))"
  proof (rule sum.cong)
    fix n assume "n \<in> {..<7::nat}"
    then show "of_bool (bit (b XOR 128) n) = (of_bool (bit b n) :: nat)"
      using bit_exp_iff [of 7 n, where 'a = u8] by (simp add: bit_xor_iff)
  qed simp
  moreover have "bit (b XOR 128) 7 \<longleftrightarrow> \<not> bit b 7" by (simp add: bit_simps)
  moreover have "(\<Sum>n<8. g n) = (\<Sum>n<7. g n) + g 7" for g :: "nat \<Rightarrow> nat"
    using sum.lessThan_Suc [of g 7] by simp
  ultimately show ?thesis by (simp add: odd_parity_def)
qed

definition par_byte :: "u8 \<Rightarrow> u8" where
  "par_byte c = (if odd_parity c then c else c XOR 128)"

lemma par_byte_eq:
  "c XOR (128 AND NOT (push_bit 2 (vbi_hamm24_inv_par ! 0 ! unat c))) = par_byte c"
proof -
  have "128 AND NOT (push_bit 2 w) = (if bit w 5 then 0 else 128)" for w :: u8
    using and_exp_eq_of_bool [of "NOT (push_bit 2 w)" 7] by (simp add: bit_simps and.commute)
  then show ?thesis by (simp add: par_byte_def bit_inv_par_0)
qed

lemma odd_parity_par_byte [simp]: "odd_parity (par_byte c)"
  by (simp add: par_byte_def odd_parity_flip_7)

lemma par_byte_and_127 [simp]: "par_byte c AND 127 = c AND 127"
  by (simp add: par_byte_def bit.conj_xor_distrib2)

lemma vbi_par_spec:
  "vbi_par p n = (if n \<le> length p then Some (map par_byte (take n p) @ drop n p) else None)"
  by (induction p n rule: vbi_par.induct) (simp_all add: par_byte_eq)

lemma sint_neg_iff_bit_31: "sint r < 0 \<longleftrightarrow> bit r 31" for r :: u32
  using bit_last_iff [of r] by simp

lemma sint_nonneg_iff_bit_31: "0 \<le> sint r \<longleftrightarrow> \<not> bit r 31" for r :: u32
  using sint_neg_iff_bit_31 [of r] by linarith

lemma vbi_unpar_loop_spec:
  "vbi_unpar_loop r p n = (if n \<le> length p then
     Some (fold (\<lambda>c r. r OR push_bit 26 (NOT (inv_par 0 c))) (take n p) r,
       map (\<lambda>c. c AND 127) (take n p) @ drop n p) else None)"
  by (induction r p n rule: vbi_unpar_loop.induct) simp_all

lemma bit_unpar_fold:
  "bit (fold (\<lambda>c r. r OR push_bit 26 (NOT (inv_par 0 c))) cs r) 31 \<longleftrightarrow>
     bit r 31 \<or> (\<exists>c\<in>set cs. \<not> odd_parity c)"
  by (induction cs arbitrary: r) (auto simp: bit_simps inv_par_bit_5)

subsection \<open>Hamming coded bytes of a transmitter\<close>

definition ham_byte :: "u32 \<Rightarrow> u8" where
  "ham_byte d = ucast (vbi_ham8 d)"

lemma unham_byte [simp]: "d < 16 \<Longrightarrow> vbi_hamm8_inv ! unat (ham_byte d) = uint d"
  using ham8.dec_enc [of d] by (simp add: ham_byte_def)

lemma ham_nibble [simp]: "vbi_hamm8_inv ! unat (ham_byte (x AND 15)) = take_bit 4 (uint x)"
proof -
  have "x AND 15 = take_bit 4 x" by (simp add: take_bit_eq_mask mask_eq_exp_minus_1)
  moreover have "take_bit 4 x < 16"
    using take_bit_nat_less_exp [of 4 "unat x"] by (simp add: word_less_nat_alt unsigned_take_bit_eq del: take_bit_nat_less_exp)
  ultimately show ?thesis by (simp add: unsigned_take_bit_eq)
qed

subsection \<open>Properties\<close>

text \<open>C2: For every nibble the Hamming 8/4 code word decodes to the nibble, with no bit error and with any
  single bit error; any double bit error is reported as a negative value.\<close>

theorem ham8_sec_ded:
  assumes "d < 16"
  shows "vbi_unham8 (vbi_ham8 d) = uint d
    \<and> (\<forall>i<8. vbi_unham8 (ucast (flip8 i (ucast (vbi_ham8 d)))) = uint d)
    \<and> (\<forall>i<8. \<forall>j<i. vbi_unham8 (ucast (flip8 i (flip8 j (ucast (vbi_ham8 d))))) < 0)"
  using ham8.dec_enc [OF assms] ham8.dec_flip [OF assms] ham8.dec_flip_flip [OF assms]
  by (simp add: vbi_unham8_def)

theorem ham8_sec_ded_witness:
  "vbi_unham8 (vbi_ham8 5) = 5
    \<and> vbi_unham8 (ucast (flip8 3 (ucast (vbi_ham8 5)))) = 5
    \<and> vbi_unham8 (ucast (flip8 6 (flip8 3 (ucast (vbi_ham8 5))))) < 0"
  using ham8_sec_ded [of 5] by simp

text \<open>C13: \<^verbatim>\<open>vbi_par\<close> followed by \<^verbatim>\<open>vbi_unpar\<close> on the same array clears bit 7 of the first \<open>n\<close> bytes, leaves
  the others alone and reports no parity error; and \<^verbatim>\<open>vbi_unpar\<close> reports an error (a negative value)
  exactly if one of the \<open>n\<close> bytes has an even number of bits set.\<close>

theorem vbi_par_unpar:
  assumes "n \<le> length p"
  shows "(\<exists>r. vbi_unpar p n = Some (r, map (\<lambda>c. c AND 127) (take n p) @ drop n p)
      \<and> (r < 0 \<longleftrightarrow> (\<exists>c\<in>set (take n p). \<not> odd_parity c)))
    \<and> (\<exists>r. vbi_par p n \<bind> (\<lambda>q. vbi_unpar q n)
      = Some (r, map (\<lambda>c. c AND 127) (take n p) @ drop n p) \<and> 0 \<le> r)"
  using assms
  by (simp add: vbi_unpar_def vbi_unpar_loop_spec vbi_par_spec sint_neg_iff_bit_31 bit_unpar_fold
      comp_def sint_nonneg_iff_bit_31)

theorem vbi_par_unpar_witness:
  "(\<exists>r. vbi_unpar [0x41, 0x80, 0xFF] 2 = Some (r, [0x41, 0x00, 0xFF])
      \<and> (r < 0 \<longleftrightarrow> (\<exists>c\<in>{0x41, 0x80}. \<not> odd_parity c)))
    \<and> (\<exists>r. vbi_par [0x41, 0x80, 0xFF] 2 \<bind> (\<lambda>q. vbi_unpar q 2) = Some (r, [0x41, 0x00, 0xFF]) \<and> 0 \<le> r)"
  using vbi_par_unpar [of 2 "[0x41, 0x80, 0xFF]"] by (simp add: numeral_2_eq_2)

end
