(* ===== verification/Hamm24.thy ===== *)
theory Hamm24
  imports Hamm
begin

text \<open>The Hamming 24/18 code: its syndrome tables are sums of columns, so encoding and decoding are linear and the
  locale \<open>sec_ded\<close> can be interpreted by tests of unit vectors and pairs of bits.\<close>

unbundle bit_operations_syntax

subsection \<open>The tables as sums of columns\<close>

lemma inv_par_columns:
  "vbi_hamm24_inv_par ! 1 = column_table [0x30, 0x2F, 0x2E, 0x2D, 0x2C, 0x2B, 0x2A, 0x29] 0"
  "vbi_hamm24_inv_par ! 2 = column_table [0x20, 0x37, 0x36, 0x35, 0x34, 0x33, 0x32, 0x31] 0x3F"
  by code_simp+

lemma inv_d1_d4_columns: "vbi_hamm24_inv_d1_d4 = column_table [0, 8, 4, 2, 0, 1] 0"
  by code_simp

lemma fwd_columns:
  "vbi_hamm24_fwd_0 = column_table [0x88, 0x83, 0x82, 0x81, 0x4B, 0x2A, 0x19, 0x07] 0x8B"
  "vbi_hamm24_fwd_1 = column_table [0x09, 0x08, 0x03, 0x02, 0x01, 0x8B, 0x8A, 0x89] 0"
  "vbi_hamm24_fwd_2 = column_table [0x0B, 0x0A] 0"
  by code_simp+

lemma unat_and_255: "unat (x AND 0xFF) = unat (ucast x :: u8)" for x :: u32
proof -
  have "x AND 0xFF = take_bit 8 x" by (simp add: take_bit_eq_mask mask_eq_exp_minus_1)
  then show ?thesis by (simp only: unsigned_take_bit_eq unsigned_ucast_eq) simp
qed

lemma unat_and_3: "unat (x AND 0x03) = unat (ucast x :: 2 word)" for x :: u32
proof -
  have "x AND 0x03 = take_bit 2 x" by (simp add: take_bit_eq_mask mask_eq_exp_minus_1)
  then show ?thesis by (simp only: unsigned_take_bit_eq unsigned_ucast_eq) simp
qed

lemma unat_drop_2: "unat (drop_bit 2 x) = unat (ucast (drop_bit 2 x) :: 6 word)" for x :: u8
proof -
  have "take_bit 6 (drop_bit 2 x) = drop_bit 2 x"
    by (rule bit_word_eqI) (auto simp: bit_simps dest: bit_imp_le_length)
  then show ?thesis by (simp add: unsigned_ucast_eq flip: unsigned_take_bit_eq)
qed

lemma affine_inv_par_0 [affine_intros]: "affine f \<Longrightarrow> affine (\<lambda>x. inv_par 0 (f x))"
  unfolding inv_par_def by (rule affine_ucast, rule affine_table [OF _ inv_par_0_columns]) simp_all

lemma affine_inv_par_1 [affine_intros]: "affine f \<Longrightarrow> affine (\<lambda>x. inv_par 1 (f x))"
  unfolding inv_par_def by (rule affine_ucast, rule affine_table [OF _ inv_par_columns(1)]) simp_all

lemma affine_inv_par_2 [affine_intros]: "affine f \<Longrightarrow> affine (\<lambda>x. inv_par 2 (f x))"
  unfolding inv_par_def by (rule affine_ucast, rule affine_table [OF _ inv_par_columns(2)]) simp_all

lemma affine_inv_d1_d4 [affine_intros]:
  "affine f \<Longrightarrow> affine (\<lambda>x. vbi_hamm24_inv_d1_d4 ! unat (drop_bit 2 (f x :: u8)))"
  unfolding unat_drop_2
  by (rule affine_table [OF _ inv_d1_d4_columns]) (auto intro!: affine_intros)

lemma affine_fwd [affine_intros]:
  "affine f \<Longrightarrow> affine (\<lambda>x. vbi_hamm24_fwd_0 ! unat (f x AND 0xFF :: u32))"
  "affine f \<Longrightarrow> affine (\<lambda>x. vbi_hamm24_fwd_1 ! unat (f x AND 0xFF :: u32))"
  "affine f \<Longrightarrow> affine (\<lambda>x. vbi_hamm24_fwd_2 ! unat (f x AND 0x03 :: u32))"
  unfolding unat_and_255 unat_and_3
  by (rule affine_table [OF affine_ucast fwd_columns(1)], assumption, simp)
    (rule affine_table [OF affine_ucast fwd_columns(2)], assumption, simp,
     rule affine_table [OF affine_ucast fwd_columns(3)], assumption, simp)

subsection \<open>Encoder and decoder as affine maps\<close>

definition enc_byte_0 :: "u32 \<Rightarrow> u8" where
  "enc_byte_0 c = vbi_hamm24_fwd_0 ! unat (drop_bit 0 c AND 0xFF)
     XOR vbi_hamm24_fwd_1 ! unat (drop_bit 8 c AND 0xFF)
     XOR vbi_hamm24_fwd_2 ! unat (drop_bit 16 c AND 0x03)"

definition enc_byte_1 :: "u32 \<Rightarrow> u8" where
  "enc_byte_1 c = ucast ((drop_bit 4 c AND 0x7F)
     XOR 0x80 XOR (push_bit 2 (inv_par 0 (ucast (drop_bit 11 c AND 0x7F))) AND 0x80))"

definition enc_byte_2 :: "u32 \<Rightarrow> u8" where
  "enc_byte_2 c = ucast ((drop_bit 11 c AND 0x7F)
     XOR (push_bit 2 (inv_par 0 (enc_byte_0 c) XOR inv_par 0 (ucast (drop_bit 4 c AND 0x7F))) AND 0x80))"

lemma or_and_disjoint: "(a AND 0x7F) OR (b AND 0x80) = (a AND 0x7F) XOR (b AND 0x80)" for a b :: u32
  by (simp add: disjunctive_xor_eq_or and_disjoint_masks)

lemma and_not_80: "0x80 AND NOT b = 0x80 XOR (b AND 0x80)" for b :: u32
  by (rule bit_word_eqI) (auto simp: bit_simps)

lemma vbi_ham24p_eq:
  "vbi_ham24p p c = p[0 := enc_byte_0 c, 1 := enc_byte_1 c, 2 := enc_byte_2 c]"
proof -
  have "(a AND 0x7F) OR (0x80 AND NOT b) = (a AND 0x7F) XOR 0x80 XOR (b AND 0x80)" for a b :: u32
    using or_and_disjoint [of a "NOT b"] and_not_80 [of b] by (simp add: ac_simps)
  then show ?thesis
    unfolding vbi_ham24p_def Let_def enc_byte_0_def enc_byte_1_def enc_byte_2_def
    by (simp only: or_and_disjoint and.commute [of "0x80"] xor.assoc)
qed

definition dec_data :: "u8 \<Rightarrow> u8 \<Rightarrow> u8 \<Rightarrow> u32" where
  "dec_data b0 b1 b2 = ucast (vbi_hamm24_inv_d1_d4 ! unat (drop_bit 2 b0))
     XOR push_bit 4 (ucast b1 AND 0x7F) XOR push_bit 11 (ucast b2 AND 0x7F)"

definition dec_synd :: "u8 \<Rightarrow> u8 \<Rightarrow> u8 \<Rightarrow> u32" where
  "dec_synd b0 b1 b2 = inv_par 0 b0 XOR inv_par 1 b1 XOR inv_par 2 b2"

lemma affine_eq_word:
  fixes f g :: "'a::len word \<Rightarrow> 'b::len word"
  assumes "affine f" "affine g" "f 0 = g 0" "list_all (\<lambda>k. f (2 ^ k) = g (2 ^ k)) [0..<LENGTH('a)]"
  shows "f x = g x"
  using assms(1,2,3)
proof (rule affine_eq)
  show "\<forall>k<LENGTH('a). f (2 ^ k) = g (2 ^ k)" using assms(4) by (simp add: list_all_iff)
  show "take_bit LENGTH('a) x = x" by (rule take_bit_word_eq_self) simp
qed

lemma inv_d1_d4_lt_16:
  "ucast (vbi_hamm24_inv_d1_d4 ! unat (drop_bit 2 b)) AND 0xF
     = (ucast (vbi_hamm24_inv_d1_d4 ! unat (drop_bit 2 b)) :: u32)" for b :: u8
  by (rule affine_eq_word [of "\<lambda>b. ucast (vbi_hamm24_inv_d1_d4 ! unat (drop_bit 2 b)) AND 0xF"])
    ((intro affine_intros)+, code_simp, code_simp)

lemma vbi_unham24p_eq:
  "vbi_unham24p p = sint (dec_data (p ! 0) (p ! 1) (p ! 2)
     XOR vbi_hamm24_inv_err ! unat (dec_synd (p ! 0) (p ! 1) (p ! 2)))"
proof -
  have "a AND 0xF OR push_bit 4 (b AND 0x7F) OR push_bit 11 (c AND 0x7F)
      = (a AND 0xF) XOR push_bit 4 (b AND 0x7F) XOR push_bit 11 (c AND 0x7F)" for a b c :: u32
  proof -
    have p: "push_bit 4 (b AND 0x7F) = push_bit 4 b AND 0x7F0"
      "push_bit 11 (c AND 0x7F) = push_bit 11 c AND 0x3F800" by (simp_all add: push_bit_and)
    have "(a AND 0xF) AND (push_bit 4 (b AND 0x7F) OR push_bit 11 (c AND 0x7F)) = 0"
      unfolding bit.conj_disj_distrib p by (simp add: and_disjoint_masks)
    moreover have "push_bit 4 (b AND 0x7F) AND push_bit 11 (c AND 0x7F) = 0"
      unfolding p by (rule and_disjoint_masks) simp
    ultimately show ?thesis by (simp only: disjunctive_xor_eq_or)
  qed
  from this [of "ucast (vbi_hamm24_inv_d1_d4 ! unat (drop_bit 2 (p ! 0)))" "ucast (p ! 1)" "ucast (p ! 2)"]
  show ?thesis
    unfolding vbi_unham24p_def Let_def dec_data_def dec_synd_def inv_d1_d4_lt_16 by simp
qed

lemma affine_enc_byte [affine_intros]:
  "affine f \<Longrightarrow> affine (\<lambda>x. enc_byte_0 (f x))"
  "affine f \<Longrightarrow> affine (\<lambda>x. enc_byte_1 (f x))"
  "affine f \<Longrightarrow> affine (\<lambda>x. enc_byte_2 (f x))"
  unfolding enc_byte_0_def enc_byte_1_def enc_byte_2_def by (intro affine_intros; assumption)+

lemma affine_dec [affine_intros]:
  "affine f \<Longrightarrow> affine g \<Longrightarrow> affine h \<Longrightarrow> affine (\<lambda>x. dec_data (f x) (g x) (h x))"
  "affine f \<Longrightarrow> affine g \<Longrightarrow> affine h \<Longrightarrow> affine (\<lambda>x. dec_synd (f x) (g x) (h x))"
  unfolding dec_data_def dec_synd_def by (intro affine_intros; assumption)+

lemma dec_data_enc:
  assumes "take_bit 18 c = c"
  shows "dec_data (enc_byte_0 c) (enc_byte_1 c) (enc_byte_2 c) = c"
proof (rule affine_eq [where g = "\<lambda>c. c" and n = 18])
  have "list_all (\<lambda>k. dec_data (enc_byte_0 (2 ^ k)) (enc_byte_1 (2 ^ k)) (enc_byte_2 (2 ^ k)) = 2 ^ k) [0..<18]"
    by code_simp
  then show "\<forall>k<18. dec_data (enc_byte_0 (2 ^ k)) (enc_byte_1 (2 ^ k)) (enc_byte_2 (2 ^ k)) = 2 ^ k"
    by (simp add: list_all_iff)
  show "dec_data (enc_byte_0 0) (enc_byte_1 0) (enc_byte_2 0) = 0" by code_simp
qed (intro affine_intros assms)+

lemma dec_synd_enc:
  assumes "take_bit 18 c = c"
  shows "dec_synd (enc_byte_0 c) (enc_byte_1 c) (enc_byte_2 c) = 0"
proof (rule affine_eq [where f = "\<lambda>c. dec_synd (enc_byte_0 c) (enc_byte_1 c) (enc_byte_2 c)"
      and g = "\<lambda>c. 0" and n = 18])
  have "list_all (\<lambda>k. dec_synd (enc_byte_0 (2 ^ k)) (enc_byte_1 (2 ^ k)) (enc_byte_2 (2 ^ k)) = 0) [0..<18]"
    by code_simp
  then show "\<forall>k<18. dec_synd (enc_byte_0 (2 ^ k)) (enc_byte_1 (2 ^ k)) (enc_byte_2 (2 ^ k)) = 0"
    by (simp add: list_all_iff)
  show "dec_synd (enc_byte_0 0) (enc_byte_1 0) (enc_byte_2 0) = 0" by code_simp
qed (intro affine_intros assms)+

subsection \<open>Transmission errors\<close>

definition flip24 :: "nat \<Rightarrow> u8 list \<Rightarrow> u8 list" where
  "flip24 j p = p[j div 8 := flip8 (j mod 8) (p ! (j div 8))]"

definition err_byte :: "nat \<Rightarrow> nat \<Rightarrow> u8" where
  "err_byte k j = (if j div 8 = k then push_bit (j mod 8) 1 else 0)"

lemma dec_linear:
  "dec_data (b0 XOR e0) (b1 XOR e1) (b2 XOR e2) = dec_data b0 b1 b2 XOR dec_data e0 e1 e2"
  "dec_synd (b0 XOR e0) (b1 XOR e1) (b2 XOR e2) = dec_synd b0 b1 b2 XOR dec_synd e0 e1 e2 XOR 0x3F"
proof -
  note aff = affine_inv_par_0 [OF affine_id] affine_inv_par_1 [OF affine_id] affine_inv_par_2 [OF affine_id]
    affine_inv_d1_d4 [OF affine_id]
  have z: "inv_par 0 0 = 0" "inv_par 1 0 = 0" "inv_par 2 0 = 0x3F"
    "vbi_hamm24_inv_d1_d4 ! unat (drop_bit 2 (0 :: u8)) = 0" by code_simp+
  show "dec_data (b0 XOR e0) (b1 XOR e1) (b2 XOR e2) = dec_data b0 b1 b2 XOR dec_data e0 e1 e2"
    using aff(4) unfolding dec_data_def affine_def z
    by (simp add: unsigned_xor_eq bit.conj_xor_distrib2 push_bit_xor ac_simps)
  show "dec_synd (b0 XOR e0) (b1 XOR e1) (b2 XOR e2) = dec_synd b0 b1 b2 XOR dec_synd e0 e1 e2 XOR 0x3F"
    using aff(1-3) unfolding dec_synd_def affine_def z by (simp add: ac_simps)
qed

definition err_effect :: "u8 \<Rightarrow> u8 \<Rightarrow> u8 \<Rightarrow> u32" where
  "err_effect e0 e1 e2 = dec_data e0 e1 e2 XOR vbi_hamm24_inv_err ! unat (dec_synd e0 e1 e2 XOR 0x3F)"

lemma unham24p_enc_error:
  assumes "take_bit 18 c = c"
  shows "vbi_unham24p [enc_byte_0 c XOR e0, enc_byte_1 c XOR e1, enc_byte_2 c XOR e2]
    = sint (c XOR err_effect e0 e1 e2)"
  using dec_data_enc [OF assms] dec_synd_enc [OF assms]
  by (simp add: vbi_unham24p_eq dec_linear err_effect_def xor.assoc numeral_2_eq_2)

lemma err_effect_zero: "err_effect 0 0 0 = 0"
  by code_simp

lemma err_effect_single: "list_all (\<lambda>i. err_effect (err_byte 0 i) (err_byte 1 i) (err_byte 2 i) = 0) [0..<24]"
  by code_simp

lemma err_effect_double:
  "list_all (\<lambda>i. list_all (\<lambda>j. bit (err_effect (err_byte 0 i XOR err_byte 0 j)
     (err_byte 1 i XOR err_byte 1 j) (err_byte 2 i XOR err_byte 2 j)) 31) [0..<i]) [0..<24]"
  by code_simp


lemma length_3: "length p = 3 \<Longrightarrow> p = [p ! 0, p ! 1, p ! 2]"
  by (auto simp: numeral_3_eq_3 length_Suc_conv numeral_2_eq_2)

lemma vbi_ham24p_3: "vbi_ham24p [x, y, z] c = [enc_byte_0 c, enc_byte_1 c, enc_byte_2 c]"
  by (simp add: vbi_ham24p_eq numeral_2_eq_2)

lemma flip24_bytes:
  "i < 24 \<Longrightarrow> flip24 i [b0, b1, b2] =
     [b0 XOR err_byte 0 i, b1 XOR err_byte 1 i, b2 XOR err_byte 2 i]"
proof -
  assume "i < 24"
  then consider "i div 8 = 0" | "i div 8 = 1" | "i div 8 = 2" by linarith
  then show ?thesis
    by cases (simp_all add: flip24_def flip8_def err_byte_def numeral_2_eq_2)
qed

interpretation ham24: sec_ded
  "vbi_ham24p [0, 0, 0]" vbi_unham24p flip24 24 "\<lambda>c. c < 2 ^ 18" uint
proof unfold_locales
  fix c :: u32 and i j :: nat
  assume lt: "c < 2 ^ 18"
  then have u: "unat c < 2 ^ 18" by (simp add: word_less_nat_alt)
  then have c: "take_bit 18 c = c" by (rule take_bit_eq_self_unat)
  have "uint c < 2 ^ 18" using lt by (simp add: word_less_def)
  then have "take_bit 31 (uint c) = uint c" by (intro take_bit_int_eq_self) simp_all
  moreover have "\<not> bit (take_bit 18 c) 31" by (simp only: bit_take_bit_iff) simp
  then have b: "\<not> bit c 31" unfolding c .
  ultimately have s: "sint c = uint c"
    by (simp add: sint_uint signed_take_bit_eq_if_positive bit_unsigned_iff)
  show "vbi_unham24p (vbi_ham24p [0, 0, 0] c) = uint c"
    using unham24p_enc_error [OF c, of 0 0 0] s by (simp add: vbi_ham24p_3 err_effect_zero)
  show "vbi_unham24p (flip24 i (vbi_ham24p [0, 0, 0] c)) = uint c" if "i < 24"
    using unham24p_enc_error [OF c] s err_effect_single that
    by (simp add: vbi_ham24p_3 flip24_bytes list_all_iff)
  show "vbi_unham24p (flip24 i (flip24 j (vbi_ham24p [0, 0, 0] c))) < 0" if "i < 24" "j < i"
    using unham24p_enc_error [OF c] err_effect_double that b
    by (simp add: vbi_ham24p_3 flip24_bytes list_all_iff xor.assoc sint_neg_iff_bit_31 bit_xor_iff
        xor.commute [of "err_byte _ j"])
qed (auto intro: unsigned_word_eqI)

text \<open>C1: For every 18 bit word the Hamming 24/18 code word decodes to the word, with no bit error and with
  any single bit error of the 24; any double bit error is reported as a negative value.\<close>

theorem ham24_sec_ded:
  assumes "c < 2 ^ 18" "length p = 3"
  shows "vbi_unham24p (vbi_ham24p p c) = uint c
    \<and> (\<forall>i<24. vbi_unham24p (flip24 i (vbi_ham24p p c)) = uint c)
    \<and> (\<forall>i<24. \<forall>j<i. vbi_unham24p (flip24 i (flip24 j (vbi_ham24p p c))) < 0)"
proof -
  have "vbi_ham24p p c = vbi_ham24p [0, 0, 0] c"
    using length_3 [OF assms(2)] vbi_ham24p_3 by metis
  then show ?thesis
    using ham24.dec_enc [OF assms(1)] ham24.dec_flip [OF assms(1)] ham24.dec_flip_flip [OF assms(1)]
    by simp
qed

theorem ham24_sec_ded_witness:
  "vbi_unham24p (vbi_ham24p [0, 0, 0] 0x2BEEF) = 0x2BEEF
    \<and> vbi_unham24p (flip24 17 (vbi_ham24p [0, 0, 0] 0x2BEEF)) = 0x2BEEF
    \<and> vbi_unham24p (flip24 17 (flip24 2 (vbi_ham24p [0, 0, 0] 0x2BEEF))) < 0"
  using ham24_sec_ded [of "0x2BEEF" "[0, 0, 0]"] by simp

end
