(* ===== verification/Hammgen.thy ===== *)
theory Hammgen
  imports Hamm
begin

text \<open>The generator of the tables, hammgen.c: the functions that compute the entries, and that the tables of
  hamm-tables.h are what they compute.\<close>

unbundle bit_operations_syntax

subsection \<open>The table generator hammgen.c\<close>

definition bit_at :: "u32 \<Rightarrow> nat \<Rightarrow> u32" where
  "bit_at i n = drop_bit n i AND 1"

definition u32s :: "nat \<Rightarrow> u32 list" where
  "u32s n = map word_of_nat [0..<n]"

definition generate_bit_reverse :: "u8 list" where
  "generate_bit_reverse = map (\<lambda>i. ucast (
     drop_bit 7 (i AND 0x80) + drop_bit 5 (i AND 0x40) + drop_bit 3 (i AND 0x20)
     + drop_bit 1 (i AND 0x10) + push_bit 1 (i AND 0x08) + push_bit 3 (i AND 0x04)
     + push_bit 5 (i AND 0x02) + push_bit 7 (i AND 0x01))) (u32s 256)"

definition gen_hamm8 :: "u32 \<Rightarrow> u32" where
  "gen_hamm8 i =
     (let D1 = bit_at i 0; D2 = bit_at i 1; D3 = bit_at i 2; D4 = bit_at i 3;
          P1 = 1 XOR D1 XOR D3 XOR D4;
          P2 = 1 XOR D1 XOR D2 XOR D4;
          P3 = 1 XOR D1 XOR D2 XOR D3;
          P4 = 1 XOR P1 XOR D1 XOR P2 XOR D2 XOR P3 XOR D3 XOR D4
      in P1 + push_bit 1 D1 + push_bit 2 P2 + push_bit 3 D2
         + push_bit 4 P3 + push_bit 5 D3 + push_bit 6 P4 + push_bit 7 D4)"

definition generate_hamm8_tables :: "u8 list \<times> int list" where
  "generate_hamm8_tables = fold (\<lambda>i (fwd, inv).
     let c = gen_hamm8 i;
         fwd = fwd[unat i := ucast c];
         inv = inv[unat c := uint i];
         inv = fold (\<lambda>j inv. inv[unat (c XOR push_bit j 1) := uint i]) [0..<8] inv
     in (fwd, inv)) (u32s 16) (replicate 16 0, replicate 256 (- 1))"

definition gen_fwd_0 :: "u32 \<Rightarrow> u32" where
  "gen_fwd_0 i =
      (let D1 = bit_at i 0; D2 = bit_at i 1; D3 = bit_at i 2; D4 = bit_at i 3;
           D5 = bit_at i 4; D6 = bit_at i 5; D7 = bit_at i 6; D8 = bit_at i 7;
           P1 = 1 XOR D1 XOR D2 XOR D4 XOR D5 XOR D7;
           P2 = 1 XOR D1 XOR D3 XOR D4 XOR D6 XOR D7;
           P3 = 1 XOR D2 XOR D3 XOR D4 XOR D8;
           P4 = 1 XOR D5 XOR D6 XOR D7 XOR D8
       in P1 + push_bit 1 P2 + push_bit 2 D1 + push_bit 3 P3 + push_bit 4 D2
          + push_bit 5 D3 + push_bit 6 D4 + push_bit 7 P4)"

definition gen_fwd_1 :: "u32 \<Rightarrow> u32" where
  "gen_fwd_1 i =
      (let D9 = bit_at i 0; D10 = bit_at i 1; D11 = bit_at i 2; D12 = bit_at i 3;
           D13 = bit_at i 4; D14 = bit_at i 5; D15 = bit_at i 6; D16 = bit_at i 7;
           P1 = D9 XOR D11 XOR D12 XOR D14 XOR D16;
           P2 = D10 XOR D11 XOR D13 XOR D14;
           P3 = D9 XOR D10 XOR D11 XOR D15 XOR D16;
           P4 = D9 XOR D10 XOR D11
       in P1 + push_bit 1 P2 + push_bit 3 P3 + push_bit 7 P4)"

definition gen_fwd_2 :: "u32 \<Rightarrow> u32" where
  "gen_fwd_2 i =
      (let D17 = bit_at i 0; D18 = bit_at i 1;
           P1 = D18; P2 = D17 XOR D18; P3 = D17 XOR D18; P4 = 0
       in P1 + push_bit 1 P2 + push_bit 3 P3 + push_bit 7 P4)"

definition generate_hamm24_fwd_tables :: "u8 list \<times> u8 list \<times> u8 list" where
  "generate_hamm24_fwd_tables =
    (map (\<lambda>i. ucast (gen_fwd_0 i)) (u32s 256),
     map (\<lambda>i. ucast (gen_fwd_1 i)) (u32s 256),
     map (\<lambda>i. ucast (gen_fwd_2 i)) (u32s 4))"

definition pack_ABCDEF :: "u32 \<Rightarrow> u32 \<Rightarrow> u32 \<Rightarrow> u32 \<Rightarrow> u32 \<Rightarrow> u32 \<Rightarrow> u32" where
  "pack_ABCDEF A B C D E F =
     A + push_bit 1 B + push_bit 2 C + push_bit 3 D + push_bit 4 E + push_bit 5 F"

definition gen_inv_par_0 :: "u32 \<Rightarrow> u32" where
  "gen_inv_par_0 i =
     (let P1 = bit_at i 0; P2 = bit_at i 1; D1 = bit_at i 2; P3 = bit_at i 3;
          D2 = bit_at i 4; D3 = bit_at i 5; D4 = bit_at i 6; P4 = bit_at i 7
      in pack_ABCDEF (P1 XOR D1 XOR D2 XOR D4) (P2 XOR D1 XOR D3 XOR D4)
           (P3 XOR D2 XOR D3 XOR D4) P4 0
           (P1 XOR P2 XOR D1 XOR P3 XOR D2 XOR D3 XOR D4 XOR P4))"

definition gen_inv_par_1 :: "u32 \<Rightarrow> u32" where
  "gen_inv_par_1 i =
     (let D5 = bit_at i 0; D6 = bit_at i 1; D7 = bit_at i 2; D8 = bit_at i 3;
          D9 = bit_at i 4; D10 = bit_at i 5; D11 = bit_at i 6; P5 = bit_at i 7
      in pack_ABCDEF (D5 XOR D7 XOR D9 XOR D11) (D6 XOR D7 XOR D10 XOR D11)
           (D8 XOR D9 XOR D10 XOR D11) (D5 XOR D6 XOR D7 XOR D8 XOR D9 XOR D10 XOR D11) P5
           (D5 XOR D6 XOR D7 XOR D8 XOR D9 XOR D10 XOR D11 XOR P5))"

definition gen_inv_par_2 :: "u32 \<Rightarrow> u32" where
  "gen_inv_par_2 i =
     (let D12 = bit_at i 0; D13 = bit_at i 1; D14 = bit_at i 2; D15 = bit_at i 3;
          D16 = bit_at i 4; D17 = bit_at i 5; D18 = bit_at i 6; P6 = bit_at i 7
      in pack_ABCDEF (D12 XOR D14 XOR D16 XOR D18) (D13 XOR D14 XOR D17 XOR D18)
           (D15 XOR D16 XOR D17 XOR D18) 0 (D12 XOR D13 XOR D14 XOR D15 XOR D16 XOR D17 XOR D18)
           (D12 XOR D13 XOR D14 XOR D15 XOR D16 XOR D17 XOR D18 XOR P6) XOR 0x3F)"

definition gen_inv_d1_d4 :: "u8 list" where
  "gen_inv_d1_d4 = fold (\<lambda>i t. t[unat (drop_bit 2 i) :=
     ucast (bit_at i 2 + push_bit 1 (bit_at i 4) + push_bit 2 (bit_at i 5) + push_bit 3 (bit_at i 6))])
     (u32s 256) (replicate 64 0)"

definition gen_inv_err :: "u32 list" where
  "gen_inv_err = fold (\<lambda>i t.
     let ii = i XOR 0x3F in
     t[unat ii :=
       if 0 = ii then 0
       else if 0 = (ii AND 0x1F) \<and> 0x20 = (ii AND 0x20) then 0
       else if 0x20 = (i AND 0x20) then push_bit 31 1
       else let Byte_0_3 = push_bit (unat ((ii AND 0x1F) - 1)) 1 in
         if Byte_0_3 \<ge> push_bit 23 1 then push_bit 31 1
         else drop_bit (3 - 1) (Byte_0_3 AND 0x000004) + drop_bit (5 - 2) (Byte_0_3 AND 0x000070)
            + drop_bit (9 - 5) (Byte_0_3 AND 0x007F00) + drop_bit (17 - 12) (Byte_0_3 AND 0x7F0000)])
     (u32s 64) (replicate 64 0)"

definition generate_hamm24_inv_tables :: "u8 list list \<times> u8 list \<times> u32 list" where
  "generate_hamm24_inv_tables =
    ([map (\<lambda>i. ucast (gen_inv_par_0 i)) (u32s 256),
      map (\<lambda>i. ucast (gen_inv_par_1 i)) (u32s 256),
      map (\<lambda>i. ucast (gen_inv_par_2 i)) (u32s 256)],
     gen_inv_d1_d4, gen_inv_err)"


subsection \<open>The tables are what the generator computes\<close>

lemma affine_bit_at [affine_intros]: "affine_lt 1 (\<lambda>x. bit_at x n)"
  unfolding bit_at_def by (intro affine_intros)

lemma affine_gen_fwd:
  "affine gen_fwd_0" "affine gen_fwd_1"
proof -
  have "affine_lt (Suc 7) gen_fwd_0"
    unfolding gen_fwd_0_def [abs_def] Let_def
    by (rule affine_intros affine_lt_add_push_bit | simp)+
  then show "affine gen_fwd_0" by (rule affine_ltD)
  have "affine_lt (Suc 7) gen_fwd_1"
    unfolding gen_fwd_1_def [abs_def] Let_def
    by (rule affine_intros affine_lt_add_push_bit | simp)+
  then show "affine gen_fwd_1" by (rule affine_ltD)
qed

lemma affine_gen_inv_par:
  "affine gen_inv_par_0" "affine gen_inv_par_1" "affine gen_inv_par_2"
proof -
  have "affine_lt (Suc 5) gen_inv_par_0"
    unfolding gen_inv_par_0_def [abs_def] pack_ABCDEF_def Let_def
    by (rule affine_intros affine_lt_add_push_bit | simp)+
  then show "affine gen_inv_par_0" by (rule affine_ltD)
  have "affine_lt (Suc 5) gen_inv_par_1"
    unfolding gen_inv_par_1_def [abs_def] pack_ABCDEF_def Let_def
    by (rule affine_intros affine_lt_add_push_bit | simp)+
  then show "affine gen_inv_par_1" by (rule affine_ltD)
  have "affine_lt (Suc 5) (\<lambda>x. gen_inv_par_2 x XOR 0x3F)"
    unfolding gen_inv_par_2_def [abs_def] pack_ABCDEF_def Let_def
    by (simp only: xor.assoc xor_self_eq xor.right_neutral)
      (rule affine_intros affine_lt_add_push_bit | simp)+
  from affine_xor [OF affine_ltD [OF this] affine_const [of "0x3F"]]
  show "affine gen_inv_par_2" by (simp add: xor.assoc)
qed

lemma map_affine_u32s:
  fixes f :: "u32 \<Rightarrow> u32"
  assumes "affine f" "n \<le> 32"
  shows "map (\<lambda>i. ucast (f i)) (u32s (2 ^ n)) =
    column_table (rev (map (\<lambda>k. ucast (f (2 ^ k)) XOR ucast (f 0)) [0..<n])) (ucast (f 0) :: u8)"
  using map_affine_eq_column_table [of "\<lambda>x. ucast (f x) :: u8" n] assms
  by (simp add: u32s_def affine_ucast comp_def)

lemmas map_affine_256 = map_affine_u32s [where n = 8, simplified]

lemma bit_reverse_generated: "vbi_bit_reverse = generate_bit_reverse"
  by code_simp

lemma hamm8_generated: "(vbi_hamm8_fwd, vbi_hamm8_inv) = generate_hamm8_tables"
  by code_simp

lemma hamm24_fwd_generated:
  "(vbi_hamm24_fwd_0, vbi_hamm24_fwd_1, vbi_hamm24_fwd_2) = generate_hamm24_fwd_tables"
proof -
  have "vbi_hamm24_fwd_0 = map (\<lambda>i. ucast (gen_fwd_0 i)) (u32s 256)"
    unfolding map_affine_256 [OF affine_gen_fwd(1)] by code_simp
  moreover have "vbi_hamm24_fwd_1 = map (\<lambda>i. ucast (gen_fwd_1 i)) (u32s 256)"
    unfolding map_affine_256 [OF affine_gen_fwd(2)] by code_simp
  moreover have "vbi_hamm24_fwd_2 = map (\<lambda>i. ucast (gen_fwd_2 i)) (u32s 4)"
    by code_simp
  ultimately show ?thesis by (simp add: generate_hamm24_fwd_tables_def)
qed

lemma inv_d1_d4_generated: "vbi_hamm24_inv_d1_d4 = gen_inv_d1_d4"
  by code_simp

lemma inv_err_generated: "vbi_hamm24_inv_err = gen_inv_err"
  by code_simp

lemma hamm24_inv_generated:
  "(vbi_hamm24_inv_par, vbi_hamm24_inv_d1_d4, vbi_hamm24_inv_err) = generate_hamm24_inv_tables"
proof -
  have "vbi_hamm24_inv_par = [map (\<lambda>i. ucast (gen_inv_par_0 i)) (u32s 256),
      map (\<lambda>i. ucast (gen_inv_par_1 i)) (u32s 256), map (\<lambda>i. ucast (gen_inv_par_2 i)) (u32s 256)]"
    unfolding map_affine_256 [OF affine_gen_inv_par(1)] map_affine_256 [OF affine_gen_inv_par(2)]
      map_affine_256 [OF affine_gen_inv_par(3)]
    by code_simp
  then show ?thesis
    by (simp add: generate_hamm24_inv_tables_def inv_d1_d4_generated inv_err_generated)
qed

definition generate_tables ::
  "u8 list \<times> (u8 list \<times> int list) \<times> (u8 list \<times> u8 list \<times> u8 list) \<times> (u8 list list \<times> u8 list \<times> u32 list)" where
  "generate_tables = (generate_bit_reverse, generate_hamm8_tables, generate_hamm24_fwd_tables,
     generate_hamm24_inv_tables)"

text \<open>C5: The constant tables of hamm-tables.h, which the library is compiled with, are exactly the tables
  that the generator hammgen.c computes from the code definitions.\<close>

theorem tables_generated:
  "generate_tables = (vbi_bit_reverse, (vbi_hamm8_fwd, vbi_hamm8_inv),
     (vbi_hamm24_fwd_0, vbi_hamm24_fwd_1, vbi_hamm24_fwd_2),
     (vbi_hamm24_inv_par, vbi_hamm24_inv_d1_d4, vbi_hamm24_inv_err))"
  by (simp add: generate_tables_def bit_reverse_generated hamm8_generated hamm24_fwd_generated
      hamm24_inv_generated)

end
