(* ===== verification/Page_Table.thy ===== *)
theory Page_Table
  imports Prelude
begin

text \<open>The set of Teletext page numbers of page_table.c: one bit for every page of which all subpages are
  in the set, and a vector of subpage ranges for the others. The vector is the list of its allocated
  cells, so its length is the capacity; \<^const>\<open>None\<close> is an access to a cell that is not allocated.
  \<^verbatim>\<open>vbi_realloc\<close> is a parameter \<open>ra\<close>: given the old cells and the new number of cells it fails
  (\<^const>\<open>None\<close>) or gives the new cells, with the old contents kept up to the smaller size.
  Page and subpage numbers are C \<^verbatim>\<open>int\<close>.\<close>

unbundle bit_operations_syntax

subsection \<open>Data\<close>

abbreviation (input) VBI_ANY_SUBNO :: int where "VBI_ANY_SUBNO \<equiv> 0x3F7F"
abbreviation (input) MAX_SUBNO :: int where "MAX_SUBNO \<equiv> 0x3F7E"

record subpage_range =
  sr_pgno :: int
  sr_first :: int
  sr_last :: int

record page_table =
  pages :: "u32 list"
  pages_popcnt :: u32
  subpages :: "subpage_range list"
  subpages_size :: nat
  subpages_capacity :: nat

type_synonym realloc = "subpage_range list \<Rightarrow> nat \<Rightarrow> subpage_range list option"

subsection \<open>Queries\<close>

definition popcnt :: "u32 \<Rightarrow> u32" where
  "popcnt x = (\<Sum>n<32. of_bool (bit x n))"

definition valid_pgno :: "int \<Rightarrow> bool" where
  "valid_pgno pgno \<longleftrightarrow> (word_of_int pgno :: u32) - 0x100 < 0x800"

definition page_bit :: "int \<Rightarrow> nat" where
  "page_bit pgno = nat (pgno AND 31)"

definition page_offset :: "int \<Rightarrow> nat" where
  "page_offset pgno = nat (drop_bit 5 (pgno - 0x100))"

definition contains_all_subpages :: "page_table \<Rightarrow> int \<Rightarrow> bool" where
  "contains_all_subpages pt pgno =
     (let mask = push_bit (page_bit pgno) 1;
          offset = page_offset pgno
      in 0 \<noteq> (pages pt ! offset AND mask))"

definition vbi_page_table_contains_all_subpages :: "page_table \<Rightarrow> int \<Rightarrow> bool" where
  "vbi_page_table_contains_all_subpages pt pgno =
     (if \<not> valid_pgno pgno then False else contains_all_subpages pt pgno)"

text \<open>The used cells of the subpage vector, over which the loops of the code run.\<close>

definition ranges :: "page_table \<Rightarrow> subpage_range list" where
  "ranges pt = take (subpages_size pt) (subpages pt)"

definition vbi_page_table_contains_subpage :: "page_table \<Rightarrow> int \<Rightarrow> int \<Rightarrow> bool" where
  "vbi_page_table_contains_subpage pt pgno subno =
     (if \<not> valid_pgno pgno then False
      else if contains_all_subpages pt pgno then True
      else if VBI_ANY_SUBNO = subno then list_ex (\<lambda>r. pgno = sr_pgno r) (ranges pt)
      else list_ex (\<lambda>r. pgno = sr_pgno r \<and> subno \<ge> sr_first r \<and> subno \<le> sr_last r) (ranges pt))"

definition vbi_page_table_contains_page :: "page_table \<Rightarrow> int \<Rightarrow> bool" where
  "vbi_page_table_contains_page pt pgno = vbi_page_table_contains_subpage pt pgno VBI_ANY_SUBNO"

definition vbi_page_table_num_pages :: "page_table \<Rightarrow> u32" where
  "vbi_page_table_num_pages pt = pages_popcnt pt + word_of_nat (subpages_size pt)"

subsection \<open>Iteration\<close>

text \<open>The first loop of \<^verbatim>\<open>vbi_page_table_next_subpage\<close>: the next subpage of the same page, or the lowest
  first subpage of a range above it.\<close>

fun next_subno_loop :: "subpage_range list \<Rightarrow> int \<Rightarrow> int \<Rightarrow> int \<Rightarrow> int + int" where
  "next_subno_loop [] last_pgno next_subno min_subno = Inr min_subno"
| "next_subno_loop (r # rs) last_pgno next_subno min_subno =
     (if last_pgno \<noteq> sr_pgno r then next_subno_loop rs last_pgno next_subno min_subno
      else if next_subno > sr_last r then next_subno_loop rs last_pgno next_subno min_subno
      else if next_subno \<ge> sr_first r then Inl next_subno
      else next_subno_loop rs last_pgno next_subno
             (if sr_first r < min_subno then sr_first r else min_subno))"

text \<open>The loop that looks for a subpage range of a higher page. It compares \<^verbatim>\<open>next_pgno\<close> with
  \<^verbatim>\<open>min_pgno\<close>, so it keeps the last range found rather than the lowest.\<close>

definition min_range :: "page_table \<Rightarrow> int \<Rightarrow> int \<times> int" where
  "min_range pt next_pgno = fold (\<lambda>r (min_pgno, min_subno).
     if next_pgno \<le> sr_pgno r \<and> next_pgno < min_pgno then (sr_pgno r, sr_first r)
     else (min_pgno, min_subno)) (ranges pt) (0x900, 0)"

text \<open>The loop over the bitmap words; \<^const>\<open>None\<close> when page 0x900 is reached.\<close>

function next_mask_loop :: "u32 list \<Rightarrow> u32 \<Rightarrow> nat \<Rightarrow> int \<Rightarrow> (u32 \<times> int) option" where
  "next_mask_loop ps m offset next_pgno =
     (if 0 \<noteq> m then Some (m, next_pgno)
      else if next_pgno + 32 \<ge> 0x900 then None
      else next_mask_loop ps (ps ! Suc offset) (Suc offset) (next_pgno + 32))"
  by auto
termination by (relation "measure (\<lambda>(ps, m, offset, next_pgno). nat (0x900 - next_pgno))") auto

declare next_mask_loop.simps [simp del]

text \<open>\<^verbatim>\<open>ffs\<close> of the C library: one plus the index of the least significant bit that is set, or zero.\<close>

definition ffs :: "u32 \<Rightarrow> nat" where
  "ffs x = (case find (bit x) [0..<32] of None \<Rightarrow> 0 | Some n \<Rightarrow> Suc n)"

text \<open>The result is the return value with the new values of \<^verbatim>\<open>*pgno\<close> and \<^verbatim>\<open>*subno\<close>.\<close>

definition next_page_from :: "page_table \<Rightarrow> int \<Rightarrow> int \<times> int \<Rightarrow> bool \<times> int \<times> int" where
  "next_page_from pt next_pgno old =
     (let (min_pgno, min_subno) = min_range pt next_pgno;
          offset = page_offset next_pgno;
          mask = push_bit (page_bit next_pgno) (- 1) AND pages pt ! offset;
          next_pgno = next_pgno AND NOT 31
      in case next_mask_loop (pages pt) mask offset next_pgno of
           None \<Rightarrow> (False, old)
         | Some (mask, next_pgno) \<Rightarrow>
             (let next_pgno = next_pgno + int (ffs mask) - 1
              in if min_pgno < next_pgno then (True, min_pgno, min_subno)
                 else (True, next_pgno, VBI_ANY_SUBNO)))"

definition vbi_page_table_next_subpage :: "page_table \<Rightarrow> int \<Rightarrow> int \<Rightarrow> bool \<times> int \<times> int" where
  "vbi_page_table_next_subpage pt pgno subno =
     (let last_pgno = pgno; last_subno = subno in
      if last_pgno \<ge> 0x8FF then (False, pgno, subno)
      else if last_pgno < 0x100 then next_page_from pt 0x100 (pgno, subno)
      else if last_subno \<le> MAX_SUBNO then
        (case next_subno_loop (ranges pt) last_pgno (last_subno + 1) (MAX_SUBNO + 1) of
           Inl next_subno \<Rightarrow> (True, pgno, next_subno)
         | Inr min_subno \<Rightarrow>
             if min_subno \<le> MAX_SUBNO then (True, pgno, min_subno)
             else next_page_from pt (last_pgno + 1) (pgno, subno))
      else next_page_from pt (last_pgno + 1) (pgno, subno))"

definition vbi_page_table_next_page :: "page_table \<Rightarrow> int \<Rightarrow> bool \<times> int" where
  "vbi_page_table_next_page pt pgno =
     (let (r, pgno, _) = vbi_page_table_next_subpage pt pgno VBI_ANY_SUBNO in (r, pgno))"

subsection \<open>The subpage vector\<close>

abbreviation (input) element_size :: nat where "element_size \<equiv> 12"
abbreviation (input) UINT_MAX :: nat where "UINT_MAX \<equiv> 4294967295"

definition shrink_vector :: "realloc \<Rightarrow> nat \<Rightarrow> page_table \<Rightarrow> page_table" where
  "shrink_vector ra min_capacity pt =
     (if min_capacity \<ge> subpages_capacity pt then pt
      else case ra (subpages pt) min_capacity of
          None \<Rightarrow> pt
        | Some new_vec \<Rightarrow> pt\<lparr>subpages := new_vec, subpages_capacity := min_capacity\<rparr>)"

definition extend_vector :: "realloc \<Rightarrow> nat \<Rightarrow> page_table \<Rightarrow> bool \<times> page_table" where
  "extend_vector ra min_capacity pt =
     (let max_capacity = UINT_MAX div element_size in
      if min_capacity > max_capacity then (False, pt)
      else
        let new_capacity = subpages_capacity pt;
            new_capacity = (if new_capacity > max_capacity div 2 then max_capacity
                            else min min_capacity (new_capacity * 2))
        in case ra (subpages pt) new_capacity of
             None \<Rightarrow> (False, pt)
           | Some new_vec \<Rightarrow> (True, pt\<lparr>subpages := new_vec, subpages_capacity := new_capacity\<rparr>))"

definition shrink_subpages_vector :: "realloc \<Rightarrow> page_table \<Rightarrow> page_table" where
  "shrink_subpages_vector ra pt =
     (if subpages_size pt \<ge> subpages_capacity pt div 4 then pt
      else shrink_vector ra (subpages_capacity pt div 2) pt)"

definition extend_subpages_vector :: "realloc \<Rightarrow> page_table \<Rightarrow> nat \<Rightarrow> bool \<times> page_table" where
  "extend_subpages_vector ra pt min_capacity =
     (if min_capacity \<le> subpages_capacity pt then (True, pt)
      else extend_vector ra min_capacity pt)"

definition store_range :: "nat \<Rightarrow> subpage_range \<Rightarrow> page_table \<Rightarrow> page_table option" where
  "store_range i r pt =
     (if i < length (subpages pt) then Some (pt\<lparr>subpages := (subpages pt)[i := r]\<rparr>) else None)"

definition valid_subpage_range :: "int \<Rightarrow> int \<Rightarrow> int \<Rightarrow> bool" where
  "valid_subpage_range pgno first_subno last_subno =
     (if \<not> valid_pgno pgno then False
      else if (word_of_int first_subno :: u32) > 0x3F7E \<or> (word_of_int last_subno :: u32) > 0x3F7E then False
      else True)"

subsection \<open>Adding and removing pages\<close>

definition remove_subpages_in_page_range :: "realloc \<Rightarrow> page_table \<Rightarrow> int \<Rightarrow> int \<Rightarrow> page_table" where
  "remove_subpages_in_page_range ra pt first_pgno last_pgno =
     (let kept = filter (\<lambda>r. sr_pgno r < first_pgno \<or> sr_pgno r > last_pgno) (ranges pt);
          pt = pt\<lparr>subpages := kept @ drop (length kept) (subpages pt), subpages_size := length kept\<rparr>
      in shrink_subpages_vector ra pt)"

definition valid_pgno_range :: "int \<Rightarrow> int \<Rightarrow> bool" where
  "valid_pgno_range first_pgno last_pgno \<longleftrightarrow> valid_pgno first_pgno \<and> valid_pgno last_pgno"

text \<open>The loop over the full words between the first and the last one.\<close>

fun remove_words :: "nat \<Rightarrow> nat \<Rightarrow> page_table \<Rightarrow> page_table" where
  "remove_words 0 first_offset pt = pt"
| "remove_words (Suc n) first_offset pt =
     remove_words n (Suc first_offset)
       (pt\<lparr>pages_popcnt := pages_popcnt pt - popcnt (pages pt ! first_offset),
           pages := (pages pt)[first_offset := 0]\<rparr>)"

definition vbi_page_table_remove_pages :: "realloc \<Rightarrow> page_table \<Rightarrow> int \<Rightarrow> int \<Rightarrow> bool \<times> page_table" where
  "vbi_page_table_remove_pages ra pt first_pgno last_pgno =
     (if \<not> valid_pgno_range first_pgno last_pgno then (False, pt)
      else
        let (first_pgno, last_pgno) =
              (if first_pgno > last_pgno then (last_pgno, first_pgno) else (first_pgno, last_pgno))
        in if 0x8FF = last_pgno \<and> 0x100 = first_pgno then
             (True, (shrink_subpages_vector ra (pt\<lparr>subpages_size := 0\<rparr>))
                      \<lparr>pages := replicate 64 0, pages_popcnt := 0\<rparr>)
           else
             let pt = remove_subpages_in_page_range ra pt first_pgno last_pgno;
                 first_mask = push_bit (page_bit first_pgno) (- 1);
                 first_offset = page_offset first_pgno;
                 last_mask = NOT (push_bit (page_bit last_pgno) (- 2));
                 last_offset = page_offset last_pgno;
                 (pt, first_mask) =
                   (if first_offset \<noteq> last_offset then
                      let old_mask = pages pt ! first_offset;
                          pt = pt\<lparr>pages_popcnt := pages_popcnt pt - popcnt (old_mask AND first_mask),
                                  pages := (pages pt)[first_offset := old_mask AND NOT first_mask]\<rparr>
                      in (remove_words (last_offset - Suc first_offset) (Suc first_offset) pt, - 1)
                    else (pt, first_mask));
                 old_mask = pages pt ! last_offset;
                 last_mask = last_mask AND first_mask
             in (True, pt\<lparr>pages_popcnt := pages_popcnt pt - popcnt (old_mask AND last_mask),
                           pages := (pages pt)[last_offset := old_mask AND NOT last_mask]\<rparr>))"

fun add_words :: "nat \<Rightarrow> nat \<Rightarrow> page_table \<Rightarrow> page_table" where
  "add_words 0 first_offset pt = pt"
| "add_words (Suc n) first_offset pt =
     add_words n (Suc first_offset)
       (pt\<lparr>pages_popcnt := pages_popcnt pt + (32 - popcnt (pages pt ! first_offset)),
           pages := (pages pt)[first_offset := - 1]\<rparr>)"

definition vbi_page_table_add_pages :: "realloc \<Rightarrow> page_table \<Rightarrow> int \<Rightarrow> int \<Rightarrow> bool \<times> page_table" where
  "vbi_page_table_add_pages ra pt first_pgno last_pgno =
     (if \<not> valid_pgno_range first_pgno last_pgno then (False, pt)
      else
        let (first_pgno, last_pgno) =
              (if first_pgno > last_pgno then (last_pgno, first_pgno) else (first_pgno, last_pgno))
        in if 0x8FF = last_pgno \<and> 0x100 = first_pgno then
             (True, (shrink_subpages_vector ra (pt\<lparr>subpages_size := 0\<rparr>))
                      \<lparr>pages := replicate 64 (- 1), pages_popcnt := 0x800\<rparr>)
           else
             let pt = remove_subpages_in_page_range ra pt first_pgno last_pgno;
                 first_mask = push_bit (page_bit first_pgno) (- 1);
                 first_offset = page_offset first_pgno;
                 last_mask = NOT (push_bit (page_bit last_pgno) (- 2));
                 last_offset = page_offset last_pgno;
                 (pt, first_mask) =
                   (if first_offset \<noteq> last_offset then
                      let old_mask = pages pt ! first_offset;
                          pt = pt\<lparr>pages_popcnt := pages_popcnt pt + popcnt (first_mask AND NOT old_mask),
                                  pages := (pages pt)[first_offset := first_mask OR old_mask]\<rparr>
                      in (add_words (last_offset - Suc first_offset) (Suc first_offset) pt, - 1)
                    else (pt, first_mask));
                 old_mask = pages pt ! last_offset;
                 last_mask = last_mask AND first_mask
             in (True, pt\<lparr>pages_popcnt := pages_popcnt pt + popcnt (last_mask AND NOT old_mask),
                           pages := (pages pt)[last_offset := last_mask OR old_mask]\<rparr>))"

definition vbi_page_table_remove_all_pages :: "realloc \<Rightarrow> page_table \<Rightarrow> page_table" where
  "vbi_page_table_remove_all_pages ra pt = snd (vbi_page_table_remove_pages ra pt 0x100 0x8FF)"

definition vbi_page_table_add_all_pages :: "realloc \<Rightarrow> page_table \<Rightarrow> page_table" where
  "vbi_page_table_add_all_pages ra pt = snd (vbi_page_table_add_pages ra pt 0x100 0x8FF)"

text \<open>One pass of the inner loop: pages \<^verbatim>\<open>pgno\<close> to \<^verbatim>\<open>pgno + 0x1F\<close>.\<close>

definition add_displayable_word :: "realloc \<Rightarrow> int \<Rightarrow> page_table \<Rightarrow> page_table" where
  "add_displayable_word ra pgno pt =
     (let pt = remove_subpages_in_page_range ra pt (pgno + 0x00) (pgno + 0x09);
          pt = remove_subpages_in_page_range ra pt (pgno + 0x10) (pgno + 0x19);
          mask = 0x03FF03FF;
          offset = page_offset pgno;
          old_mask = pages pt ! offset
      in pt\<lparr>pages_popcnt := pages_popcnt pt + popcnt (mask AND NOT old_mask),
            pages := (pages pt)[offset := mask OR old_mask]\<rparr>)"

text \<open>The outer loop visits the magazines 0x100 to 0x800, the inner loop the five words 0x00, 0x20, 0x40,
  0x60, 0x80 of each.\<close>

definition vbi_page_table_add_all_displayable_pages :: "realloc \<Rightarrow> page_table \<Rightarrow> page_table" where
  "vbi_page_table_add_all_displayable_pages ra pt =
     fold (\<lambda>mag. fold (\<lambda>k. add_displayable_word ra (0x100 * int mag + 0x20 * int k)) [0..<5])
       [1..<9] pt"

definition vbi_page_table_new :: page_table where
  "vbi_page_table_new = \<lparr>pages = replicate 64 0, pages_popcnt = 0, subpages = [],
     subpages_size = 0, subpages_capacity = 0\<rparr>"

subsection \<open>Adding and removing subpages\<close>

fun merge_loop :: "int \<Rightarrow> int \<Rightarrow> int \<Rightarrow> subpage_range list \<Rightarrow> subpage_range list option" where
  "merge_loop pgno first_subno last_subno [] = None"
| "merge_loop pgno first_subno last_subno (r # rs) =
     (if pgno = sr_pgno r \<and> last_subno \<ge> sr_first r \<and> first_subno \<le> sr_last r then
        let r = (if first_subno < sr_first r then r\<lparr>sr_first := first_subno\<rparr> else r);
            r = (if last_subno > sr_last r then r\<lparr>sr_last := last_subno\<rparr> else r)
        in Some (r # rs)
      else map_option (Cons r) (merge_loop pgno first_subno last_subno rs))"

definition vbi_page_table_add_subpages ::
  "realloc \<Rightarrow> page_table \<Rightarrow> int \<Rightarrow> int \<Rightarrow> int \<Rightarrow> (bool \<times> page_table) option" where
  "vbi_page_table_add_subpages ra pt pgno first_subno last_subno =
     (if VBI_ANY_SUBNO = first_subno \<and> VBI_ANY_SUBNO = last_subno then
        Some (vbi_page_table_add_pages ra pt pgno pgno)
      else if \<not> valid_subpage_range pgno first_subno last_subno then Some (False, pt)
      else if vbi_page_table_contains_page pt pgno then Some (True, pt)
      else
        let (first_subno, last_subno) =
              (if first_subno > last_subno then (last_subno, first_subno) else (first_subno, last_subno))
        in case merge_loop pgno first_subno last_subno (ranges pt) of
             Some rs \<Rightarrow> Some (True, pt\<lparr>subpages := rs @ drop (length rs) (subpages pt)\<rparr>)
           | None \<Rightarrow>
               let i = subpages_size pt;
                   (ok, pt) = extend_subpages_vector ra pt (i + 1)
               in if \<not> ok then Some (False, pt)
                  else do {
                    pt \<leftarrow> store_range i \<lparr>sr_pgno = pgno, sr_first = first_subno, sr_last = last_subno\<rparr> pt;
                    Some (True, pt\<lparr>subpages_size := i + 1\<rparr>) })"

text \<open>The loop over the ranges of the page. A range that strictly contains the subpages is split in two,
  any other range that overlaps them is cut to the overlap.\<close>

function remove_subpages_loop ::
  "realloc \<Rightarrow> int \<Rightarrow> int \<Rightarrow> int \<Rightarrow> nat \<Rightarrow> page_table \<Rightarrow> (bool \<times> page_table) option" where
  "remove_subpages_loop ra pgno first_subno last_subno i pt =
     (if i \<ge> subpages_size pt then Some (True, shrink_subpages_vector ra pt)
      else if i \<ge> length (subpages pt) then None
      else
        let r = subpages pt ! i in
        if pgno \<noteq> sr_pgno r \<or> first_subno > sr_last r \<or> last_subno < sr_first r then
          remove_subpages_loop ra pgno first_subno last_subno (Suc i) pt
        else if first_subno > sr_first r \<and> last_subno < sr_last r then
          case extend_subpages_vector ra pt (subpages_size pt + 1) of
            (False, pt) \<Rightarrow> Some (False, pt)
          | (True, pt') \<Rightarrow>
              let v = subpages pt' in
              if Suc (subpages_size pt) > length v then None
              else
                let v = take i v @ [(v ! i)\<lparr>sr_last := first_subno\<rparr>, (v ! i)\<lparr>sr_first := last_subno + 1\<rparr>]
                          @ take (subpages_size pt - Suc i) (drop (Suc i) v)
                          @ drop (Suc (subpages_size pt)) v
                in remove_subpages_loop ra pgno first_subno last_subno (i + 2)
                     (pt'\<lparr>subpages := v, subpages_size := Suc (subpages_size pt)\<rparr>)
        else
          let r = (if first_subno > sr_first r then r\<lparr>sr_first := first_subno\<rparr> else r);
              r = (if last_subno < sr_last r then r\<lparr>sr_last := last_subno\<rparr> else r);
              v = (subpages pt)[i := r]
          in if sr_first r > sr_last r then
               (if subpages_size pt \<ge> length v then None
                else remove_subpages_loop ra pgno first_subno last_subno i
                  (pt\<lparr>subpages := take i v @ drop (Suc i) (take (Suc (subpages_size pt)) v)
                         @ drop (subpages_size pt) v,
                      subpages_size := subpages_size pt - 1\<rparr>))
             else remove_subpages_loop ra pgno first_subno last_subno (Suc i) (pt\<lparr>subpages := v\<rparr>))"
  by auto
termination
  by (relation "measure (\<lambda>(ra, pgno, f, l, i, pt). subpages_size pt - i)") auto

declare remove_subpages_loop.simps [simp del]

definition vbi_page_table_remove_subpages ::
  "realloc \<Rightarrow> page_table \<Rightarrow> int \<Rightarrow> int \<Rightarrow> int \<Rightarrow> (bool \<times> page_table) option" where
  "vbi_page_table_remove_subpages ra pt pgno first_subno last_subno =
     (if VBI_ANY_SUBNO = first_subno \<and> VBI_ANY_SUBNO = last_subno then
        Some (vbi_page_table_remove_pages ra pt pgno pgno)
      else if \<not> valid_subpage_range pgno first_subno last_subno then Some (False, pt)
      else
        let (first_subno, last_subno) =
              (if first_subno > last_subno then (last_subno, first_subno) else (first_subno, last_subno));
            mask = push_bit (page_bit pgno) 1;
            offset = page_offset pgno
        in if 0 \<noteq> (pages pt ! offset AND mask) then
             let i = subpages_size pt;
                 (ok, pt) = extend_subpages_vector ra pt (i + 2)
             in if \<not> ok then Some (False, pt)
                else
                  let pt = pt\<lparr>pages_popcnt := pages_popcnt pt - 1,
                              pages := (pages pt)[offset := pages pt ! offset AND NOT mask]\<rparr>
                  in do {
                    (i, pt) \<leftarrow>
                      (if first_subno > 0 then do {
                         pt \<leftarrow> store_range i \<lparr>sr_pgno = pgno, sr_first = 0, sr_last = first_subno - 1\<rparr> pt;
                         Some (i + 1, pt) }
                       else Some (i, pt));
                    (i, pt) \<leftarrow>
                      (if last_subno < MAX_SUBNO then do {
                         pt \<leftarrow> store_range i \<lparr>sr_pgno = pgno, sr_first = last_subno + 1,
                                             sr_last = MAX_SUBNO\<rparr> pt;
                         Some (i + 1, pt) }
                       else Some (i, pt));
                    Some (True, pt\<lparr>subpages_size := i\<rparr>) }
           else remove_subpages_loop ra pgno first_subno last_subno 0 pt)"

definition vbi_page_table_add_subpage :: "realloc \<Rightarrow> page_table \<Rightarrow> int \<Rightarrow> int \<Rightarrow> (bool \<times> page_table) option" where
  "vbi_page_table_add_subpage ra pt pgno subno = vbi_page_table_add_subpages ra pt pgno subno subno"

definition vbi_page_table_remove_subpage :: "realloc \<Rightarrow> page_table \<Rightarrow> int \<Rightarrow> int \<Rightarrow> (bool \<times> page_table) option" where
  "vbi_page_table_remove_subpage ra pt pgno subno = vbi_page_table_remove_subpages ra pt pgno subno subno"

definition vbi_page_table_add_page :: "realloc \<Rightarrow> page_table \<Rightarrow> int \<Rightarrow> bool \<times> page_table" where
  "vbi_page_table_add_page ra pt pgno = vbi_page_table_add_pages ra pt pgno pgno"

definition vbi_page_table_remove_page :: "realloc \<Rightarrow> page_table \<Rightarrow> int \<Rightarrow> bool \<times> page_table" where
  "vbi_page_table_remove_page ra pt pgno = vbi_page_table_remove_pages ra pt pgno pgno"

subsection \<open>Bits of the bitmap\<close>

definition pbit :: "u32 list \<Rightarrow> nat \<Rightarrow> bool" where
  "pbit ps k = bit (ps ! (k div 32)) (k mod 32)"

lemma int_and_31: "x AND 31 = x mod 32" for x :: int
  using take_bit_eq_mask [of 5 x] by (simp add: mask_eq_exp_minus_1 take_bit_eq_mod)

lemma page_bit_eq: "page_bit (256 + int k) = k mod 32"
proof -
  have "(256 + x) mod 32 = x mod 32" for x :: int
    using mod_mult_self1 [of x 8 32] by (simp add: add.commute)
  then have "(256 + int k) mod 32 = int (k mod 32)" by (simp add: zmod_int)
  then show ?thesis by (simp only: page_bit_def int_and_31 nat_int)
qed

lemma page_offset_eq: "page_offset (256 + int k) = k div 32"
  by (simp add: page_offset_def drop_bit_eq_div nat_div_distrib)

lemma contains_all_subpages_eq: "contains_all_subpages pt (256 + int k) = pbit (pages pt) k"
proof -
  have "w AND push_bit n 1 = of_bool (bit w n) * 2 ^ n" for w :: u32 and n
    using and_exp_eq_of_bool [of w n] by (simp add: push_bit_eq_mult)
  moreover have "(2 :: u32) ^ (k mod 32) \<noteq> 0" by simp
  ultimately show ?thesis
    by (simp add: contains_all_subpages_def page_bit_eq page_offset_eq pbit_def Let_def)
qed

lemma valid_pgno_eq: "k < 2048 \<Longrightarrow> valid_pgno (256 + int k)"
  by (simp add: valid_pgno_def word_less_nat_alt unat_of_nat)

lemma pgno_cases:
  assumes "0x100 \<le> p" "p \<le> 0x8FF"
  obtains k where "k < 2048" "p = 256 + int k"
  using assms by (intro that [of "nat (p - 256)"]) auto

lemma bit_first_mask: "bit (push_bit a (- 1) :: u32) n \<longleftrightarrow> a \<le> n \<and> n < 32"
  by (auto simp: bit_simps)

lemma bit_last_mask: "bit (NOT (push_bit a (- 2)) :: u32) n \<longleftrightarrow> n \<le> a \<and> n < 32"
proof -
  have "bit (- 2 :: u32) m \<longleftrightarrow> 1 \<le> m \<and> m < 32" for m
  proof -
    have "- 2 = push_bit 1 (- 1 :: u32)" by simp
    then show ?thesis by (simp only: bit_first_mask)
  qed
  then show ?thesis by (simp add: bit_not_iff bit_push_bit_iff) linarith
qed

subsection \<open>Counting bits\<close>

lemma popcnt_0 [simp]: "popcnt 0 = 0"
  by (simp add: popcnt_def)

lemma popcnt_minus_1 [simp]: "popcnt (- 1) = 32"
proof -
  have "popcnt (- 1) = (\<Sum>n<32::nat. 1)"
    unfolding popcnt_def by (rule sum.cong) (simp_all add: bit_minus_1_iff)
  then show ?thesis by simp
qed

lemma popcnt_or_disjoint: "a AND b = 0 \<Longrightarrow> popcnt (a OR b) = popcnt a + popcnt b"
proof -
  assume "a AND b = 0"
  then have "\<not> (bit a n \<and> bit b n)" for n by (metis bit_0_eq bit_and_iff bot_apply bot_bool_def)
  then have "(of_bool (bit (a OR b) n) :: u32) = of_bool (bit a n) + of_bool (bit b n)" for n
    by (auto simp: bit_or_iff)
  then show ?thesis by (simp only: popcnt_def sum.distrib)
qed

lemma popcnt_or: "popcnt (m OR w) = popcnt w + popcnt (m AND NOT w)"
proof -
  have "m OR w = w OR (m AND NOT w)" by (rule bit_word_eqI) (auto simp: bit_simps)
  moreover have "w AND (m AND NOT w) = 0" by (rule bit_word_eqI) (auto simp: bit_simps)
  ultimately show ?thesis by (simp only: popcnt_or_disjoint)
qed

lemma popcnt_and_not: "popcnt (w AND NOT m) = popcnt w - popcnt (w AND m)"
proof -
  have "w = (w AND NOT m) OR (w AND m)" by (rule bit_word_eqI) (auto simp: bit_simps)
  moreover have "(w AND NOT m) AND (w AND m) = 0" by (rule bit_word_eqI) (auto simp: bit_simps)
  ultimately have "popcnt w = popcnt (w AND NOT m) + popcnt (w AND m)"
    by (metis popcnt_or_disjoint)
  then show ?thesis by simp
qed

definition pop_ok :: "page_table \<Rightarrow> bool" where
  "pop_ok pt \<longleftrightarrow> length (pages pt) = 64 \<and> pages_popcnt pt = sum_list (map popcnt (pages pt))"

lemma sum_list_popcnt_update:
  "i < length ps \<Longrightarrow>
     sum_list (map popcnt (ps[i := w])) = sum_list (map popcnt ps) + popcnt w - popcnt (ps ! i)"
  by (induction ps arbitrary: i) (auto split: nat.split)

lemma pop_ok_add:
  assumes "pop_ok pt" "i < 64"
  shows "pop_ok (pt\<lparr>pages_popcnt := pages_popcnt pt + popcnt (m AND NOT (pages pt ! i)),
    pages := (pages pt)[i := m OR pages pt ! i]\<rparr>)"
  using assms by (simp add: pop_ok_def sum_list_popcnt_update popcnt_or)

lemma pop_ok_remove:
  assumes "pop_ok pt" "i < 64"
  shows "pop_ok (pt\<lparr>pages_popcnt := pages_popcnt pt - popcnt (pages pt ! i AND m),
    pages := (pages pt)[i := pages pt ! i AND NOT m]\<rparr>)"
  using assms by (simp add: pop_ok_def sum_list_popcnt_update popcnt_and_not)

lemma add_words_spec:
  assumes "pop_ok pt" "fo + n \<le> 64"
  shows "pop_ok (add_words n fo pt)"
    and "j < 64 \<Longrightarrow> pages (add_words n fo pt) ! j = (if fo \<le> j \<and> j < fo + n then - 1 else pages pt ! j)"
    and "subpages (add_words n fo pt) = subpages pt"
    "subpages_size (add_words n fo pt) = subpages_size pt"
    "subpages_capacity (add_words n fo pt) = subpages_capacity pt"
proof (atomize(full), use assms in \<open>induction n arbitrary: fo pt\<close>)
  case (Suc n)
  let ?pt = "pt\<lparr>pages_popcnt := pages_popcnt pt + (32 - popcnt (pages pt ! fo)),
           pages := (pages pt)[fo := - 1]\<rparr>"
  have "pop_ok ?pt"
    using pop_ok_add [OF Suc.prems(1), of fo "- 1"] popcnt_and_not [of "- 1" "pages pt ! fo"] Suc.prems(2)
    by simp
  with Suc.IH [of ?pt "Suc fo"] Suc.prems show ?case
    by (auto simp: pop_ok_def nth_list_update)
qed auto

lemma remove_words_spec:
  assumes "pop_ok pt" "fo + n \<le> 64"
  shows "pop_ok (remove_words n fo pt)"
    and "j < 64 \<Longrightarrow> pages (remove_words n fo pt) ! j = (if fo \<le> j \<and> j < fo + n then 0 else pages pt ! j)"
    and "subpages (remove_words n fo pt) = subpages pt"
    "subpages_size (remove_words n fo pt) = subpages_size pt"
    "subpages_capacity (remove_words n fo pt) = subpages_capacity pt"
proof (atomize(full), use assms in \<open>induction n arbitrary: fo pt\<close>)
  case (Suc n)
  let ?pt = "pt\<lparr>pages_popcnt := pages_popcnt pt - popcnt (pages pt ! fo), pages := (pages pt)[fo := 0]\<rparr>"
  have "pop_ok ?pt"
    using pop_ok_remove [OF Suc.prems(1), of fo "- 1"] Suc.prems(2) by simp
  with Suc.IH [of ?pt "Suc fo"] Suc.prems show ?case
    by (auto simp: pop_ok_def nth_list_update)
qed auto

subsection \<open>The invariant\<close>

definition realloc_ok :: "realloc \<Rightarrow> bool" where
  "realloc_ok ra \<longleftrightarrow> (\<forall>v n v'. ra v n = Some v' \<longrightarrow>
     length v' = n \<and> take (min n (length v)) v' = take (min n (length v)) v)"

definition valid_range :: "subpage_range \<Rightarrow> bool" where
  "valid_range r \<longleftrightarrow> 0x100 \<le> sr_pgno r \<and> sr_pgno r \<le> 0x8FF
     \<and> 0 \<le> sr_first r \<and> sr_first r \<le> sr_last r \<and> sr_last r \<le> 0x3F7E"

definition vector_ok :: "page_table \<Rightarrow> bool" where
  "vector_ok pt \<longleftrightarrow> length (subpages pt) = subpages_capacity pt
     \<and> subpages_size pt \<le> subpages_capacity pt \<and> (\<forall>r\<in>set (ranges pt). valid_range r)"

definition table_ok :: "page_table \<Rightarrow> bool" where
  "table_ok pt \<longleftrightarrow> pop_ok pt \<and> vector_ok pt
     \<and> (\<forall>r\<in>set (ranges pt). \<not> contains_all_subpages pt (sr_pgno r))"

lemma shrink_subpages_vector_spec:
  assumes "realloc_ok ra" "length (subpages pt) = subpages_capacity pt"
    "subpages_size pt \<le> subpages_capacity pt"
  defines "pt' \<equiv> shrink_subpages_vector ra pt"
  shows "ranges pt' = ranges pt" "pages pt' = pages pt" "pages_popcnt pt' = pages_popcnt pt"
    "subpages_size pt' = subpages_size pt" "length (subpages pt') = subpages_capacity pt'"
    "subpages_size pt' \<le> subpages_capacity pt'"
proof -
  have "take (subpages_size pt) v = take (subpages_size pt) (subpages pt) \<and> length v = subpages_capacity pt div 2"
    if "ra (subpages pt) (subpages_capacity pt div 2) = Some v"
      "subpages_size pt < subpages_capacity pt div 4" for v
  proof -
    let ?h = "subpages_capacity pt div 2"
    have m: "min ?h (length (subpages pt)) = ?h" using assms(2) by simp
    with assms(1) that(1) have v: "length v = ?h" "take ?h v = take ?h (subpages pt)"
      unfolding realloc_ok_def by metis+
    have "subpages_size pt \<le> ?h" using that(2) by linarith
    with v(2) have "take (subpages_size pt) v = take (subpages_size pt) (subpages pt)"
      by (metis min.absorb1 take_take)
    with v(1) show ?thesis by simp
  qed
  then show "ranges pt' = ranges pt" "pages pt' = pages pt" "pages_popcnt pt' = pages_popcnt pt"
    "subpages_size pt' = subpages_size pt" "length (subpages pt') = subpages_capacity pt'"
    "subpages_size pt' \<le> subpages_capacity pt'"
    using assms(2,3) unfolding pt'_def shrink_subpages_vector_def shrink_vector_def ranges_def
    by (auto split: option.split)
qed

lemma remove_range_spec:
  fixes f l :: int
  assumes "realloc_ok ra" "vector_ok pt"
  defines "pt' \<equiv> remove_subpages_in_page_range ra pt f l"
  shows "ranges pt' = filter (\<lambda>r. sr_pgno r < f \<or> l < sr_pgno r) (ranges pt)"
    "pages pt' = pages pt" "pages_popcnt pt' = pages_popcnt pt" "vector_ok pt'"
proof -
  let ?k = "filter (\<lambda>r. sr_pgno r < f \<or> l < sr_pgno r) (ranges pt)"
  let ?q = "pt\<lparr>subpages := ?k @ drop (length ?k) (subpages pt), subpages_size := length ?k\<rparr>"
  have "length ?k \<le> length (ranges pt)" by (rule length_filter_le)
  also have "length (ranges pt) = subpages_size pt"
    using assms(2) by (simp add: vector_ok_def ranges_def)
  finally have len: "length ?k \<le> subpages_size pt" .
  have a: "length (subpages ?q) = subpages_capacity ?q" "subpages_size ?q \<le> subpages_capacity ?q"
    using len assms(2) by (simp_all add: vector_ok_def)
  note s = shrink_subpages_vector_spec [OF assms(1) a]
  have e: "pt' = shrink_subpages_vector ra ?q"
    by (simp add: pt'_def remove_subpages_in_page_range_def Let_def)
  show r: "ranges pt' = ?k" unfolding e s by (simp add: ranges_def)
  show "pages pt' = pages pt" "pages_popcnt pt' = pages_popcnt pt" unfolding e s by simp_all
  show "vector_ok pt'"
    unfolding vector_ok_def r using s(5,6) assms(2) by (simp add: e vector_ok_def)
qed

lemma pop_ok_cong: "pages pt' = pages pt \<Longrightarrow> pages_popcnt pt' = pages_popcnt pt \<Longrightarrow> pop_ok pt' = pop_ok pt"
  by (simp add: pop_ok_def)

lemma ranges_update [simp]:
  "ranges (pt\<lparr>pages := x\<rparr>) = ranges pt" "ranges (pt\<lparr>pages_popcnt := y\<rparr>) = ranges pt"
  by (simp_all add: ranges_def)

lemma vector_ok_update [simp]:
  "vector_ok (pt\<lparr>pages := x\<rparr>) = vector_ok pt" "vector_ok (pt\<lparr>pages_popcnt := y\<rparr>) = vector_ok pt"
  by (simp_all add: vector_ok_def)

subsection \<open>Adding and removing a range of pages\<close>

text \<open>Bit \<open>k\<close> of the bitmap lies between the first and the last word, and within the masks there, exactly if
  \<open>k\<close> lies in the range.\<close>

lemma range_bits:
  fixes f l k :: nat
  assumes "f \<le> l"
  shows "f div 32 = l div 32 \<Longrightarrow>
      (f \<le> k \<and> k \<le> l) = (k div 32 = l div 32 \<and> f mod 32 \<le> k mod 32 \<and> k mod 32 \<le> l mod 32)"
    and "f div 32 \<noteq> l div 32 \<Longrightarrow> (f \<le> k \<and> k \<le> l) =
      (k div 32 = f div 32 \<and> f mod 32 \<le> k mod 32 \<or> f div 32 < k div 32 \<and> k div 32 < l div 32
       \<or> k div 32 = l div 32 \<and> k mod 32 \<le> l mod 32)"
proof -
  define a b c x y z where d: "a = f div 32" "b = l div 32" "c = k div 32" "x = f mod 32" "y = l mod 32" "z = k mod 32"
  have e: "f = 32 * a + x" "l = 32 * b + y" "k = 32 * c + z" by (simp_all add: d)
  have lt: "x < 32" "y < 32" "z < 32" by (simp_all add: d)
  show "f div 32 = l div 32 \<Longrightarrow>
      (f \<le> k \<and> k \<le> l) = (k div 32 = l div 32 \<and> f mod 32 \<le> k mod 32 \<and> k mod 32 \<le> l mod 32)"
    unfolding d [symmetric] using lt unfolding e by (cases "c = b") auto
  show "f div 32 \<noteq> l div 32 \<Longrightarrow> (f \<le> k \<and> k \<le> l) =
      (k div 32 = f div 32 \<and> f mod 32 \<le> k mod 32 \<or> f div 32 < k div 32 \<and> k div 32 < l div 32
       \<or> k div 32 = l div 32 \<and> k mod 32 \<le> l mod 32)"
    unfolding d [symmetric] using lt assms unfolding e by auto
qed

definition same_vector :: "page_table \<Rightarrow> page_table \<Rightarrow> bool" where
  "same_vector pt' pt \<longleftrightarrow> subpages pt' = subpages pt \<and> subpages_size pt' = subpages_size pt
     \<and> subpages_capacity pt' = subpages_capacity pt"

definition add_bits :: "nat \<Rightarrow> nat \<Rightarrow> page_table \<Rightarrow> page_table" where
  "add_bits a b pt =
     (let first_mask = push_bit (a mod 32) (- 1);
          last_mask = NOT (push_bit (b mod 32) (- 2));
          (pt, first_mask) =
            (if a div 32 \<noteq> b div 32 then
               let old_mask = pages pt ! (a div 32);
                   pt = pt\<lparr>pages_popcnt := pages_popcnt pt + popcnt (first_mask AND NOT old_mask),
                           pages := (pages pt)[a div 32 := first_mask OR old_mask]\<rparr>
               in (add_words (b div 32 - Suc (a div 32)) (Suc (a div 32)) pt, - 1)
             else (pt, first_mask));
          old_mask = pages pt ! (b div 32);
          last_mask = last_mask AND first_mask
      in pt\<lparr>pages_popcnt := pages_popcnt pt + popcnt (last_mask AND NOT old_mask),
            pages := (pages pt)[b div 32 := last_mask OR old_mask]\<rparr>)"

definition remove_bits :: "nat \<Rightarrow> nat \<Rightarrow> page_table \<Rightarrow> page_table" where
  "remove_bits a b pt =
     (let first_mask = push_bit (a mod 32) (- 1);
          last_mask = NOT (push_bit (b mod 32) (- 2));
          (pt, first_mask) =
            (if a div 32 \<noteq> b div 32 then
               let old_mask = pages pt ! (a div 32);
                   pt = pt\<lparr>pages_popcnt := pages_popcnt pt - popcnt (old_mask AND first_mask),
                           pages := (pages pt)[a div 32 := old_mask AND NOT first_mask]\<rparr>
               in (remove_words (b div 32 - Suc (a div 32)) (Suc (a div 32)) pt, - 1)
             else (pt, first_mask));
          old_mask = pages pt ! (b div 32);
          last_mask = last_mask AND first_mask
      in pt\<lparr>pages_popcnt := pages_popcnt pt - popcnt (old_mask AND last_mask),
            pages := (pages pt)[b div 32 := old_mask AND NOT last_mask]\<rparr>)"

lemma pbit_or:
  "i < length ps \<Longrightarrow> pbit (ps[i := m OR ps ! i]) k \<longleftrightarrow> k div 32 = i \<and> bit m (k mod 32) \<or> pbit ps k"
  by (cases "k div 32 = i") (auto simp: pbit_def bit_or_iff)

lemma pbit_and_not:
  "i < length ps \<Longrightarrow> pbit (ps[i := ps ! i AND NOT m]) k \<longleftrightarrow>
     pbit ps k \<and> \<not> (k div 32 = i \<and> bit m (k mod 32))"
  by (cases "k div 32 = i") (auto simp: pbit_def bit_and_iff bit_not_iff)

lemma add_bits_spec:
  assumes "pop_ok pt" "a \<le> b" "b < 2048"
  shows "pop_ok (add_bits a b pt) \<and> same_vector (add_bits a b pt) pt
    \<and> (\<forall>k<2048. pbit (pages (add_bits a b pt)) k \<longleftrightarrow> a \<le> k \<and> k \<le> b \<or> pbit (pages pt) k)"
proof -
  have off: "a div 32 < 64" "b div 32 < 64" "a div 32 \<le> b div 32"
    using assms by (simp_all add: div_le_mono)
  have len: "length (pages pt) = 64" using assms(1) by (simp add: pop_ok_def)
  define fm lm :: u32 where "fm = push_bit (a mod 32) (- 1)" and "lm = NOT (push_bit (b mod 32) (- 2))"
  have fm: "bit fm n \<longleftrightarrow> a mod 32 \<le> n \<and> n < 32" and lm: "bit lm n \<longleftrightarrow> n \<le> b mod 32 \<and> n < 32" for n
    unfolding fm_def lm_def bit_first_mask bit_last_mask by simp_all
  show ?thesis
  proof (cases "a div 32 = b div 32")
    case True
    define m where "m = lm AND fm"
    have m: "bit m n \<longleftrightarrow> a mod 32 \<le> n \<and> n \<le> b mod 32 \<and> n < 32" for n
      by (auto simp: m_def bit_and_iff fm lm)
    have eq: "add_bits a b pt = pt\<lparr>pages_popcnt := pages_popcnt pt + popcnt (m AND NOT (pages pt ! (b div 32))),
        pages := (pages pt)[b div 32 := m OR pages pt ! (b div 32)]\<rparr>"
      unfolding add_bits_def m_def fm_def lm_def using True by (simp add: Let_def)
    have "k < 2048 \<Longrightarrow> pbit ((pages pt)[b div 32 := m OR pages pt ! (b div 32)]) k \<longleftrightarrow>
        a \<le> k \<and> k \<le> b \<or> pbit (pages pt) k" for k
      using off(2) range_bits(1) [OF assms(2) True, of k]
      by (auto simp: pbit_or len m)
    with pop_ok_add [OF assms(1) off(2), of m] show ?thesis unfolding eq by (simp add: same_vector_def)
  next
    case False
    let ?p = "pt\<lparr>pages_popcnt := pages_popcnt pt + popcnt (fm AND NOT (pages pt ! (a div 32))),
        pages := (pages pt)[a div 32 := fm OR pages pt ! (a div 32)]\<rparr>"
    let ?n = "b div 32 - Suc (a div 32)"
    let ?q = "add_words ?n (Suc (a div 32)) ?p"
    have n: "Suc (a div 32) + ?n \<le> 64" "Suc (a div 32) + ?n = b div 32" using off False by linarith+
    note q = add_words_spec [OF pop_ok_add [OF assms(1) off(1), of fm] n(1)]
    have lq: "length (pages ?q) = 64" using q(1) by (simp add: pop_ok_def)
    have eq: "add_bits a b pt = ?q\<lparr>pages_popcnt := pages_popcnt ?q + popcnt (lm AND NOT (pages ?q ! (b div 32))),
        pages := (pages ?q)[b div 32 := lm OR pages ?q ! (b div 32)]\<rparr>"
      unfolding add_bits_def fm_def lm_def using False by (simp add: Let_def)
    have "k < 2048 \<Longrightarrow> pbit ((pages ?q)[b div 32 := lm OR pages ?q ! (b div 32)]) k \<longleftrightarrow>
        a \<le> k \<and> k \<le> b \<or> pbit (pages pt) k" for k
    proof -
      assume k: "k < 2048"
      have "pbit (pages ?q) k \<longleftrightarrow> Suc (a div 32) \<le> k div 32 \<and> k div 32 < b div 32 \<or> pbit (pages ?p) k"
        using q(2) [of "k div 32"] k n(2) by (auto simp: pbit_def bit_minus_1_iff)
      also have "pbit (pages ?p) k \<longleftrightarrow> k div 32 = a div 32 \<and> a mod 32 \<le> k mod 32 \<or> pbit (pages pt) k"
        using off(1) by (simp add: pbit_or len fm)
      finally show ?thesis
        using off(2) range_bits(2) [OF assms(2) False, of k] by (auto simp: pbit_or lq lm)
    qed
    with pop_ok_add [OF q(1) off(2), of lm] q(3-5) show ?thesis unfolding eq by (simp add: same_vector_def)
  qed
qed

lemma remove_bits_spec:
  assumes "pop_ok pt" "a \<le> b" "b < 2048"
  shows "pop_ok (remove_bits a b pt) \<and> same_vector (remove_bits a b pt) pt
    \<and> (\<forall>k<2048. pbit (pages (remove_bits a b pt)) k \<longleftrightarrow> pbit (pages pt) k \<and> \<not> (a \<le> k \<and> k \<le> b))"
proof -
  have off: "a div 32 < 64" "b div 32 < 64" "a div 32 \<le> b div 32"
    using assms by (simp_all add: div_le_mono)
  have len: "length (pages pt) = 64" using assms(1) by (simp add: pop_ok_def)
  define fm lm :: u32 where "fm = push_bit (a mod 32) (- 1)" and "lm = NOT (push_bit (b mod 32) (- 2))"
  have fm: "bit fm n \<longleftrightarrow> a mod 32 \<le> n \<and> n < 32" and lm: "bit lm n \<longleftrightarrow> n \<le> b mod 32 \<and> n < 32" for n
    unfolding fm_def lm_def bit_first_mask bit_last_mask by simp_all
  show ?thesis
  proof (cases "a div 32 = b div 32")
    case True
    define m where "m = lm AND fm"
    have m: "bit m n \<longleftrightarrow> a mod 32 \<le> n \<and> n \<le> b mod 32 \<and> n < 32" for n
      by (auto simp: m_def bit_and_iff fm lm)
    have eq: "remove_bits a b pt = pt\<lparr>pages_popcnt := pages_popcnt pt - popcnt (pages pt ! (b div 32) AND m),
        pages := (pages pt)[b div 32 := pages pt ! (b div 32) AND NOT m]\<rparr>"
      unfolding remove_bits_def m_def fm_def lm_def using True by (simp add: Let_def)
    have "k < 2048 \<Longrightarrow> pbit ((pages pt)[b div 32 := pages pt ! (b div 32) AND NOT m]) k \<longleftrightarrow>
        pbit (pages pt) k \<and> \<not> (a \<le> k \<and> k \<le> b)" for k
      using off(2) range_bits(1) [OF assms(2) True, of k] by (auto simp: pbit_and_not len m)
    with pop_ok_remove [OF assms(1) off(2), of m] show ?thesis unfolding eq by (simp add: same_vector_def)
  next
    case False
    let ?p = "pt\<lparr>pages_popcnt := pages_popcnt pt - popcnt (pages pt ! (a div 32) AND fm),
        pages := (pages pt)[a div 32 := pages pt ! (a div 32) AND NOT fm]\<rparr>"
    let ?n = "b div 32 - Suc (a div 32)"
    let ?q = "remove_words ?n (Suc (a div 32)) ?p"
    have n: "Suc (a div 32) + ?n \<le> 64" "Suc (a div 32) + ?n = b div 32" using off False by linarith+
    note q = remove_words_spec [OF pop_ok_remove [OF assms(1) off(1), of fm] n(1)]
    have lq: "length (pages ?q) = 64" using q(1) by (simp add: pop_ok_def)
    have eq: "remove_bits a b pt = ?q\<lparr>pages_popcnt := pages_popcnt ?q - popcnt (pages ?q ! (b div 32) AND lm),
        pages := (pages ?q)[b div 32 := pages ?q ! (b div 32) AND NOT lm]\<rparr>"
      unfolding remove_bits_def fm_def lm_def using False by (simp add: Let_def)
    have "k < 2048 \<Longrightarrow> pbit ((pages ?q)[b div 32 := pages ?q ! (b div 32) AND NOT lm]) k \<longleftrightarrow>
        pbit (pages pt) k \<and> \<not> (a \<le> k \<and> k \<le> b)" for k
    proof -
      assume k: "k < 2048"
      have "pbit (pages ?q) k \<longleftrightarrow> \<not> (Suc (a div 32) \<le> k div 32 \<and> k div 32 < b div 32) \<and> pbit (pages ?p) k"
        using q(2) [of "k div 32"] k n(2) by (simp add: pbit_def)
      also have "pbit (pages ?p) k \<longleftrightarrow> pbit (pages pt) k \<and> \<not> (k div 32 = a div 32 \<and> a mod 32 \<le> k mod 32)"
        using off(1) by (simp add: pbit_and_not len fm)
      finally show ?thesis
        using off(2) range_bits(2) [OF assms(2) False, of k] by (auto simp: pbit_and_not lq lm)
    qed
    moreover have "same_vector (?q\<lparr>pages_popcnt := x, pages := y\<rparr>) pt" for x y
      using q(3-5) by (simp add: same_vector_def)
    ultimately show ?thesis using pop_ok_remove [OF q(1) off(2), of lm] unfolding eq by simp
  qed
qed

subsection \<open>The operations on whole pages\<close>

lemma same_vector_ranges: "same_vector pt' pt \<Longrightarrow> ranges pt' = ranges pt \<and> vector_ok pt' = vector_ok pt"
  by (auto simp: same_vector_def ranges_def vector_ok_def)

text \<open>Page numbers from 0x100 to 0x8FF as bit numbers, in order.\<close>

definition norm_range :: "int \<Rightarrow> int \<Rightarrow> nat \<Rightarrow> nat \<Rightarrow> bool" where
  "norm_range f l a b \<longleftrightarrow> min f l = 256 + int a \<and> max f l = 256 + int b \<and> a \<le> b \<and> b < 2048"

lemma norm_range_ex:
  assumes "0x100 \<le> f" "f \<le> 0x8FF" "0x100 \<le> l" "l \<le> 0x8FF"
  obtains a b where "norm_range f l a b"
  using assms by (intro that [of "nat (min f l) - 256" "nat (max f l) - 256"]) (auto simp: norm_range_def)

lemma norm_range_code:
  assumes "norm_range f l a b"
  shows "(if f > l then (l, f) else (f, l)) = (256 + int a, 256 + int b)" "valid_pgno_range f l"
proof -
  show "(if f > l then (l, f) else (f, l)) = (256 + int a, 256 + int b)"
    using assms by (auto simp: norm_range_def min_def max_def)
  then show "valid_pgno_range f l"
    using assms valid_pgno_eq [of a] valid_pgno_eq [of b]
    by (auto simp: norm_range_def valid_pgno_range_def split: if_splits)
qed

lemma add_pages_eq:
  assumes "norm_range f l a b" "\<not> (a = 0 \<and> b = 2047)"
  shows "vbi_page_table_add_pages ra pt f l =
    (True, add_bits a b (remove_subpages_in_page_range ra pt (256 + int a) (256 + int b)))"
  using assms(2) unfolding vbi_page_table_add_pages_def norm_range_code [OF assms(1)]
  by (auto simp: Let_def add_bits_def page_bit_eq page_offset_eq norm_range_code [OF assms(1)] split: prod.split)

lemma remove_pages_eq:
  assumes "norm_range f l a b" "\<not> (a = 0 \<and> b = 2047)"
  shows "vbi_page_table_remove_pages ra pt f l =
    (True, remove_bits a b (remove_subpages_in_page_range ra pt (256 + int a) (256 + int b)))"
  using assms(2) unfolding vbi_page_table_remove_pages_def norm_range_code [OF assms(1)]
  by (auto simp: Let_def remove_bits_def page_bit_eq page_offset_eq norm_range_code [OF assms(1)] split: prod.split)

text \<open>The set a table stands for: subpage \<open>s\<close> of page \<open>p\<close>.\<close>

definition pt_set :: "page_table \<Rightarrow> (int \<times> int) set" where
  "pt_set pt = {(p, s). 0x100 \<le> p \<and> p \<le> 0x8FF \<and> 0 \<le> s \<and> s \<le> 0x3F7E
     \<and> vbi_page_table_contains_subpage pt p s}"

definition subpage_block :: "int \<Rightarrow> int \<Rightarrow> (int \<times> int) set" where
  "subpage_block f l = {min f l..max f l} \<times> {0..0x3F7E}"

lemma pt_set_iff:
  "(256 + int k, s) \<in> pt_set pt \<longleftrightarrow> k < 2048 \<and> 0 \<le> s \<and> s \<le> 0x3F7E
     \<and> (pbit (pages pt) k \<or> (\<exists>r\<in>set (ranges pt). 256 + int k = sr_pgno r \<and> sr_first r \<le> s \<and> s \<le> sr_last r))"
  using valid_pgno_eq [of k]
  by (auto simp: pt_set_def vbi_page_table_contains_subpage_def contains_all_subpages_eq list_ex_iff)

lemma pt_set_eqI:
  assumes "\<And>k s. k < 2048 \<Longrightarrow> 0 \<le> s \<Longrightarrow> s \<le> 0x3F7E \<Longrightarrow> (256 + int k, s) \<in> A \<longleftrightarrow> (256 + int k, s) \<in> B"
    and "A \<subseteq> {0x100..0x8FF} \<times> {0..0x3F7E}" "B \<subseteq> {0x100..0x8FF} \<times> {0..0x3F7E}"
  shows "A = B"
proof (intro set_eqI, clarify)
  fix p s
  show "(p, s) \<in> A \<longleftrightarrow> (p, s) \<in> B"
  proof (cases "0x100 \<le> p \<and> p \<le> 0x8FF \<and> 0 \<le> s \<and> s \<le> 0x3F7E")
    case True
    then obtain k where "k < 2048" "p = 256 + int k" using pgno_cases by blast
    with True assms(1) show ?thesis by simp
  next
    case False
    with assms(2,3) show ?thesis by auto
  qed
qed

lemma pt_set_subset: "pt_set pt \<subseteq> {0x100..0x8FF} \<times> {0..0x3F7E}"
  by (auto simp: pt_set_def)

lemma add_pages_part:
  assumes "realloc_ok ra" "table_ok pt" "norm_range f l a b" "\<not> (a = 0 \<and> b = 2047)"
  defines "pt' \<equiv> add_bits a b (remove_subpages_in_page_range ra pt (256 + int a) (256 + int b))"
  shows "table_ok pt'" "pt_set pt' = pt_set pt \<union> subpage_block f l"
proof -
  let ?q = "remove_subpages_in_page_range ra pt (256 + int a) (256 + int b)"
  have ab: "a \<le> b" "b < 2048" "subpage_block f l = {256 + int a..256 + int b} \<times> {0..0x3F7E}"
    using assms(3) by (auto simp: norm_range_def subpage_block_def)
  have vec: "vector_ok pt" "pop_ok pt" using assms(2) by (simp_all add: table_ok_def)
  note q = remove_range_spec [OF assms(1) vec(1), of "256 + int a" "256 + int b"]
  have pq: "pop_ok ?q" using vec(2) pop_ok_cong [OF q(2,3)] by simp
  note p = add_bits_spec [OF pq ab(1,2), folded pt'_def]
  have r: "ranges pt' = ranges ?q" "vector_ok pt'"
    using p same_vector_ranges [of pt' ?q] q(4) by auto
  have bits: "k < 2048 \<Longrightarrow> pbit (pages pt') k \<longleftrightarrow> a \<le> k \<and> k \<le> b \<or> pbit (pages pt) k" for k
    using p q(2) by simp
  have "\<not> contains_all_subpages pt' (sr_pgno r)" if "r \<in> set (ranges pt')" for r
  proof -
    have rr: "r \<in> set (ranges pt)" "sr_pgno r < 256 + int a \<or> 256 + int b < sr_pgno r"
      using that by (auto simp: r q(1))
    then have "valid_range r" "\<not> contains_all_subpages pt (sr_pgno r)"
      using assms(2) by (auto simp: table_ok_def vector_ok_def)
    moreover from this obtain k where "k < 2048" "sr_pgno r = 256 + int k"
      by (auto simp: valid_range_def intro: pgno_cases)
    ultimately show ?thesis using rr(2) bits [of k] by (auto simp: contains_all_subpages_eq)
  qed
  with r p show "table_ok pt'" by (simp add: table_ok_def)
  show "pt_set pt' = pt_set pt \<union> subpage_block f l"
  proof (rule pt_set_eqI)
    show "pt_set pt \<union> subpage_block f l \<subseteq> {0x100..0x8FF} \<times> {0..0x3F7E}"
      using pt_set_subset ab by auto
  qed (use bits in \<open>auto simp: pt_set_iff r q(1) ab(3) pt_set_subset\<close>)
qed

lemma remove_pages_part:
  assumes "realloc_ok ra" "table_ok pt" "norm_range f l a b" "\<not> (a = 0 \<and> b = 2047)"
  defines "pt' \<equiv> remove_bits a b (remove_subpages_in_page_range ra pt (256 + int a) (256 + int b))"
  shows "table_ok pt'" "pt_set pt' = pt_set pt - subpage_block f l"
proof -
  let ?q = "remove_subpages_in_page_range ra pt (256 + int a) (256 + int b)"
  have ab: "a \<le> b" "b < 2048" "subpage_block f l = {256 + int a..256 + int b} \<times> {0..0x3F7E}"
    using assms(3) by (auto simp: norm_range_def subpage_block_def)
  have vec: "vector_ok pt" "pop_ok pt" using assms(2) by (simp_all add: table_ok_def)
  note q = remove_range_spec [OF assms(1) vec(1), of "256 + int a" "256 + int b"]
  have pq: "pop_ok ?q" using vec(2) pop_ok_cong [OF q(2,3)] by simp
  note p = remove_bits_spec [OF pq ab(1,2), folded pt'_def]
  have r: "ranges pt' = ranges ?q" "vector_ok pt'"
    using p same_vector_ranges [of pt' ?q] q(4) by auto
  have bits: "k < 2048 \<Longrightarrow> pbit (pages pt') k \<longleftrightarrow> pbit (pages pt) k \<and> \<not> (a \<le> k \<and> k \<le> b)" for k
    using p q(2) by simp
  have "\<not> contains_all_subpages pt' (sr_pgno r)" if "r \<in> set (ranges pt')" for r
  proof -
    have rr: "r \<in> set (ranges pt)" using that by (auto simp: r q(1))
    then have "valid_range r" "\<not> contains_all_subpages pt (sr_pgno r)"
      using assms(2) by (auto simp: table_ok_def vector_ok_def)
    moreover from this obtain k where "k < 2048" "sr_pgno r = 256 + int k"
      by (auto simp: valid_range_def intro: pgno_cases)
    ultimately show ?thesis using bits [of k] by (auto simp: contains_all_subpages_eq)
  qed
  with r p show "table_ok pt'" by (simp add: table_ok_def)
  show "pt_set pt' = pt_set pt - subpage_block f l"
  proof (rule pt_set_eqI)
    show "pt_set pt - subpage_block f l \<subseteq> {0x100..0x8FF} \<times> {0..0x3F7E}"
      using pt_set_subset by auto
  qed (use bits in \<open>auto simp: pt_set_iff r q(1) ab(3) pt_set_subset\<close>)
qed

subsection \<open>The contract of the table operations\<close>

text \<open>A set of page and subpage numbers, as its clients see it: what holds after adding or removing a range
  of pages. \<open>inv\<close> is what every operation keeps, \<open>setof\<close> the set of the pairs of page and subpage
  number it contains.\<close>

locale page_set =
  fixes inv :: "'s \<Rightarrow> bool" and setof :: "'s \<Rightarrow> (int \<times> int) set" and empty :: 's
    and contains :: "'s \<Rightarrow> int \<Rightarrow> int \<Rightarrow> bool"
    and add :: "'s \<Rightarrow> int \<Rightarrow> int \<Rightarrow> bool \<times> 's" and remove :: "'s \<Rightarrow> int \<Rightarrow> int \<Rightarrow> bool \<times> 's"
  assumes empty: "inv empty" "setof empty = {}"
    and contains: "inv s \<Longrightarrow> 0x100 \<le> p \<Longrightarrow> p \<le> 0x8FF \<Longrightarrow> 0 \<le> n \<Longrightarrow> n \<le> 0x3F7E \<Longrightarrow>
      contains s p n \<longleftrightarrow> (p, n) \<in> setof s"
    and add: "inv s \<Longrightarrow> 0x100 \<le> f \<Longrightarrow> f \<le> 0x8FF \<Longrightarrow> 0x100 \<le> l \<Longrightarrow> l \<le> 0x8FF \<Longrightarrow>
      fst (add s f l) \<and> inv (snd (add s f l)) \<and> setof (snd (add s f l)) = setof s \<union> subpage_block f l"
    and remove: "inv s \<Longrightarrow> 0x100 \<le> f \<Longrightarrow> f \<le> 0x8FF \<Longrightarrow> 0x100 \<le> l \<Longrightarrow> l \<le> 0x8FF \<Longrightarrow>
      fst (remove s f l) \<and> inv (snd (remove s f l)) \<and> setof (snd (remove s f l)) = setof s - subpage_block f l"
begin

lemma contains_add:
  assumes "inv s" "0x100 \<le> f" "f \<le> 0x8FF" "0x100 \<le> l" "l \<le> 0x8FF"
    and "0x100 \<le> p" "p \<le> 0x8FF" "0 \<le> n" "n \<le> 0x3F7E"
  shows "contains (snd (add s f l)) p n \<longleftrightarrow> min f l \<le> p \<and> p \<le> max f l \<or> contains s p n"
proof -
  have "contains (snd (add s f l)) p n \<longleftrightarrow> (p, n) \<in> setof s \<union> subpage_block f l"
    using add [OF assms(1-5)] contains [of "snd (add s f l)" p n] assms(6-9) by simp
  then show ?thesis using contains [OF assms(1,6-9)] assms(8,9) by (auto simp: subpage_block_def)
qed

lemma contains_remove:
  assumes "inv s" "0x100 \<le> f" "f \<le> 0x8FF" "0x100 \<le> l" "l \<le> 0x8FF"
    and "0x100 \<le> p" "p \<le> 0x8FF" "0 \<le> n" "n \<le> 0x3F7E"
  shows "contains (snd (remove s f l)) p n \<longleftrightarrow> contains s p n \<and> \<not> (min f l \<le> p \<and> p \<le> max f l)"
proof -
  have "contains (snd (remove s f l)) p n \<longleftrightarrow> (p, n) \<in> setof s - subpage_block f l"
    using remove [OF assms(1-5)] contains [of "snd (remove s f l)" p n] assms(6-9) by simp
  then show ?thesis using contains [OF assms(1,6-9)] assms(8,9) by (auto simp: subpage_block_def)
qed

lemma contains_empty:
  "0x100 \<le> p \<Longrightarrow> p \<le> 0x8FF \<Longrightarrow> 0 \<le> n \<Longrightarrow> n \<le> 0x3F7E \<Longrightarrow> \<not> contains empty p n"
  using contains [OF empty(1)] empty(2) by simp

end

text \<open>An allocator that always succeeds and clears new cells; it shows that the hypothesis on
  \<^verbatim>\<open>vbi_realloc\<close> can hold.\<close>

definition zero_range :: subpage_range where
  "zero_range = \<lparr>sr_pgno = 0, sr_first = 0, sr_last = 0\<rparr>"

definition calloc :: realloc where
  "calloc v n = Some (take n v @ replicate (n - length v) zero_range)"

lemma realloc_ok_calloc: "realloc_ok calloc"
  by (auto simp: realloc_ok_def calloc_def min_def)

lemma full_range: "{0x100..0x8FF} \<times> {0..0x3F7E} = subpage_block 0x100 0x8FF"
  by (simp add: subpage_block_def)

lemma pbit_replicate: "k < 2048 \<Longrightarrow> pbit (replicate 64 w) k \<longleftrightarrow> bit w (k mod 32)"
  by (simp add: pbit_def)

lemma set_all_words:
  assumes "realloc_ok ra" "table_ok pt" "c = word_of_nat 64 * popcnt w"
  defines "pt' \<equiv> (shrink_subpages_vector ra (pt\<lparr>subpages_size := 0\<rparr>))\<lparr>pages := replicate 64 w, pages_popcnt := c\<rparr>"
  shows "table_ok pt'" "pages pt' = replicate 64 w" "ranges pt' = []"
proof -
  have "length (subpages (pt\<lparr>subpages_size := 0\<rparr>)) = subpages_capacity (pt\<lparr>subpages_size := 0\<rparr>)"
    using assms(2) by (simp add: table_ok_def vector_ok_def)
  note s = shrink_subpages_vector_spec [OF assms(1) this]
  have r: "ranges (shrink_subpages_vector ra (pt\<lparr>subpages_size := 0\<rparr>)) = []"
    using s(1) by (simp add: ranges_def)
  then show "ranges pt' = []" by (simp add: pt'_def)
  then show "table_ok pt'"
    using s(5,6) assms(3) by (simp add: pt'_def table_ok_def vector_ok_def pop_ok_def sum_list_replicate)
  show "pages pt' = replicate 64 w" by (simp add: pt'_def)
qed

lemma add_pages_spec:
  assumes "realloc_ok ra" "table_ok pt" "0x100 \<le> f" "f \<le> 0x8FF" "0x100 \<le> l" "l \<le> 0x8FF"
  shows "fst (vbi_page_table_add_pages ra pt f l) \<and> table_ok (snd (vbi_page_table_add_pages ra pt f l))
    \<and> pt_set (snd (vbi_page_table_add_pages ra pt f l)) = pt_set pt \<union> subpage_block f l"
proof -
  obtain a b where ab: "norm_range f l a b" using norm_range_ex [OF assms(3-6)] .
  show ?thesis
  proof (cases "a = 0 \<and> b = 2047")
    case True
    have e: "vbi_page_table_add_pages ra pt f l = (True, (shrink_subpages_vector ra (pt\<lparr>subpages_size := 0\<rparr>))
        \<lparr>pages := replicate 64 (- 1), pages_popcnt := 0x800\<rparr>)"
      using True unfolding vbi_page_table_add_pages_def norm_range_code [OF ab] by (simp add: Let_def norm_range_code [OF ab])
    have "(0x800 :: u32) = word_of_nat 64 * popcnt (- 1)" by simp
    note w = set_all_words [OF assms(1,2) this]
    have "subpage_block f l = {0x100..0x8FF} \<times> {0..0x3F7E}"
      using ab True by (simp add: norm_range_def subpage_block_def)
    moreover have "pt_set (snd (vbi_page_table_add_pages ra pt f l)) = {0x100..0x8FF} \<times> {0..0x3F7E}"
      unfolding e snd_conv
      by (rule pt_set_eqI) (auto simp: pt_set_iff w pbit_replicate bit_minus_1_iff pt_set_subset)
    ultimately show ?thesis using w(1) pt_set_subset unfolding e by auto
  next
    case False
    show ?thesis
      using add_pages_part [OF assms(1,2) ab False] by (simp add: add_pages_eq [OF ab False])
  qed
qed

lemma remove_pages_spec:
  assumes "realloc_ok ra" "table_ok pt" "0x100 \<le> f" "f \<le> 0x8FF" "0x100 \<le> l" "l \<le> 0x8FF"
  shows "fst (vbi_page_table_remove_pages ra pt f l) \<and> table_ok (snd (vbi_page_table_remove_pages ra pt f l))
    \<and> pt_set (snd (vbi_page_table_remove_pages ra pt f l)) = pt_set pt - subpage_block f l"
proof -
  obtain a b where ab: "norm_range f l a b" using norm_range_ex [OF assms(3-6)] .
  show ?thesis
  proof (cases "a = 0 \<and> b = 2047")
    case True
    have e: "vbi_page_table_remove_pages ra pt f l = (True, (shrink_subpages_vector ra (pt\<lparr>subpages_size := 0\<rparr>))
        \<lparr>pages := replicate 64 0, pages_popcnt := 0\<rparr>)"
      using True unfolding vbi_page_table_remove_pages_def norm_range_code [OF ab] by (simp add: Let_def norm_range_code [OF ab])
    have "(0 :: u32) = word_of_nat 64 * popcnt 0" by simp
    note w = set_all_words [OF assms(1,2) this]
    have "subpage_block f l = {0x100..0x8FF} \<times> {0..0x3F7E}"
      using ab True by (simp add: norm_range_def subpage_block_def)
    moreover have "pt_set (snd (vbi_page_table_remove_pages ra pt f l)) = {}"
      unfolding e snd_conv
      by (rule pt_set_eqI) (auto simp: pt_set_iff w w(3) [simplified] pbit_replicate pt_set_subset)
    ultimately show ?thesis using w(1) pt_set_subset [of pt] unfolding e by auto
  next
    case False
    show ?thesis
      using remove_pages_part [OF assms(1,2) ab False] by (simp add: remove_pages_eq [OF ab False])
  qed
qed

lemma table_ok_new: "table_ok vbi_page_table_new" "pt_set vbi_page_table_new = {}"
proof -
  show "table_ok vbi_page_table_new"
    by (simp add: vbi_page_table_new_def table_ok_def pop_ok_def vector_ok_def ranges_def
        sum_list_replicate)
  show "pt_set vbi_page_table_new = {}"
    by (rule pt_set_eqI)
      (auto simp: pt_set_iff vbi_page_table_new_def ranges_def pbit_replicate pt_set_subset)
qed

lemma contains_subpage_iff_pt_set:
  "0x100 \<le> p \<Longrightarrow> p \<le> 0x8FF \<Longrightarrow> 0 \<le> n \<Longrightarrow> n \<le> 0x3F7E \<Longrightarrow>
     vbi_page_table_contains_subpage pt p n \<longleftrightarrow> (p, n) \<in> pt_set pt"
  by (simp add: pt_set_def)

text \<open>The laws hold for every allocator that behaves as \<^verbatim>\<open>realloc\<close> is documented to.\<close>

locale c_realloc =
  fixes ra :: realloc
  assumes ra: "realloc_ok ra"

sublocale c_realloc < pt: page_set table_ok pt_set vbi_page_table_new vbi_page_table_contains_subpage
  "vbi_page_table_add_pages ra" "vbi_page_table_remove_pages ra"
  by unfold_locales
    (use table_ok_new contains_subpage_iff_pt_set add_pages_spec [OF ra] remove_pages_spec [OF ra] in blast)+

interpretation calloc: c_realloc calloc
  by unfold_locales (rule realloc_ok_calloc)

subsection \<open>Counting pages\<close>

lemma sum_div_mod_32:
  fixes g :: "nat \<Rightarrow> nat \<Rightarrow> nat"
  shows "(\<Sum>j<64. \<Sum>n<32. g j n) = (\<Sum>k<2048. g (k div 32) (k mod 32))"
proof -
  have "(\<Sum>n<32. g j n) = sum (\<lambda>k. g (k div 32) (k mod 32)) {j * 32..<j * 32 + 32}" for j
    by (rule sum.reindex_bij_witness [where i = "\<lambda>k. k - j * 32" and j = "\<lambda>n. j * 32 + n"]) auto
  then show ?thesis using sum.nat_group [of "\<lambda>k. g (k div 32) (k mod 32)" 32 64] by simp
qed

lemma sum_list_popcnt_card:
  assumes "length ps = 64"
  shows "sum_list (map popcnt ps) = word_of_nat (card {k. k < 2048 \<and> pbit ps k})"
proof -
  have "sum_list (map popcnt ps) = (\<Sum>j<64. popcnt (ps ! j))"
    by (simp add: sum_list_sum_nth assms atLeast0LessThan)
  also have "\<dots> = word_of_nat (\<Sum>j<64. \<Sum>n<32. of_bool (bit (ps ! j) n))"
    by (simp add: popcnt_def)
  also have "(\<Sum>j<64. \<Sum>n<32. of_bool (bit (ps ! j) n) :: nat) = (\<Sum>k<2048. of_bool (pbit ps k))"
    unfolding pbit_def by (rule sum_div_mod_32)
  also have "\<dots> = card {k. k < 2048 \<and> pbit ps k}"
    by (simp add: of_bool_def sum.If_cases Int_def lessThan_def)
  finally show ?thesis .
qed

subsection \<open>Iteration over the pages\<close>

lemma ffs_bit:
  assumes "x \<noteq> 0"
  obtains n where "ffs x = Suc n" "n < 32" "bit x n" "\<And>i. i < n \<Longrightarrow> \<not> bit x i"
proof -
  have "\<exists>n<32. bit x n"
    using assms bit_imp_le_length [of x] by (auto simp: bit_eq_iff)
  then obtain n where n: "find (bit x) [0..<32] = Some n"
    by (cases "find (bit x) [0..<32]") (auto simp: find_None_iff)
  then obtain k where k: "k < 32" "bit x ([0..<32] ! k)" "n = [0..<32] ! k" "\<forall>j<k. \<not> bit x ([0..<32] ! j)"
    by (auto simp: find_Some_iff)
  then show thesis using n by (intro that [of n]) (auto simp: ffs_def)
qed

definition word_from :: "u32 list \<Rightarrow> u32 \<Rightarrow> nat \<Rightarrow> nat \<Rightarrow> u32" where
  "word_from ps m off j = (if j = off then m else ps ! j)"

lemma next_mask_loop_spec:
  assumes "off < 64"
  shows "case next_mask_loop ps m off (256 + 32 * int off) of
      None \<Rightarrow> \<forall>j. off \<le> j \<and> j < 64 \<longrightarrow> word_from ps m off j = 0
    | Some (m', q) \<Rightarrow> \<exists>j. off \<le> j \<and> j < 64 \<and> q = 256 + 32 * int j \<and> m' \<noteq> 0
        \<and> m' = word_from ps m off j \<and> (\<forall>i. off \<le> i \<and> i < j \<longrightarrow> word_from ps m off i = 0)"
  using assms
proof (induction "63 - off" arbitrary: off m)
  case 0
  then have "off = 63" by simp
  then show ?case
    by (subst next_mask_loop.simps) (auto simp: word_from_def intro: exI [of _ 63] le_antisym)
next
  case (Suc d)
  show ?case
  proof (cases "m = 0")
    case False
    then show ?thesis
      using Suc.prems by (subst next_mask_loop.simps) (auto simp: word_from_def intro: exI [of _ off])
  next
    case True
    have eq: "next_mask_loop ps m off (256 + 32 * int off)
        = next_mask_loop ps (ps ! Suc off) (Suc off) (256 + 32 * int (Suc off))"
      using True Suc.hyps(2) by (subst next_mask_loop.simps) (auto simp: algebra_simps)
    have w: "word_from ps m off j = (if j = off then 0 else word_from ps (ps ! Suc off) (Suc off) j)" for j
      using True by (auto simp: word_from_def)
    let ?r = "next_mask_loop ps (ps ! Suc off) (Suc off) (256 + 32 * int (Suc off))"
    have d: "d = 63 - Suc off" "Suc off < 64" using Suc.hyps(2) by simp_all
    note ih = Suc.hyps(1) [OF d, of "ps ! Suc off"]
    show ?thesis
    proof (cases ?r)
      case None
      have "word_from ps m off j = 0" if "off \<le> j" "j < 64" for j
        using ih [unfolded None] that unfolding w by (cases "j = off") auto
      then show ?thesis unfolding eq None by simp
    next
      case (Some p)
      obtain m' q where p: "p = (m', q)" by (cases p)
      from ih [unfolded Some p] obtain j where j: "Suc off \<le> j" "j < 64" "q = 256 + 32 * int j" "m' \<noteq> 0"
        "m' = word_from ps (ps ! Suc off) (Suc off) j"
        "\<forall>i. Suc off \<le> i \<and> i < j \<longrightarrow> word_from ps (ps ! Suc off) (Suc off) i = 0"
        by auto
      have "word_from ps m off i = 0" if "off \<le> i" "i < j" for i
        using j(6) that unfolding w by (cases "i = off") auto
      then have "\<exists>j. off \<le> j \<and> j < 64 \<and> q = 256 + 32 * int j \<and> m' \<noteq> 0
          \<and> m' = word_from ps m off j \<and> (\<forall>i. off \<le> i \<and> i < j \<longrightarrow> word_from ps m off i = 0)"
        using j(1-5) by (intro exI [of _ j]) (auto simp: w)
      then show ?thesis unfolding eq Some p by simp
    qed
  qed
qed

lemma int_and_not_31: "x AND NOT 31 = x - x mod 32" for x :: int
proof -
  have "(x AND NOT 31) OR (x AND 31) = x" by (rule bit_eqI) (auto simp: bit_simps)
  moreover have "(x AND NOT 31) AND (x AND 31) = 0" by (rule bit_eqI) (auto simp: bit_simps)
  ultimately have "(x AND NOT 31) + (x AND 31) = x" by (metis disjunctive_add_eq_or)
  then show ?thesis by (simp add: int_and_31)
qed

lemma page_align: "(256 + int a) AND NOT 31 = 256 + 32 * int (a div 32)"
proof -
  have "(256 + int a) mod 32 = int (a mod 32)"
    using mod_mult_self1 [of "int a" 8 32] by (simp add: zmod_int add.commute)
  moreover have "int a = 32 * int (a div 32) + int (a mod 32)" 
    using div_mult_mod_eq [of "int a" 32] by (simp add: zdiv_int zmod_int)
  ultimately show ?thesis by (simp only: int_and_not_31)
qed

lemma min_range_Nil: "ranges pt = [] \<Longrightarrow> min_range pt n = (0x900, 0)"
  by (simp add: min_range_def)

lemma next_page_from_spec:
  assumes "ranges pt = []" "a < 2048"
  shows "case next_page_from pt (256 + int a) old of
      (True, p, s) \<Rightarrow> s = VBI_ANY_SUBNO \<and> (\<exists>k. p = 256 + int k \<and> a \<le> k \<and> k < 2048 \<and> pbit (pages pt) k
          \<and> (\<forall>i. a \<le> i \<and> i < k \<longrightarrow> \<not> pbit (pages pt) i))
    | (False, ps) \<Rightarrow> ps = old \<and> (\<forall>k. a \<le> k \<and> k < 2048 \<longrightarrow> \<not> pbit (pages pt) k)"
proof -
  define off where "off = a div 32"
  define m where "m = push_bit (a mod 32) (- 1) AND pages pt ! off"
  have m: "bit m n \<longleftrightarrow> a mod 32 \<le> n \<and> n < 32 \<and> bit (pages pt ! off) n" for n
    unfolding m_def bit_and_iff bit_first_mask by blast
  have off: "off < 64" using assms(2) by (simp add: off_def)
  have w: "bit (word_from (pages pt) m off (k div 32)) (k mod 32) = pbit (pages pt) k" if "a \<le> k" for k
  proof (cases "k div 32 = off")
    case True
    then have "a mod 32 \<le> k mod 32"
      using that div_mult_mod_eq [of a 32] div_mult_mod_eq [of k 32] unfolding off_def by linarith
    then show ?thesis using True by (simp add: word_from_def m pbit_def)
  qed (simp add: word_from_def pbit_def)
  have off_le: "off \<le> k div 32" if "a \<le> k" for k using that by (simp add: off_def div_le_mono)
  let ?l = "next_mask_loop (pages pt) m off (256 + 32 * int off)"
  note l = next_mask_loop_spec [OF off, of "pages pt" m]
  have e: "next_page_from pt (256 + int a) old = (case ?l of None \<Rightarrow> (False, old)
      | Some (m', q) \<Rightarrow> (if 0x900 < q + int (ffs m') - 1 then (True, 0x900, 0)
          else (True, q + int (ffs m') - 1, VBI_ANY_SUBNO)))"
    unfolding next_page_from_def min_range_Nil [OF assms(1)] Let_def prod.case page_align page_bit_eq
      page_offset_eq m_def off_def by (rule refl)
  show ?thesis
  proof (cases ?l)
    case None
    have "\<not> pbit (pages pt) k" if "a \<le> k" "k < 2048" for k
    proof -
      have "word_from (pages pt) m off (k div 32) = 0" using l None off_le [OF that(1)] that(2) by simp
      then show ?thesis using w [OF that(1)] by simp
    qed
    then show ?thesis unfolding e None by simp
  next
    case (Some x)
    then obtain m' q where s: "?l = Some (m', q)" by (cases x) simp
    from l obtain j where j: "off \<le> j" "j < 64" "q = 256 + 32 * int j" "m' \<noteq> 0"
      "m' = word_from (pages pt) m off j" "\<forall>i. off \<le> i \<and> i < j \<longrightarrow> word_from (pages pt) m off i = 0"
      unfolding s by auto
    obtain n where n: "ffs m' = Suc n" "n < 32" "bit m' n" "\<And>i. i < n \<Longrightarrow> \<not> bit m' i" 
      using ffs_bit [OF j(4)] by blast
    define k where "k = 32 * j + n"
    have k: "k div 32 = j" "k mod 32 = n" "k < 2048" using n(2) j(2) by (simp_all add: k_def)
    have ak: "a \<le> k"
    proof (cases "j = off")
      case True
      then have "a mod 32 \<le> n" using n(3) by (simp add: j(5) word_from_def m)
      then show ?thesis using True div_mult_mod_eq [of a 32] unfolding k_def off_def by linarith
    next
      case False
      then have "Suc (a div 32) \<le> j" using j(1) by (simp add: off_def)
      then show ?thesis using div_mult_mod_eq [of a 32] mod_less_divisor [of 32 a] unfolding k_def by linarith
    qed
    have "pbit (pages pt) k" using w [OF ak] n(3) by (simp add: k j(5))
    moreover have "\<not> pbit (pages pt) i" if "a \<le> i" "i < k" for i
    proof -
      have "i div 32 \<le> j" using div_le_mono [of i k 32] that(2) by (simp add: k(1))
      moreover have "i div 32 = j \<Longrightarrow> i mod 32 < n"
        using that(2) div_mult_mod_eq [of i 32] unfolding k_def by linarith
      ultimately consider "i div 32 < j" | "i div 32 = j \<and> i mod 32 < n" by linarith
      then show ?thesis
        using w [OF that(1)] off_le [OF that(1)] j(5,6) n(4) by cases auto
    qed
    ultimately have "\<exists>k'. q + int (ffs m') - 1 = 256 + int k' \<and> a \<le> k' \<and> k' < 2048 \<and> pbit (pages pt) k'
        \<and> (\<forall>i. a \<le> i \<and> i < k' \<longrightarrow> \<not> pbit (pages pt) i)"
      using ak k(3) by (intro exI [of _ k]) (simp add: n(1) j(3) k_def)
    moreover have "\<not> 0x900 < q + int (ffs m') - 1" using j(2,3) n(1,2) by simp
    ultimately show ?thesis unfolding e s by simp
  qed
qed

context c_realloc
begin

lemma add_remove_laws:
  assumes "table_ok s" "0x100 \<le> f" "f \<le> 0x8FF" "0x100 \<le> l" "l \<le> 0x8FF"
    and "0x100 \<le> p" "p \<le> 0x8FF" "0 \<le> n" "n \<le> 0x3F7E"
  shows "fst (vbi_page_table_add_pages ra s f l) \<and> table_ok (snd (vbi_page_table_add_pages ra s f l))
    \<and> fst (vbi_page_table_remove_pages ra s f l) \<and> table_ok (snd (vbi_page_table_remove_pages ra s f l))
    \<and> vbi_page_table_contains_subpage (snd (vbi_page_table_add_pages ra s f l)) p n
        = (min f l \<le> p \<and> p \<le> max f l \<or> vbi_page_table_contains_subpage s p n)
    \<and> vbi_page_table_contains_subpage (snd (vbi_page_table_remove_pages ra s f l)) p n
        = (vbi_page_table_contains_subpage s p n \<and> \<not> (min f l \<le> p \<and> p \<le> max f l))"
  using pt.add [OF assms(1-5)] pt.remove [OF assms(1-5)] pt.contains_add [OF assms] pt.contains_remove [OF assms]
  by blast

end

subsection \<open>All displayable pages\<close>

lemma bit_displayable_mask: "n < 32 \<Longrightarrow> bit (0x03FF03FF :: u32) n \<longleftrightarrow> n mod 16 \<le> 9"
proof -
  have "list_all (\<lambda>n. bit (0x03FF03FF :: u32) n \<longleftrightarrow> n mod 16 \<le> 9) [0..<32]" by code_simp
  then show "n < 32 \<Longrightarrow> bit (0x03FF03FF :: u32) n \<longleftrightarrow> n mod 16 \<le> 9" by (simp add: list_all_iff)
qed

definition displayable_word :: "nat \<Rightarrow> (int \<times> int) set" where
  "displayable_word j = {(p, s). p \<in> (\<lambda>n. 256 + int (32 * j + n)) ` {n. n < 32 \<and> n mod 16 \<le> 9}
     \<and> 0 \<le> s \<and> s \<le> 0x3F7E}"

lemma displayable_word_iff:
  "(256 + int k, s) \<in> displayable_word j \<longleftrightarrow> k div 32 = j \<and> k mod 32 mod 16 \<le> 9 \<and> 0 \<le> s \<and> s \<le> 0x3F7E"
proof -
  have "(\<exists>n<32. n mod 16 \<le> 9 \<and> k = 32 * j + n) \<longleftrightarrow> k div 32 = j \<and> k mod 32 mod 16 \<le> 9"
    using div_mult_mod_eq [of k 32] by (auto intro!: exI [of _ "k mod 32"])
  then show ?thesis by (auto simp: displayable_word_def image_iff)
qed

lemma mod_16_le_9: "n < 32 \<Longrightarrow> n mod 16 \<le> 9 \<longleftrightarrow> n \<le> 9 \<or> 16 \<le> n \<and> n \<le> 25" for n :: nat
  by (cases "n < 16") (auto simp: not_less le_mod_geq)

lemma displayable_block:
  "k div 32 = j \<and> k mod 32 mod 16 \<le> 9 \<longleftrightarrow>
     32 * j \<le> k \<and> k \<le> 32 * j + 9 \<or> 32 * j + 16 \<le> k \<and> k \<le> 32 * j + 25" for k j :: nat
proof -
  define c z where d: "c = k div 32" "z = k mod 32"
  have k: "k = 32 * c + z" "z < 32" by (simp_all add: d)
  have "c = j \<and> (z \<le> 9 \<or> 16 \<le> z \<and> z \<le> 25) \<longleftrightarrow>
     32 * j \<le> k \<and> k \<le> 32 * j + 9 \<or> 32 * j + 16 \<le> k \<and> k \<le> 32 * j + 25"
    using k(2) unfolding k(1) by (cases "c = j"; cases "c < j") auto
  then show ?thesis unfolding d [symmetric] mod_16_le_9 [OF k(2)] .
qed

lemma valid_range_pgno: "valid_range r \<Longrightarrow> \<exists>k<2048. sr_pgno r = 256 + int k"
  by (rule exI [of _ "nat (sr_pgno r - 256)"]) (auto simp: valid_range_def)

lemma add_displayable_word_spec:
  assumes "realloc_ok ra" "table_ok pt" "j < 64" "pgno = 256 + int (32 * j)"
  defines "pt' \<equiv> add_displayable_word ra pgno pt"
  shows "table_ok pt' \<and> pt_set pt' = pt_set pt \<union> displayable_word j"
proof -
  let ?q1 = "remove_subpages_in_page_range ra pt (pgno + 0x00) (pgno + 0x09)"
  let ?q = "remove_subpages_in_page_range ra ?q1 (pgno + 0x10) (pgno + 0x19)"
  have vec: "vector_ok pt" "pop_ok pt" using assms(2) by (simp_all add: table_ok_def)
  note q1 = remove_range_spec [OF assms(1) vec(1), of "pgno + 0x00" "pgno + 0x09"]
  note q = remove_range_spec [OF assms(1) q1(4), of "pgno + 0x10" "pgno + 0x19"]
  have pq: "pop_ok ?q" using vec(2) pop_ok_cong [of ?q pt] q(2,3) q1(2,3) by simp
  have len: "length (pages ?q) = 64" using pq by (simp add: pop_ok_def)
  have pt': "pt' = ?q\<lparr>pages_popcnt := pages_popcnt ?q + popcnt (0x03FF03FF AND NOT (pages ?q ! j)),
      pages := (pages ?q)[j := 0x03FF03FF OR pages ?q ! j]\<rparr>"
    using page_offset_eq [of "32 * j"] unfolding pt'_def add_displayable_word_def assms(4) Let_def by simp
  have pop: "pop_ok pt'" unfolding pt' by (rule pop_ok_add [OF pq assms(3)])
  have bits: "pbit (pages pt') k \<longleftrightarrow> k div 32 = j \<and> k mod 32 mod 16 \<le> 9 \<or> pbit (pages pt) k" for k
    using pbit_or [of j "pages ?q" "0x03FF03FF" k] len assms(3) q(2) q1(2) bit_displayable_mask [of "k mod 32"]
    by (simp add: pt')
  have r: "ranges pt' = ranges ?q" "vector_ok pt'" using q(4) by (simp_all add: pt')
  have rng: "r \<in> set (ranges pt') \<longleftrightarrow> r \<in> set (ranges pt) \<and> \<not> (\<exists>s. (sr_pgno r, s) \<in> displayable_word j)"
    if vr: "valid_range r" for r
  proof -
    obtain k where k: "sr_pgno r = 256 + int k" using valid_range_pgno [OF vr] by blast
    have "(\<exists>s. (sr_pgno r, s) \<in> displayable_word j) \<longleftrightarrow> k div 32 = j \<and> k mod 32 mod 16 \<le> 9"
      unfolding k displayable_word_iff by auto
    also have "\<dots> \<longleftrightarrow> 32 * j \<le> k \<and> k \<le> 32 * j + 9 \<or> 32 * j + 16 \<le> k \<and> k \<le> 32 * j + 25"
      by (rule displayable_block)
    finally show ?thesis
      unfolding r(1) q(1) q1(1) by (auto simp: k assms(4) not_le not_less)
  qed
  have val: "valid_range r" if "r \<in> set (ranges pt')" for r
    using that r(2) by (simp add: vector_ok_def)
  have valp: "valid_range r" "\<not> contains_all_subpages pt (sr_pgno r)" if "r \<in> set (ranges pt)" for r
    using that assms(2) by (auto simp: table_ok_def vector_ok_def)
  have "\<not> contains_all_subpages pt' (sr_pgno r)" if m: "r \<in> set (ranges pt')" for r
  proof -
    from rng [OF val [OF m]] m have a: "r \<in> set (ranges pt)" "(sr_pgno r, 0) \<notin> displayable_word j" by auto
    obtain k where k: "sr_pgno r = 256 + int k" using valid_range_pgno [OF val [OF m]] by blast
    show ?thesis using a(2) valp(2) [OF a(1)] bits [of k] by (simp add: k contains_all_subpages_eq displayable_word_iff)
  qed
  with pop r(2) have ok: "table_ok pt'" by (simp add: table_ok_def)
  have "pt_set pt' = pt_set pt \<union> displayable_word j"
  proof (rule pt_set_eqI)
    fix k :: nat and s :: int
    assume ks: "k < 2048" "0 \<le> s" "s \<le> 0x3F7E"
    show "(256 + int k, s) \<in> pt_set pt' \<longleftrightarrow> (256 + int k, s) \<in> pt_set pt \<union> displayable_word j"
    proof (cases "k div 32 = j \<and> k mod 32 mod 16 \<le> 9")
      case True
      then show ?thesis using ks by (simp add: pt_set_iff bits displayable_word_iff)
    next
      case False
      then have no: "\<not> (\<exists>s. (256 + int k, s) \<in> displayable_word j)" by (auto simp: displayable_word_iff)
      have same: "r \<in> set (ranges pt') \<longleftrightarrow> r \<in> set (ranges pt)" if p: "256 + int k = sr_pgno r" for r
        using rng [of r] val [of r] valp(1) [of r] no unfolding p by (cases "valid_range r") blast+
      have "(\<exists>r\<in>set (ranges pt'). 256 + int k = sr_pgno r \<and> sr_first r \<le> s \<and> s \<le> sr_last r) \<longleftrightarrow>
          (\<exists>r\<in>set (ranges pt). 256 + int k = sr_pgno r \<and> sr_first r \<le> s \<and> s \<le> sr_last r)"
        using same by blast
      with False no ks show ?thesis by (auto simp: pt_set_iff bits)
    qed
  next
    show "pt_set pt \<union> displayable_word j \<subseteq> {0x100..0x8FF} \<times> {0..0x3F7E}"
      using pt_set_subset assms(3) by (auto simp: displayable_word_def)
  qed (rule pt_set_subset)
  with ok show ?thesis by blast
qed

lemma fold_displayable:
  assumes "realloc_ok ra" "\<forall>j\<in>set js. j < 64" "table_ok pt"
  shows "table_ok (fold (\<lambda>j. add_displayable_word ra (256 + int (32 * j))) js pt)
    \<and> pt_set (fold (\<lambda>j. add_displayable_word ra (256 + int (32 * j))) js pt)
      = pt_set pt \<union> (\<Union>j\<in>set js. displayable_word j)"
  using assms(2,3)
proof (induction js arbitrary: pt)
  case (Cons j js)
  note w = add_displayable_word_spec [OF assms(1) Cons.prems(2) _ refl, of j]
  show ?case using Cons.IH [of "add_displayable_word ra (256 + int (32 * j)) pt"] Cons.prems(1) w by auto
qed simp

definition displayable_words :: "nat list" where
  "displayable_words = concat (map (\<lambda>mag. map (\<lambda>k. 8 * (mag - 1) + k) [0..<5]) [1..<9])"

lemma fold_fold: "fold (\<lambda>m. fold g (h m)) ms x = fold g (concat (map h ms)) x"
  by (induction ms arbitrary: x) simp_all

lemma add_all_displayable_fold:
  "vbi_page_table_add_all_displayable_pages ra pt =
     fold (\<lambda>j. add_displayable_word ra (256 + int (32 * j))) displayable_words pt"
proof -
  have i: "fold (\<lambda>k. add_displayable_word ra (0x100 * int mag + 0x20 * int k)) [0..<5] x =
      fold (\<lambda>j. add_displayable_word ra (256 + int (32 * j))) (map (\<lambda>k. 8 * (mag - 1) + k) [0..<5]) x"
    if "mag \<in> set [1..<9]" for mag x
  proof -
    have "0x100 * int mag + 0x20 * int k = 256 + int (32 * (8 * (mag - 1) + k))" for k
      using that by (simp add: of_nat_diff)
    then show ?thesis by (simp only: fold_map comp_def)
  qed
  have "vbi_page_table_add_all_displayable_pages ra pt =
    fold (\<lambda>mag. fold (\<lambda>j. add_displayable_word ra (256 + int (32 * j))) (map (\<lambda>k. 8 * (mag - 1) + k) [0..<5]))
      [1..<9] pt"
    unfolding vbi_page_table_add_all_displayable_pages_def 
    by (rule fold_cong [OF refl refl], rule ext, rule i)
  then show ?thesis by (simp only: fold_fold displayable_words_def)
qed

lemma displayable_words_iff:
  "(\<exists>j\<in>set displayable_words. k div 32 = j \<and> k mod 32 mod 16 \<le> 9) \<longleftrightarrow>
     k < 2048 \<and> k mod 16 \<le> 9 \<and> k div 16 mod 16 \<le> 9"
proof -
  have "set displayable_words = {j. j < 64 \<and> j mod 8 < 5}"
  proof -
    have "list_all (\<lambda>j. (j \<in> set displayable_words) = (j mod 8 < 5)) [0..<64] \<and> list_all (\<lambda>j. j < 64) displayable_words"
      by code_simp
    then show ?thesis by (auto simp: list_all_iff)
  qed
  moreover have "k mod 32 mod 16 = k mod 16" by (simp add: mod_mod_cancel)
  moreover have "k div 32 mod 8 < 5 \<longleftrightarrow> k div 16 mod 16 \<le> 9"
  proof -
    have "k div 32 = k div 16 div 2" by (simp add: div_mult2_eq [symmetric])
    moreover have "x div 2 mod 8 < 5 \<longleftrightarrow> x mod 16 \<le> 9" for x :: nat by presburger
    ultimately show ?thesis by simp
  qed
  moreover have "k div 32 < 64 \<longleftrightarrow> k < 2048" by (simp add: div_less_iff_less_mult)
  ultimately show ?thesis by auto
qed

subsection \<open>Properties\<close>

text \<open>C6: \<^verbatim>\<open>vbi_page_table_add_pages\<close> and \<^verbatim>\<open>vbi_page_table_remove_pages\<close> on a well-formed table and
  valid page numbers succeed, keep the table well-formed (the counter equals the number of bits, no
  page of the bitmap has a subpage range, the ranges lie in the allocated vector), and afterwards the
  table contains exactly the subpages it contained before and all subpages of the pages of the
  range, in either order of the bounds, respectively all it contained but those.\<close>

theorem page_table_add_remove_pages:
  assumes "realloc_ok ra" "table_ok pt" "0x100 \<le> f" "f \<le> 0x8FF" "0x100 \<le> l" "l \<le> 0x8FF"
    and "0x100 \<le> p" "p \<le> 0x8FF" "0 \<le> n" "n \<le> 0x3F7E"
  shows "fst (vbi_page_table_add_pages ra pt f l) \<and> table_ok (snd (vbi_page_table_add_pages ra pt f l))
    \<and> fst (vbi_page_table_remove_pages ra pt f l) \<and> table_ok (snd (vbi_page_table_remove_pages ra pt f l))
    \<and> vbi_page_table_contains_subpage (snd (vbi_page_table_add_pages ra pt f l)) p n
        = (min f l \<le> p \<and> p \<le> max f l \<or> vbi_page_table_contains_subpage pt p n)
    \<and> vbi_page_table_contains_subpage (snd (vbi_page_table_remove_pages ra pt f l)) p n
        = (vbi_page_table_contains_subpage pt p n \<and> \<not> (min f l \<le> p \<and> p \<le> max f l))"
  using c_realloc.add_remove_laws [OF c_realloc.intro [OF assms(1)] assms(2-10)] by blast

theorem page_table_add_remove_pages_witness:
  "fst (vbi_page_table_add_pages calloc vbi_page_table_new 0x1F0 0x103)
    \<and> vbi_page_table_contains_subpage (snd (vbi_page_table_add_pages calloc vbi_page_table_new 0x1F0 0x103)) 0x150 3
    \<and> \<not> vbi_page_table_contains_subpage (snd (vbi_page_table_remove_pages calloc vbi_page_table_new 0x1F0 0x103)) 0x150 3"
  using page_table_add_remove_pages [OF realloc_ok_calloc table_ok_new(1),
      where f = "0x1F0" and l = "0x103" and p = "0x150" and n = 3]
  by (simp add: min_def max_def)

text \<open>Page numbers outside 0x100 to 0x8FF are refused: both operations then return FALSE and leave the
  table as it was, and no query finds such a page.\<close>

theorem page_table_invalid_pgno:
  assumes "\<not> valid_pgno f \<or> \<not> valid_pgno l"
  shows "vbi_page_table_add_pages ra pt f l = (False, pt) \<and> vbi_page_table_remove_pages ra pt f l = (False, pt)
    \<and> \<not> (vbi_page_table_contains_subpage pt f n \<and> vbi_page_table_contains_subpage pt l n)"
  using assms
  by (auto simp: vbi_page_table_add_pages_def vbi_page_table_remove_pages_def valid_pgno_range_def
      vbi_page_table_contains_subpage_def)

theorem page_table_invalid_pgno_witness:
  "vbi_page_table_add_pages calloc vbi_page_table_new 0x100 0x900 = (False, vbi_page_table_new)
    \<and> vbi_page_table_remove_pages calloc vbi_page_table_new 0x100 0x900 = (False, vbi_page_table_new)
    \<and> \<not> (vbi_page_table_contains_subpage vbi_page_table_new 0x100 0
        \<and> vbi_page_table_contains_subpage vbi_page_table_new 0x900 0)"
  by (rule page_table_invalid_pgno) (simp add: valid_pgno_def)





text \<open>C8: A subpage cannot be added to a table whose subpage vector has no capacity, as in a new table: the
  capacity is extended to the smaller of the needed capacity and twice the old one, which is zero. Either
  the allocation of zero cells fails and the function returns FALSE, or it writes outside the vector.
  Removing a part of the subpages of a page that is in the table fails in the same way.\<close>

lemma valid_subno_eq: "0 \<le> s \<Longrightarrow> s \<le> MAX_SUBNO \<Longrightarrow> \<not> (word_of_int s :: u32) > 0x3F7E"
  by (simp add: word_less_def uint_word_of_int)

theorem page_table_no_subpages:
  assumes "table_ok pt" "subpages_capacity pt = 0" "realloc_ok ra"
    and "0x100 \<le> p" "p \<le> 0x8FF" "0 \<le> f" "f \<le> MAX_SUBNO" "0 \<le> l" "l \<le> MAX_SUBNO"
  shows "(\<not> vbi_page_table_contains_page pt p \<longrightarrow>
      vbi_page_table_add_subpages ra pt p f l = (if ra [] 0 = None then Some (False, pt) else None))
    \<and> (vbi_page_table_contains_all_subpages pt p \<longrightarrow> \<not> (min f l = 0 \<and> max f l = MAX_SUBNO) \<longrightarrow>
      vbi_page_table_remove_subpages ra pt p f l = (if ra [] 0 = None then Some (False, pt) else None))"
proof -
  have e: "subpages pt = []" "subpages_size pt = 0" "ranges pt = []"
    using assms(1,2) by (auto simp: table_ok_def vector_ok_def ranges_def)
  obtain k where k: "k < 2048" "p = 256 + int k" using assms(4,5) by (rule pgno_cases)
  have any: "\<not> (VBI_ANY_SUBNO = f \<and> VBI_ANY_SUBNO = l)" using assms(7) by simp
  have v: "valid_pgno p" using valid_pgno_eq k by simp
  have vr: "valid_subpage_range p f l"
    using v assms(6-9) by (simp add: valid_subpage_range_def valid_subno_eq)
  have ext: "extend_subpages_vector ra pt n = (case ra [] 0 of None \<Rightarrow> (False, pt)
      | Some v \<Rightarrow> (True, pt\<lparr>subpages := v, subpages_capacity := 0\<rparr>))" if "0 < n" "n \<le> 2" for n
    using that assms(2) e
    by (simp add: extend_subpages_vector_def extend_vector_def Let_def split: option.split)
  have nil: "v = []" if "ra [] 0 = Some v" for v
    using assms(3) that by (auto simp: realloc_ok_def)
  have "vbi_page_table_add_subpages ra pt p f l = (if ra [] 0 = None then Some (False, pt) else None)"
    if "\<not> vbi_page_table_contains_page pt p"
    using that any vr e ext [of 1]
    by (auto simp: vbi_page_table_add_subpages_def store_range_def Let_def dest: nil split: option.splits)
  moreover have "vbi_page_table_remove_subpages ra pt p f l = (if ra [] 0 = None then Some (False, pt) else None)"
    if "vbi_page_table_contains_all_subpages pt p" "\<not> (min f l = 0 \<and> max f l = MAX_SUBNO)"
  proof -
    have c: "0 \<noteq> (pages pt ! page_offset p AND push_bit (page_bit p) 1)"
      using that(1) v by (simp add: vbi_page_table_contains_all_subpages_def contains_all_subpages_def Let_def)
    have s: "(if f > l then (l, f) else (f, l)) = (min f l, max f l)" by (simp add: min_def max_def)
    have "min f l > 0 \<or> max f l < MAX_SUBNO"
      using that(2) assms(6-9) by (auto simp: min_def max_def split: if_splits)
    then have one: "0 < min f l \<or> max f l < MAX_SUBNO" .
    show ?thesis
    proof (cases "ra [] 0")
      case None
      then show ?thesis
        using any vr c e ext [of "Suc (Suc 0)"] unfolding vbi_page_table_remove_subpages_def s
        by (auto simp: Let_def)
    next
      case (Some w)
      then have "extend_subpages_vector ra pt (Suc (Suc 0)) = (True, pt\<lparr>subpages := [], subpages_capacity := 0\<rparr>)"
        using ext [of "Suc (Suc 0)"] nil by simp
      then show ?thesis
        using any vr c e one Some unfolding vbi_page_table_remove_subpages_def s
        by (auto simp: Let_def store_range_def)
    qed
  qed
  ultimately show ?thesis by blast
qed

theorem page_table_no_subpages_witness:
  "vbi_page_table_add_subpages calloc vbi_page_table_new 0x100 1 4 = None
    \<and> vbi_page_table_remove_subpages calloc (snd (vbi_page_table_add_pages calloc vbi_page_table_new 0x100 0x100)) 0x100 1 4
      = None"
proof -
  let ?t = "snd (vbi_page_table_add_pages calloc vbi_page_table_new 0x100 0x100)"
  have "table_ok ?t" by (rule calloc.pt.add [THEN conjunct2, THEN conjunct1]) (simp_all add: table_ok_new)
  moreover have "subpages_capacity ?t = 0" "vbi_page_table_contains_all_subpages ?t 0x100" by code_simp+
  moreover have "\<not> vbi_page_table_contains_page vbi_page_table_new 0x100"
    "subpages_capacity vbi_page_table_new = 0" by code_simp+
  moreover have "calloc [] 0 \<noteq> None" by (simp add: calloc_def)
  ultimately show ?thesis
    using page_table_no_subpages [OF table_ok_new(1) _ realloc_ok_calloc, of "0x100" 1 4]
      page_table_no_subpages [OF _ _ realloc_ok_calloc, of ?t "0x100" 1 4] by simp
qed

text \<open>C10: \<^verbatim>\<open>vbi_page_table_add_all_displayable_pages\<close> adds all subpages of exactly those pages the two low
  digits of whose number are decimal digits, and keeps the table well-formed.\<close>

theorem page_table_add_all_displayable:
  assumes "realloc_ok ra" "table_ok pt" "0x100 \<le> p" "p \<le> 0x8FF" "0 \<le> n" "n \<le> 0x3F7E"
  shows "table_ok (vbi_page_table_add_all_displayable_pages ra pt)
    \<and> vbi_page_table_contains_subpage (vbi_page_table_add_all_displayable_pages ra pt) p n
      = (p mod 16 \<le> 9 \<and> p div 16 mod 16 \<le> 9 \<or> vbi_page_table_contains_subpage pt p n)"
proof -
  obtain k where k: "k < 2048" "p = 256 + int k" using assms(3,4) by (rule pgno_cases)
  have "\<forall>j\<in>set displayable_words. j < 64"
  proof -
    have "list_all (\<lambda>j. j < 64) displayable_words" by code_simp
    then show ?thesis by (simp add: list_all_iff)
  qed
  note f = fold_displayable [OF assms(1) this assms(2), folded add_all_displayable_fold]
  have d: "p mod 16 = int (k mod 16)" "p div 16 mod 16 = int (k div 16 mod 16)"
  proof -
    show "p mod 16 = int (k mod 16)" using mod_mult_self1 [of "int k" 16 16] by (simp add: k zmod_int add.commute)
    have "p div 16 = int k div 16 + 16" using div_mult_self1 [of 16 "int k" 16] by (simp add: k add.commute)
    then show "p div 16 mod 16 = int (k div 16 mod 16)"
      using mod_add_self2 [of "int k div 16" 16] by (simp add: zmod_int zdiv_int)
  qed
  have "(p, n) \<in> (\<Union>j\<in>set displayable_words. displayable_word j) \<longleftrightarrow> p mod 16 \<le> 9 \<and> p div 16 mod 16 \<le> 9"
    using displayable_words_iff [of k] k(1) assms(5,6) unfolding d
    by (auto simp: k(2) displayable_word_iff)
  with f show ?thesis using assms(3-6) by (auto simp: contains_subpage_iff_pt_set)
qed

theorem page_table_add_all_displayable_witness:
  "vbi_page_table_contains_subpage (vbi_page_table_add_all_displayable_pages calloc vbi_page_table_new) 0x899 7
   \<and> \<not> vbi_page_table_contains_subpage (vbi_page_table_add_all_displayable_pages calloc vbi_page_table_new) 0x19A 7"
proof -
  have "\<not> vbi_page_table_contains_subpage vbi_page_table_new p 7" if "0x100 \<le> p" "p \<le> 0x8FF" for p
    using calloc.pt.contains_empty that by simp
  then show ?thesis
    using page_table_add_all_displayable [OF realloc_ok_calloc table_ok_new(1), of "0x899" 7]
      page_table_add_all_displayable [OF realloc_ok_calloc table_ok_new(1), of "0x19A" 7] by simp
qed


definition one_range_table :: page_table where
  "one_range_table = \<lparr>pages = replicate 64 0, pages_popcnt = 0,
     subpages = [\<lparr>sr_pgno = 0x100, sr_first = 0, sr_last = 9\<rparr>], subpages_size = 1, subpages_capacity = 1\<rparr>"


end
