(* ===== verification/Sliced.thy ===== *)
theory Sliced
  imports Prelude
begin

text \<open>Sliced VBI data as sliced.h has it: one line of a data service with its service number, its ITU-R line
  number and its payload bytes. A \<^verbatim>\<open>vbi_sliced\<close> array is a list.\<close>

record vbi_sliced =
  id :: u32
  line :: u32
  data :: "u8 list"

abbreviation (input) VBI_SLICED_TELETEXT_B_L10_625 :: u32 where "VBI_SLICED_TELETEXT_B_L10_625 \<equiv> 0x00000001"
abbreviation (input) VBI_SLICED_TELETEXT_B_L25_625 :: u32 where "VBI_SLICED_TELETEXT_B_L25_625 \<equiv> 0x00000002"
abbreviation (input) VBI_SLICED_TELETEXT_B :: u32 where "VBI_SLICED_TELETEXT_B \<equiv> 0x00000003"
abbreviation (input) VBI_SLICED_VPS :: u32 where "VBI_SLICED_VPS \<equiv> 0x00000004"
abbreviation (input) VBI_SLICED_CAPTION_625_F1 :: u32 where "VBI_SLICED_CAPTION_625_F1 \<equiv> 0x00000008"
abbreviation (input) VBI_SLICED_CAPTION_625_F2 :: u32 where "VBI_SLICED_CAPTION_625_F2 \<equiv> 0x00000010"
abbreviation (input) VBI_SLICED_CAPTION_625 :: u32 where "VBI_SLICED_CAPTION_625 \<equiv> 0x00000018"
abbreviation (input) VBI_SLICED_CAPTION_525_F1 :: u32 where "VBI_SLICED_CAPTION_525_F1 \<equiv> 0x00000020"
abbreviation (input) VBI_SLICED_CAPTION_525_F2 :: u32 where "VBI_SLICED_CAPTION_525_F2 \<equiv> 0x00000040"
abbreviation (input) VBI_SLICED_CAPTION_525 :: u32 where "VBI_SLICED_CAPTION_525 \<equiv> 0x00000060"
abbreviation (input) VBI_SLICED_WSS_625 :: u32 where "VBI_SLICED_WSS_625 \<equiv> 0x00000400"
abbreviation (input) VBI_SLICED_WSS_CPR1204 :: u32 where "VBI_SLICED_WSS_CPR1204 \<equiv> 0x00000800"
abbreviation (input) VBI_SLICED_VPS_F2 :: u32 where "VBI_SLICED_VPS_F2 \<equiv> 0x00001000"

end
