(* ===== verification/Sliced_Filter.thy ===== *)
theory Sliced_Filter
  imports Sliced Hamm Bcd Page_Table "HOL-Library.Sublist"
begin

text \<open>The filter of sliced_filter.c: it passes the lines of the services to keep, and of the Teletext packets
  those that belong to the pages in its page table. The output buffer is the list of the lines written to
  it; \<^verbatim>\<open>errstr\<close> is a datatype of the messages; the callback is a function on a state of its own.\<close>

unbundle bit_operations_syntax

subsection \<open>Data\<close>

datatype filter_error =
    Invalid_page int
  | Invalid_page_range int int
  | Invalid_subpage int
  | Invalid_subpage_range int int
  | Hamming_page_number
  | Hamming_packet_flags
  | Hamming_packet_number
  | Buffer_overflow
  | Out_of_memory

record sliced_filter =
  keep_ttx_pages :: page_table
  keep_ttx_system_pages :: bool
  output_max_lines :: nat
  keep_mag_set_next :: u32
  start :: bool
  keep_services :: u32
  errstr :: "filter_error option"

definition set_errstr :: "filter_error \<Rightarrow> sliced_filter \<Rightarrow> sliced_filter" where
  "set_errstr e sf = sf\<lparr>errstr := Some e\<rparr>"

definition no_mem_error :: "sliced_filter \<Rightarrow> sliced_filter" where
  "no_mem_error sf = sf\<lparr>errstr := Some Out_of_memory\<rparr>"

subsection \<open>Choosing what to keep\<close>

definition vbi_sliced_filter_keep_ttx_system_pages :: "sliced_filter \<Rightarrow> bool \<Rightarrow> sliced_filter" where
  "vbi_sliced_filter_keep_ttx_system_pages sf keep = sf\<lparr>keep_ttx_system_pages := keep\<rparr>"

definition valid_ttx_page :: "int \<Rightarrow> bool" where
  "valid_ttx_page pgno \<longleftrightarrow> (word_of_int pgno :: u32) - 0x100 < 0x800"

definition valid_ttx_subpage_range :: "sliced_filter \<Rightarrow> int \<Rightarrow> int \<Rightarrow> int \<Rightarrow> bool \<times> sliced_filter" where
  "valid_ttx_subpage_range sf pgno first_subno last_subno =
     (if \<not> valid_ttx_page pgno then (False, set_errstr (Invalid_page pgno) sf)
      else if (word_of_int first_subno :: u32) \<le> 0x3F7E \<and> (word_of_int last_subno :: u32) \<le> 0x3F7E then (True, sf)
      else if first_subno = last_subno then (False, set_errstr (Invalid_subpage first_subno) sf)
      else (False, set_errstr (Invalid_subpage_range first_subno last_subno) sf))"

definition valid_ttx_page_range :: "sliced_filter \<Rightarrow> int \<Rightarrow> int \<Rightarrow> bool \<times> sliced_filter" where
  "valid_ttx_page_range sf first_pgno last_pgno =
     (if valid_ttx_page first_pgno \<and> valid_ttx_page last_pgno then (True, sf)
      else if first_pgno = last_pgno then (False, set_errstr (Invalid_page first_pgno) sf)
      else (False, set_errstr (Invalid_page_range first_pgno last_pgno) sf))"

definition vbi_sliced_filter_drop_ttx_pages ::
  "realloc \<Rightarrow> sliced_filter \<Rightarrow> int \<Rightarrow> int \<Rightarrow> bool \<times> sliced_filter" where
  "vbi_sliced_filter_drop_ttx_pages ra sf first_pgno last_pgno =
     (let (ok, sf) = valid_ttx_page_range sf first_pgno last_pgno in
      if \<not> ok then (False, sf)
      else
        let sf = (if keep_services sf AND VBI_SLICED_TELETEXT_B \<noteq> 0 then
                    sf\<lparr>keep_ttx_pages := vbi_page_table_add_all_pages ra (keep_ttx_pages sf),
                       keep_services := keep_services sf AND NOT VBI_SLICED_TELETEXT_B\<rparr>
                  else sf);
            (r, pt) = vbi_page_table_remove_pages ra (keep_ttx_pages sf) first_pgno last_pgno
        in (r, sf\<lparr>keep_ttx_pages := pt\<rparr>))"

definition vbi_sliced_filter_keep_ttx_pages ::
  "realloc \<Rightarrow> sliced_filter \<Rightarrow> int \<Rightarrow> int \<Rightarrow> bool \<times> sliced_filter" where
  "vbi_sliced_filter_keep_ttx_pages ra sf first_pgno last_pgno =
     (let (ok, sf) = valid_ttx_page_range sf first_pgno last_pgno in
      if \<not> ok then (False, sf)
      else if keep_services sf AND VBI_SLICED_TELETEXT_B \<noteq> 0 then (True, sf)
      else
        let (r, pt) = vbi_page_table_add_pages ra (keep_ttx_pages sf) first_pgno last_pgno
        in (r, sf\<lparr>keep_ttx_pages := pt\<rparr>))"

text \<open>The operations on subpages inherit the undefined accesses of the page table.\<close>

definition vbi_sliced_filter_drop_ttx_subpages ::
  "realloc \<Rightarrow> sliced_filter \<Rightarrow> int \<Rightarrow> int \<Rightarrow> int \<Rightarrow> (bool \<times> sliced_filter) option" where
  "vbi_sliced_filter_drop_ttx_subpages ra sf pgno first_subno last_subno =
     (if VBI_ANY_SUBNO = first_subno \<and> VBI_ANY_SUBNO = last_subno then
        Some (vbi_sliced_filter_drop_ttx_pages ra sf pgno pgno)
      else
        let (ok, sf) = valid_ttx_subpage_range sf pgno first_subno last_subno in
        if \<not> ok then Some (False, sf)
        else
          let sf = (if keep_services sf AND VBI_SLICED_TELETEXT_B \<noteq> 0 then
                      sf\<lparr>keep_ttx_pages := vbi_page_table_add_all_pages ra (keep_ttx_pages sf),
                         keep_services := keep_services sf AND NOT VBI_SLICED_TELETEXT_B\<rparr>
                    else sf)
          in do {
            (r, pt) \<leftarrow> vbi_page_table_remove_subpages ra (keep_ttx_pages sf) pgno first_subno last_subno;
            Some (r, sf\<lparr>keep_ttx_pages := pt\<rparr>) })"

definition vbi_sliced_filter_keep_ttx_subpages ::
  "realloc \<Rightarrow> sliced_filter \<Rightarrow> int \<Rightarrow> int \<Rightarrow> int \<Rightarrow> (bool \<times> sliced_filter) option" where
  "vbi_sliced_filter_keep_ttx_subpages ra sf pgno first_subno last_subno =
     (if VBI_ANY_SUBNO = first_subno \<and> VBI_ANY_SUBNO = last_subno then
        Some (vbi_sliced_filter_keep_ttx_pages ra sf pgno pgno)
      else
        let (ok, sf) = valid_ttx_subpage_range sf pgno first_subno last_subno in
        if \<not> ok then Some (False, sf)
        else if keep_services sf AND VBI_SLICED_TELETEXT_B \<noteq> 0 then Some (True, sf)
        else do {
          (r, pt) \<leftarrow> vbi_page_table_add_subpages ra (keep_ttx_pages sf) pgno first_subno last_subno;
          Some (r, sf\<lparr>keep_ttx_pages := pt\<rparr>) })"

definition vbi_sliced_filter_drop_services :: "realloc \<Rightarrow> sliced_filter \<Rightarrow> u32 \<Rightarrow> u32 \<times> sliced_filter" where
  "vbi_sliced_filter_drop_services ra sf services =
     (let sf = (if services AND VBI_SLICED_TELETEXT_B \<noteq> 0 then
                  sf\<lparr>keep_ttx_pages := vbi_page_table_remove_all_pages ra (keep_ttx_pages sf)\<rparr> else sf);
          ks = keep_services sf AND NOT services
      in (ks, sf\<lparr>keep_services := ks\<rparr>))"

definition vbi_sliced_filter_keep_services :: "realloc \<Rightarrow> sliced_filter \<Rightarrow> u32 \<Rightarrow> u32 \<times> sliced_filter" where
  "vbi_sliced_filter_keep_services ra sf services =
     (let sf = (if services AND VBI_SLICED_TELETEXT_B \<noteq> 0 then
                  sf\<lparr>keep_ttx_pages := vbi_page_table_remove_all_pages ra (keep_ttx_pages sf)\<rparr> else sf);
          ks = keep_services sf OR services
      in (ks, sf\<lparr>keep_services := ks\<rparr>))"

definition vbi_sliced_filter_reset :: "sliced_filter \<Rightarrow> sliced_filter" where
  "vbi_sliced_filter_reset sf = sf\<lparr>keep_mag_set_next := 0, start := True\<rparr>"

subsection \<open>Teletext packets\<close>

abbreviation (input) VBI_SERIAL :: int where "VBI_SERIAL \<equiv> 0x100000"

text \<open>The result is the return value, the new state and the new \<^verbatim>\<open>*keep_mag_set\<close>.\<close>

definition decode_teletext_packet_0 ::
  "sliced_filter \<Rightarrow> u32 \<Rightarrow> u8 list \<Rightarrow> nat \<Rightarrow> bool \<times> sliced_filter \<times> u32" where
  "decode_teletext_packet_0 sf keep_mag_set buffer magazine =
     (let page = vbi_unham16p (drop 2 buffer) in
      if page < 0 then (False, set_errstr Hamming_page_number sf, keep_mag_set)
      else if 0xFF = page then (True, sf, 0)
      else
        let pgno = int magazine * 0x100 + page;
            flags = vbi_unham16p (drop 4 buffer) OR push_bit 8 (vbi_unham16p (drop 6 buffer))
                    OR push_bit 16 (vbi_unham16p (drop 8 buffer))
        in if flags < 0 then (False, set_errstr Hamming_packet_flags sf, keep_mag_set)
        else
          let mag_set = (if flags AND VBI_SERIAL \<noteq> 0 then - 1 else push_bit magazine 1);
              matched = (if \<not> vbi_is_bcd (word_of_int pgno) then keep_ttx_system_pages sf
                         else vbi_page_table_contains_subpage (keep_ttx_pages sf) pgno (flags AND 0x3F7F))
          in if matched then
               (let keep_mag_set = keep_mag_set OR mag_set
                in (True, sf\<lparr>keep_mag_set_next := keep_mag_set, start := False\<rparr>, keep_mag_set))
             else if keep_mag_set AND mag_set \<noteq> 0 then
               (True, sf\<lparr>keep_mag_set_next := keep_mag_set AND NOT mag_set, start := False\<rparr>, keep_mag_set)
             else if start sf then
               (True, sf\<lparr>keep_mag_set_next := 0, start := False\<rparr>, mag_set)
             else
               (let keep_mag_set = keep_mag_set AND NOT mag_set
                in (True, sf\<lparr>keep_mag_set_next := keep_mag_set, start := False\<rparr>, keep_mag_set)))"

text \<open>\<^verbatim>\<open>pmag\<close> is at most 255 when it is not negative, so the packet number is at most 31 and the default branch
  of the switch, an assertion, is not reached. The result is the return value, the new state and the new
  \<^verbatim>\<open>*keep\<close>.\<close>

definition decode_teletext :: "sliced_filter \<Rightarrow> bool \<Rightarrow> u8 list \<Rightarrow> bool \<times> sliced_filter \<times> bool" where
  "decode_teletext sf keep buffer =
     (let keep_mag_set = keep_mag_set_next sf;
          pmag = vbi_unham16p buffer
      in if pmag < 0 then (False, set_errstr Hamming_packet_number sf, keep)
      else
        let magazine = (if 0 = pmag AND 7 then 8 else nat (pmag AND 7));
            packet = drop_bit 3 pmag
        in if 0 = packet then
             (let (ok, sf, keep_mag_set) = decode_teletext_packet_0 sf keep_mag_set buffer magazine
              in if \<not> ok then (False, sf, keep)
                 else (True, sf, keep_mag_set AND push_bit magazine 1 \<noteq> 0))
           else if packet \<le> 29 then (True, sf, keep_mag_set AND push_bit magazine 1 \<noteq> 0)
           else (True, sf, False))"

subsection \<open>Filtering\<close>

definition pass_line :: "sliced_filter \<Rightarrow> vbi_sliced \<Rightarrow> bool \<times> sliced_filter \<times> bool" where
  "pass_line sf s =
     (if id s AND keep_services sf \<noteq> 0 then (True, sf, True)
      else if id s = VBI_SLICED_TELETEXT_B_L10_625 \<or> id s = VBI_SLICED_TELETEXT_B_L25_625
              \<or> id s = VBI_SLICED_TELETEXT_B then decode_teletext sf False (data s)
      else (True, sf, False))"

text \<open>The loop of \<^verbatim>\<open>vbi_sliced_filter_cor\<close>; \<open>inn\<close> and \<open>out\<close> are the numbers of lines consumed and stored. The result
  is the return value, the state, \<^verbatim>\<open>*n_lines_in\<close> and the lines stored, \<^verbatim>\<open>*n_lines_out\<close> of them.\<close>

fun cor_loop :: "sliced_filter \<Rightarrow> nat \<Rightarrow> vbi_sliced list \<Rightarrow> nat \<Rightarrow> vbi_sliced list \<Rightarrow>
    bool \<times> sliced_filter \<times> nat \<times> vbi_sliced list" where
  "cor_loop sf max_lines_out [] inn out = (True, sf, inn, out)"
| "cor_loop sf max_lines_out (s # ss) inn out =
     (let (ok, sf, pass_through) = pass_line sf s in
      if \<not> ok then (False, sf, inn, out)
      else if pass_through then
        if length out \<ge> max_lines_out then (False, set_errstr Buffer_overflow sf, inn, out)
        else cor_loop sf max_lines_out ss (inn + 1) (out @ [s])
      else cor_loop sf max_lines_out ss (inn + 1) out)"

definition vbi_sliced_filter_cor :: "sliced_filter \<Rightarrow> nat \<Rightarrow> vbi_sliced list \<Rightarrow>
    bool \<times> sliced_filter \<times> nat \<times> vbi_sliced list" where
  "vbi_sliced_filter_cor sf max_lines_out sliced_in = cor_loop sf max_lines_out sliced_in 0 []"

text \<open>\<open>alloc\<close> says whether the output buffer can be reallocated to a number of lines; \<open>cb\<close> is the callback, if
  there is one.\<close>

definition vbi_sliced_filter_feed ::
  "(nat \<Rightarrow> bool) \<Rightarrow> (vbi_sliced list \<Rightarrow> 'u \<Rightarrow> bool \<times> 'u) option \<Rightarrow> sliced_filter \<Rightarrow> vbi_sliced list \<Rightarrow> 'u \<Rightarrow>
     bool \<times> sliced_filter \<times> nat \<times> 'u" where
  "vbi_sliced_filter_feed alloc cb sf sliced u =
     (let n_lines = length sliced in
      if output_max_lines sf < n_lines \<and> \<not> alloc (min n_lines 50) then (False, no_mem_error sf, n_lines, u)
      else
        let sf = (if output_max_lines sf < n_lines then sf\<lparr>output_max_lines := min n_lines 50\<rparr> else sf);
            (ok, sf, n, out) = vbi_sliced_filter_cor sf (output_max_lines sf) sliced
        in if \<not> ok then (False, sf, n, u)
           else case cb of
               Some f \<Rightarrow> (let (r, u) = f out u in (r, sf, n, u))
             | None \<Rightarrow> (True, sf, n, u))"

definition vbi_sliced_filter_new :: sliced_filter where
  "vbi_sliced_filter_new = vbi_sliced_filter_reset
     \<lparr>keep_ttx_pages = vbi_page_table_new, keep_ttx_system_pages = False, output_max_lines = 0,
      keep_mag_set_next = 0, start = False, keep_services = 0, errstr = None\<rparr>"

subsection \<open>The filter loop\<close>

lemma decode_teletext_0_services [simp]:
  "keep_services (fst (snd (decode_teletext_packet_0 sf k b m))) = keep_services sf"
  by (simp add: decode_teletext_packet_0_def set_errstr_def Let_def)

lemma decode_teletext_0_servicesD:
  "decode_teletext_packet_0 sf k b m = (ok, sf1, k1) \<Longrightarrow> keep_services sf1 = keep_services sf"
  using decode_teletext_0_services [of sf k b m] by simp

lemma decode_teletext_services [simp]:
  "keep_services (fst (snd (decode_teletext sf k b))) = keep_services sf"
  by (simp add: decode_teletext_def set_errstr_def Let_def decode_teletext_0_servicesD split: prod.split)

lemma pass_line_services [simp]: "keep_services (fst (snd (pass_line sf s))) = keep_services sf"
  by (simp add: pass_line_def)

definition kept_service :: "u32 \<Rightarrow> vbi_sliced \<Rightarrow> bool" where
  "kept_service ks s \<longleftrightarrow> id s AND ks \<noteq> 0"

lemma pass_line_kept: "kept_service (keep_services sf) s \<Longrightarrow> pass_line sf s = (True, sf, True)"
  by (simp add: pass_line_def kept_service_def)

lemma cor_loop_spec:
  assumes "cor_loop sf mx ss inn out = (ok, sf', n, out')" "length out \<le> mx"
  shows "\<exists>k os. k \<le> length ss \<and> n = inn + k \<and> out' = out @ os \<and> subseq os (take k ss) \<and> length out' \<le> mx
    \<and> (ok \<longleftrightarrow> k = length ss) \<and> keep_services sf' = keep_services sf
    \<and> filter (kept_service (keep_services sf)) os = filter (kept_service (keep_services sf)) (take k ss)"
  using assms
proof (induction sf mx ss inn out arbitrary: ok sf' n out' rule: cor_loop.induct)
  case (1 sf mx inn out)
  then show ?case by (intro exI [of _ 0] exI [of _ "[]"]) auto
next
  case (2 sf mx s ss inn out)
  obtain ok1 sf1 p where pl: "pass_line sf s = (ok1, sf1, p)" by (metis prod_cases3)
  have ks: "keep_services sf1 = keep_services sf" using pass_line_services [of sf s] by (simp add: pl)
  have kept: "p \<and> ok1" if "kept_service (keep_services sf) s" using pass_line_kept [OF that] pl by simp
  show ?case
  proof (cases "\<not> ok1 \<or> p \<and> mx \<le> length out")
    case True
    then show ?thesis
      using 2(3,4) ks by (intro exI [of _ 0] exI [of _ "[]"]) (auto simp: pl set_errstr_def split: if_splits)
  next
    case False
    show ?thesis
    proof (cases p)
      case True
      with False 2(3) have e: "cor_loop sf1 mx ss (inn + 1) (out @ [s]) = (ok, sf', n, out')"
        by (simp add: pl)
      from 2(1) [OF pl [symmetric] refl refl _ True _ e] False True obtain k os where
        k: "k \<le> length ss" "n = inn + 1 + k" "out' = (out @ [s]) @ os" "subseq os (take k ss)" "length out' \<le> mx"
          "ok \<longleftrightarrow> k = length ss" "keep_services sf' = keep_services sf1"
          "filter (kept_service (keep_services sf1)) os = filter (kept_service (keep_services sf1)) (take k ss)"
        by auto
      then show ?thesis by (intro exI [of _ "Suc k"] exI [of _ "s # os"]) (auto simp: ks)
    next
      case np: False
      with False 2(3) have e: "cor_loop sf1 mx ss (inn + 1) out = (ok, sf', n, out')"
        by (simp add: pl)
      from 2(2) [OF pl [symmetric] refl refl _ np e] False 2(4) obtain k os where
        k: "k \<le> length ss" "n = inn + 1 + k" "out' = out @ os" "subseq os (take k ss)" "length out' \<le> mx"
          "ok \<longleftrightarrow> k = length ss" "keep_services sf' = keep_services sf1"
          "filter (kept_service (keep_services sf1)) os = filter (kept_service (keep_services sf1)) (take k ss)"
        by auto
      have "\<not> kept_service (keep_services sf) s" using kept np by blast
      with k show ?thesis by (intro exI [of _ "Suc k"] exI [of _ os]) (auto simp: ks)
    qed
  qed
qed

subsection \<open>The pages kept\<close>

definition filter_ok :: "sliced_filter \<Rightarrow> bool" where
  "filter_ok sf \<longleftrightarrow> table_ok (keep_ttx_pages sf)"

definition filter_keeps :: "sliced_filter \<Rightarrow> int \<Rightarrow> int \<Rightarrow> bool" where
  "filter_keeps sf p n \<longleftrightarrow> keep_services sf AND VBI_SLICED_TELETEXT_B \<noteq> 0
     \<or> vbi_page_table_contains_subpage (keep_ttx_pages sf) p n"

lemma valid_ttx_page_eq: "0x100 \<le> p \<Longrightarrow> p \<le> 0x8FF \<Longrightarrow> valid_ttx_page p"
proof -
  assume "0x100 \<le> p" "p \<le> 0x8FF"
  then obtain k where "k < 2048" "p = 256 + int k" by (rule pgno_cases)
  then show "valid_ttx_page p" using valid_pgno_eq [of k] by (simp add: valid_ttx_page_def valid_pgno_def)
qed

lemma and_not_teletext: "(a AND - 4) AND 3 = 0" for a :: u32
proof -
  have "(a AND NOT b) AND b = 0" for b :: u32 by (rule bit_word_eqI) (auto simp: bit_simps)
  from this [of 3] show ?thesis by simp
qed

context c_realloc
begin

lemma keep_pages_laws:
  assumes "filter_ok sf" "0x100 \<le> f" "f \<le> 0x8FF" "0x100 \<le> l" "l \<le> 0x8FF"
    and "0x100 \<le> p" "p \<le> 0x8FF" "0 \<le> n" "n \<le> 0x3F7E"
    and k: "vbi_sliced_filter_keep_ttx_pages ra sf f l = (r, sf')"
  shows "r \<and> filter_ok sf' \<and> filter_keeps sf' p n = (filter_keeps sf p n \<or> min f l \<le> p \<and> p \<le> max f l)"
  using k pt.add [OF assms(1) [unfolded filter_ok_def] assms(2-5)]
    pt.contains_add [OF assms(1) [unfolded filter_ok_def] assms(2-9)] assms(1)
    valid_ttx_page_eq [OF assms(2,3)] valid_ttx_page_eq [OF assms(4,5)]
  by (auto simp: vbi_sliced_filter_keep_ttx_pages_def valid_ttx_page_range_def filter_ok_def filter_keeps_def
      split: prod.splits if_splits)

lemma drop_pages_laws:
  assumes "filter_ok sf" "0x100 \<le> f" "f \<le> 0x8FF" "0x100 \<le> l" "l \<le> 0x8FF"
    and "0x100 \<le> p" "p \<le> 0x8FF" "0 \<le> n" "n \<le> 0x3F7E"
    and d: "vbi_sliced_filter_drop_ttx_pages ra sf f l = (r, sf')"
  shows "r \<and> filter_ok sf' \<and> filter_keeps sf' p n = (filter_keeps sf p n \<and> \<not> (min f l \<le> p \<and> p \<le> max f l))"
proof -
  define pt1 where "pt1 = (if keep_services sf AND VBI_SLICED_TELETEXT_B \<noteq> 0
    then vbi_page_table_add_all_pages ra (keep_ttx_pages sf) else keep_ttx_pages sf)"
  have all: "table_ok (vbi_page_table_add_all_pages ra (keep_ttx_pages sf))
      \<and> vbi_page_table_contains_subpage (vbi_page_table_add_all_pages ra (keep_ttx_pages sf)) p n"
    using pt.add [OF assms(1) [unfolded filter_ok_def], of "0x100" "0x8FF"]
      pt.contains_add [OF assms(1) [unfolded filter_ok_def], of "0x100" "0x8FF" p n] assms(6-9)
    by (simp add: vbi_page_table_add_all_pages_def)
  then have ok1: "table_ok pt1" using assms(1) by (simp add: pt1_def filter_ok_def)
  have k1: "vbi_page_table_contains_subpage pt1 p n \<longleftrightarrow> filter_keeps sf p n"
    using all by (simp add: pt1_def filter_keeps_def)
  have sf': "r = fst (vbi_page_table_remove_pages ra pt1 f l)"
    "keep_ttx_pages sf' = snd (vbi_page_table_remove_pages ra pt1 f l)"
    "keep_services sf' AND VBI_SLICED_TELETEXT_B = 0"
    using d valid_ttx_page_eq [OF assms(2,3)] valid_ttx_page_eq [OF assms(4,5)]
    by (auto simp: vbi_sliced_filter_drop_ttx_pages_def valid_ttx_page_range_def Let_def pt1_def and_not_teletext
        split: prod.splits if_splits)
  show ?thesis
    using pt.remove [OF ok1 assms(2-5)] pt.contains_remove [OF ok1 assms(2-9)] k1
    by (simp add: filter_ok_def filter_keeps_def sf')
qed

end

subsection \<open>Headers and the packets that follow them\<close>

definition packet_magazine :: "u8 list \<Rightarrow> nat" where
  "packet_magazine buffer = (if vbi_unham16p buffer AND 7 = 0 then 8 else nat (vbi_unham16p buffer AND 7))"

definition packet_number :: "u8 list \<Rightarrow> int" where
  "packet_number buffer = drop_bit 3 (vbi_unham16p buffer)"

definition header_flags :: "u8 list \<Rightarrow> int" where
  "header_flags buffer = vbi_unham16p (drop 4 buffer) OR push_bit 8 (vbi_unham16p (drop 6 buffer))
     OR push_bit 16 (vbi_unham16p (drop 8 buffer))"

definition header_pgno :: "u8 list \<Rightarrow> int" where
  "header_pgno buffer = int (packet_magazine buffer) * 0x100 + vbi_unham16p (drop 2 buffer)"

definition header_serial :: "u8 list \<Rightarrow> bool" where
  "header_serial buffer \<longleftrightarrow> header_flags buffer AND VBI_SERIAL \<noteq> 0"

definition header_matches :: "sliced_filter \<Rightarrow> u8 list \<Rightarrow> bool" where
  "header_matches sf buffer =
     (if \<not> vbi_is_bcd (word_of_int (header_pgno buffer)) then keep_ttx_system_pages sf
      else vbi_page_table_contains_subpage (keep_ttx_pages sf) (header_pgno buffer) (header_flags buffer AND 0x3F7F))"

definition good_header :: "u8 list \<Rightarrow> bool" where
  "good_header buffer \<longleftrightarrow> 0 \<le> vbi_unham16p buffer \<and> packet_number buffer = 0
     \<and> 0 \<le> vbi_unham16p (drop 2 buffer) \<and> vbi_unham16p (drop 2 buffer) \<noteq> 0xFF \<and> 0 \<le> header_flags buffer"

definition magazine_kept :: "sliced_filter \<Rightarrow> nat \<Rightarrow> bool" where
  "magazine_kept sf m \<longleftrightarrow> bit (keep_mag_set_next sf) m"

definition start_ok :: "sliced_filter \<Rightarrow> bool" where
  "start_ok sf \<longleftrightarrow> (start sf \<longrightarrow> keep_mag_set_next sf = 0)"

lemma packet_magazine_range: "1 \<le> packet_magazine buffer \<and> packet_magazine buffer \<le> 8"
proof -
  have "x AND 7 = x mod 8" for x :: int
    using take_bit_eq_mask [of 3 x] by (simp add: mask_eq_exp_minus_1 take_bit_eq_mod)
  moreover define y where "y = vbi_unham16p buffer mod 8"
  moreover have "0 \<le> y" "y < 8" by (simp_all add: y_def)
  ultimately show ?thesis by (simp add: packet_magazine_def) linarith
qed

lemma and_push_bit_1: "w AND push_bit m 1 \<noteq> 0 \<longleftrightarrow> bit w m" if "m < 32" for w :: u32
proof -
  have "(2 :: u32) ^ m \<noteq> 0" using that by (simp add: exp_eq_zero_iff)
  then show ?thesis using and_exp_eq_of_bool [of w m] by (simp add: push_bit_eq_mult)
qed

definition header_set :: "u8 list \<Rightarrow> u32" where
  "header_set buffer = (if header_serial buffer then - 1 else push_bit (packet_magazine buffer) 1)"

lemma decode_packet_0_header:
  assumes "good_header buffer"
  shows "decode_teletext_packet_0 sf k0 buffer (packet_magazine buffer) =
     (let ms = header_set buffer in
      if header_matches sf buffer then
        (True, sf\<lparr>keep_mag_set_next := k0 OR ms, start := False\<rparr>, k0 OR ms)
      else if k0 AND ms \<noteq> 0 then (True, sf\<lparr>keep_mag_set_next := k0 AND NOT ms, start := False\<rparr>, k0)
      else if start sf then (True, sf\<lparr>keep_mag_set_next := 0, start := False\<rparr>, ms)
      else (True, sf\<lparr>keep_mag_set_next := k0 AND NOT ms, start := False\<rparr>, k0 AND NOT ms))"
proof -
  have n: "\<not> vbi_unham16p (drop 2 buffer) < 0" "\<not> header_flags buffer < 0" "0xFF \<noteq> vbi_unham16p (drop 2 buffer)"
    using assms by (auto simp: good_header_def)
  show ?thesis
    unfolding decode_teletext_packet_0_def Let_def header_flags_def [symmetric] header_pgno_def [symmetric]
      header_serial_def [symmetric] header_set_def [symmetric] header_matches_def [symmetric]
    by (simp only: n if_False)
qed

lemma decode_teletext_header_eq:
  assumes "good_header buffer"
  shows "decode_teletext sf False buffer =
     (let (ok, sf, keep_mag_set) =
        decode_teletext_packet_0 sf (keep_mag_set_next sf) buffer (packet_magazine buffer)
      in if \<not> ok then (False, sf, False) else (True, sf, bit keep_mag_set (packet_magazine buffer)))"
proof -
  have m: "packet_magazine buffer < 32" using packet_magazine_range [of buffer] by simp
  have n: "(vbi_unham16p buffer < 0) = False" "(0 = drop_bit 3 (vbi_unham16p buffer)) = True"
    using assms by (auto simp: good_header_def packet_number_def)
  have p: "(if 0 = vbi_unham16p buffer AND 7 then 8 else nat (vbi_unham16p buffer AND 7)) = packet_magazine buffer"
    by (cases "vbi_unham16p buffer AND 7 = 0") (simp_all add: packet_magazine_def)
  show ?thesis
    unfolding decode_teletext_def Let_def p n if_True if_False and_push_bit_1 [OF m] by (rule refl)
qed

lemma bit_header_set:
  "k \<le> 8 \<Longrightarrow> bit (header_set buffer) k \<longleftrightarrow> header_serial buffer \<or> k = packet_magazine buffer"
  by (auto simp: header_set_def bit_simps)

lemma and_eq_0_bitD: "w AND v = 0 \<Longrightarrow> bit v k \<Longrightarrow> \<not> bit w k" for w v :: u32
  by (metis bit_0_eq bit_and_iff bot_apply bot_bool_def)

lemma decode_teletext_header:
  assumes "good_header buffer" "start_ok sf"
    and dec: "decode_teletext sf False buffer = (ok, sf', keep)"
  defines "m \<equiv> packet_magazine buffer"
  shows "ok \<and> \<not> start sf' \<and> start_ok sf'
    \<and> (\<forall>k\<le>8. magazine_kept sf' k =
        (if header_serial buffer \<or> k = m then header_matches sf buffer else magazine_kept sf k))
    \<and> keep = (header_matches sf buffer \<or> start sf \<or> magazine_kept sf m)"
proof -
  have m: "m \<le> 8" using packet_magazine_range [of buffer] by (simp add: m_def)
  define ms where "ms = header_set buffer"
  note bits = bit_header_set [of _ buffer, folded ms_def m_def]
  have msm: "bit ms m" using bits m by simp
  have st: "start sf \<Longrightarrow> keep_mag_set_next sf = 0" using assms(2) by (simp add: start_ok_def)
  note eq = dec [unfolded decode_teletext_header_eq [OF assms(1)] decode_packet_0_header [OF assms(1)],
      folded ms_def m_def]
  consider (match) "header_matches sf buffer" | (stop) "\<not> header_matches sf buffer" "keep_mag_set_next sf AND ms \<noteq> 0"
    | (first) "\<not> header_matches sf buffer" "keep_mag_set_next sf AND ms = 0" "start sf"
    | (other) "\<not> header_matches sf buffer" "keep_mag_set_next sf AND ms = 0" "\<not> start sf" by blast
  then show ?thesis
  proof cases
    case match
    then show ?thesis
      using eq msm by (auto simp: magazine_kept_def bit_or_iff bits start_ok_def Let_def)
  next
    case stop
    then have "\<not> start sf" using st by auto
    with stop show ?thesis
      using eq by (auto simp: magazine_kept_def bit_and_iff bit_not_iff bits start_ok_def Let_def)
  next
    case first
    then show ?thesis
      using eq msm st by (auto simp: magazine_kept_def bits start_ok_def Let_def)
  next
    case other
    then show ?thesis
      using eq msm and_eq_0_bitD [OF other(2) msm]
      by (auto simp: magazine_kept_def bit_and_iff bit_not_iff bits start_ok_def Let_def)
  qed
qed

lemma decode_teletext_body:
  assumes "0 \<le> vbi_unham16p buffer" "1 \<le> packet_number buffer" "packet_number buffer \<le> 29"
  shows "decode_teletext sf False buffer = (True, sf, magazine_kept sf (packet_magazine buffer))"
proof -
  have m: "packet_magazine buffer < 32" using packet_magazine_range [of buffer] by simp
  have p: "(if 0 = vbi_unham16p buffer AND 7 then 8 else nat (vbi_unham16p buffer AND 7)) = packet_magazine buffer"
    by (cases "vbi_unham16p buffer AND 7 = 0") (simp_all add: packet_magazine_def)
  have n: "(vbi_unham16p buffer < 0) = False" "(0 = drop_bit 3 (vbi_unham16p buffer)) = False"
    "(drop_bit 3 (vbi_unham16p buffer) \<le> 29) = True"
    using assms by (auto simp: packet_number_def)
  show ?thesis
    unfolding decode_teletext_def Let_def p n if_True if_False and_push_bit_1 [OF m] magazine_kept_def
    by (rule refl)
qed

subsection \<open>What the filter promises for Teletext packets\<close>

text \<open>The specification keeps the set of magazines the current page of which is kept, and whether no header was
  seen yet. A header is kept if its page is wanted, if it ends a page that was kept, or if it is the first.
  In serial mode a header ends the pages of all magazines.\<close>

datatype packet_event = Header nat bool bool | Body nat

fun magazine_spec :: "nat set \<times> bool \<Rightarrow> packet_event \<Rightarrow> bool \<times> nat set \<times> bool" where
  "magazine_spec (K, fresh) (Header m serial matched) =
     (matched \<or> fresh \<or> m \<in> K,
      (if serial then if matched then {1..8} else {} else if matched then insert m K else K - {m}), False)"
| "magazine_spec (K, fresh) (Body m) = (m \<in> K, K, fresh)"

definition good_body :: "u8 list \<Rightarrow> bool" where
  "good_body buffer \<longleftrightarrow> 0 \<le> vbi_unham16p buffer \<and> 1 \<le> packet_number buffer \<and> packet_number buffer \<le> 29"

definition packet_event_of :: "sliced_filter \<Rightarrow> u8 list \<Rightarrow> packet_event" where
  "packet_event_of sf buffer =
     (if packet_number buffer = 0
      then Header (packet_magazine buffer) (header_serial buffer) (header_matches sf buffer)
      else Body (packet_magazine buffer))"

definition filter_abs :: "sliced_filter \<Rightarrow> nat set \<times> bool" where
  "filter_abs sf = ({m. 1 \<le> m \<and> m \<le> 8 \<and> magazine_kept sf m}, start sf)"


definition zero_header :: "u8 list" where
  "zero_header = replicate 42 0x15"




text \<open>C17: What \<^verbatim>\<open>vbi_sliced_filter_cor\<close> stores is a subsequence of the lines it consumed and fits the output
  buffer; it holds every consumed line of a service to keep; the function succeeds exactly if it consumed
  all lines, and never changes the services to keep.\<close>

theorem filter_cor_output:
  assumes "vbi_sliced_filter_cor sf max_lines_out sliced_in = (ok, sf', n_in, out)"
  shows "n_in \<le> length sliced_in \<and> (ok \<longleftrightarrow> n_in = length sliced_in)
    \<and> subseq out (take n_in sliced_in) \<and> length out \<le> max_lines_out
    \<and> keep_services sf' = keep_services sf
    \<and> filter (kept_service (keep_services sf)) out = filter (kept_service (keep_services sf)) (take n_in sliced_in)"
  using cor_loop_spec [OF assms [unfolded vbi_sliced_filter_cor_def]] by auto

definition vps_line :: vbi_sliced where
  "vps_line = \<lparr>id = VBI_SLICED_VPS, line = 16, data = replicate 56 0\<rparr>"

definition wss_line :: vbi_sliced where
  "wss_line = \<lparr>id = VBI_SLICED_WSS_625, line = 23, data = replicate 56 0\<rparr>"

theorem filter_cor_output_witness:
  "let sf = vbi_sliced_filter_new\<lparr>keep_services := VBI_SLICED_VPS\<rparr>;
       (ok, sf', n_in, out) = vbi_sliced_filter_cor sf 5 [wss_line, vps_line]
   in n_in \<le> 2 \<and> (ok \<longleftrightarrow> n_in = 2) \<and> subseq out (take n_in [wss_line, vps_line]) \<and> length out \<le> 5
    \<and> keep_services sf' = VBI_SLICED_VPS
    \<and> filter (kept_service VBI_SLICED_VPS) out = filter (kept_service VBI_SLICED_VPS) (take n_in [wss_line, vps_line])"
proof -
  let ?sf = "vbi_sliced_filter_new\<lparr>keep_services := VBI_SLICED_VPS\<rparr>"
  obtain ok sf' n_in out where c: "vbi_sliced_filter_cor ?sf 5 [wss_line, vps_line] = (ok, sf', n_in, out)"
    by (metis prod_cases4)
  show ?thesis using filter_cor_output [OF c] by (simp add: c numeral_2_eq_2)
qed

lemma pass_line_no_overflow:
  "pass_line sf s = (ok, sf', p) \<Longrightarrow> errstr sf \<noteq> Some Buffer_overflow \<Longrightarrow> errstr sf' \<noteq> Some Buffer_overflow"
  by (auto simp: pass_line_def decode_teletext_def decode_teletext_packet_0_def set_errstr_def Let_def
      split: if_splits prod.splits)

lemma cor_loop_no_overflow:
  assumes "cor_loop sf mx ss inn out = (ok, sf', n, out')" "length out + length ss \<le> mx"
    "errstr sf \<noteq> Some Buffer_overflow"
  shows "errstr sf' \<noteq> Some Buffer_overflow"
  using assms
proof (induction sf mx ss inn out arbitrary: ok sf' n out' rule: cor_loop.induct)
  case (2 sf mx s ss inn out)
  obtain ok1 sf1 p where pl: "pass_line sf s = (ok1, sf1, p)" by (metis prod_cases3)
  from pass_line_no_overflow [OF pl 2(5)] have e1: "errstr sf1 \<noteq> Some Buffer_overflow" .
  show ?case
    using 2(1) [OF pl [symmetric] refl refl] 2(2) [OF pl [symmetric] refl refl] 2(3,4) e1
    by (auto simp: pl split: if_splits)
qed auto

lemma cor_loop_kept:
  assumes "\<forall>s\<in>set ss. kept_service (keep_services sf) s" "length out \<le> mx"
  shows "cor_loop sf mx ss inn out =
    (if length out + length ss \<le> mx then (True, sf, inn + length ss, out @ ss)
     else (False, set_errstr Buffer_overflow sf, inn + (mx - length out), out @ take (mx - length out) ss))"
  using assms
proof (induction ss arbitrary: inn out)
  case (Cons s ss)
  then show ?case
    by (cases "length out = mx") (auto simp: pass_line_kept take_Cons' diff_Suc split: nat.split)
qed simp



end
