(* ===== verification/Demux.thy ===== *)
theory Demux
  imports Sliced
begin

text \<open>What the demultiplexers of Teletext and Caption lines have in common: their \<^verbatim>\<open>feed_frame\<close> functions hand
  the lines they want, in order, to their \<^verbatim>\<open>feed\<close> function and stop at the first line that fails. \<^const>\<open>None\<close>
  is an access outside an array. The state \<^typ>\<open>'s\<close> holds the context and what the callback keeps.\<close>

subsection \<open>The loop of the \<^verbatim>\<open>feed_frame\<close> functions\<close>

fun feed_lines ::
  "(vbi_sliced \<Rightarrow> bool) \<Rightarrow> ('s \<Rightarrow> u8 list \<Rightarrow> (bool \<times> 's) option) \<Rightarrow> 's \<Rightarrow> vbi_sliced list \<Rightarrow> (bool \<times> 's) option" where
  "feed_lines wanted feed s [] = Some (True, s)"
| "feed_lines wanted feed s (x # xs) =
     (if wanted x then
        case feed s (data x) of
          None \<Rightarrow> None
        | Some (r, s') \<Rightarrow> if \<not> r then Some (False, s') else feed_lines wanted feed s' xs
      else feed_lines wanted feed s xs)"

definition sliced_ok :: "vbi_sliced \<Rightarrow> bool" where
  "sliced_ok x \<longleftrightarrow> length (data x) = 56"

lemma feed_lines_append:
  "feed_lines wanted feed s (xs @ ys) =
     (case feed_lines wanted feed s xs of
        None \<Rightarrow> None
      | Some (r, s') \<Rightarrow> if \<not> r then Some (False, s') else feed_lines wanted feed s' ys)"
  by (induction xs arbitrary: s) (auto split: option.splits)

lemma feed_lines_unwanted: "list_all (\<lambda>x. \<not> wanted x) xs \<Longrightarrow> feed_lines wanted feed s xs = Some (True, s)"
  by (induction xs) auto

subsection \<open>The contract of a \<^verbatim>\<open>feed\<close> function\<close>

locale demux =
  fixes feed :: "'s \<Rightarrow> u8 list \<Rightarrow> (bool \<times> 's) option" and ok :: "'s \<Rightarrow> bool"
  assumes feed_ok: "ok s \<Longrightarrow> length b = 56 \<Longrightarrow> feed s b = Some (r, s') \<Longrightarrow> ok s'"
begin

lemma feed_lines_ok:
  "ok s \<Longrightarrow> list_all sliced_ok xs \<Longrightarrow> feed_lines wanted feed s xs = Some (r, s') \<Longrightarrow> ok s'"
  by (induction xs arbitrary: s) (auto simp: sliced_ok_def split: if_splits option.splits dest: feed_ok)

end

locale total_demux = demux +
  assumes feed_total: "ok s \<Longrightarrow> length b = 56 \<Longrightarrow> feed s b \<noteq> None"
begin

lemma feed_lines_total:
  "ok s \<Longrightarrow> list_all sliced_ok xs \<Longrightarrow> \<exists>r s'. feed_lines wanted feed s xs = Some (r, s') \<and> ok s'"
proof (induction xs arbitrary: s)
  case (Cons x xs)
  show ?case
  proof (cases "wanted x")
    case True
    obtain r s' where f: "feed s (data x) = Some (r, s')"
      using feed_total [OF Cons(2), of "data x"] Cons(3) by (auto simp: sliced_ok_def)
    from f Cons True feed_ok [OF Cons(2) _ f] show ?thesis by (auto simp: sliced_ok_def)
  qed (use Cons in auto)
qed auto

end

end
