(* ===== verification/Pfc_Demux.thy ===== *)
theory Pfc_Demux
  imports Demux Hamm
begin

text \<open>The demultiplexer for Teletext Page Function Clear data, pfc_demux.c. It follows the packets of one
  page, and assembles the blocks their bytes carry: a block separator, a structure header of four Hamming
  coded bytes, then the bytes of the block; filler bytes stand between blocks. The counters are natural
  numbers, all far below \<open>2\<^sup>3\<^sup>2\<close>; \<^const>\<open>None\<close> is an access outside the packet or the block buffer.\<close>

unbundle bit_operations_syntax

subsection \<open>Data\<close>

record vbi_pfc_block =
  pgno :: int
  stream :: u32
  application_id :: u32
  block_size :: nat
  block :: "u8 list"

record vbi_pfc_demux =
  ci :: nat
  packet :: nat
  n_packets :: nat
  bi :: nat
  left :: nat
  blk :: vbi_pfc_block

type_synonym 'u pfc_cb = "vbi_pfc_block \<Rightarrow> 'u \<Rightarrow> bool \<times> 'u"

abbreviation (input) BLOCK_SEPARATOR :: int where "BLOCK_SEPARATOR \<equiv> 0x0C"
abbreviation (input) FILLER_BYTE :: int where "FILLER_BYTE \<equiv> 0x03"

subsection \<open>Operations\<close>

definition vbi_pfc_demux_reset :: "vbi_pfc_demux \<Rightarrow> vbi_pfc_demux" where
  "vbi_pfc_demux_reset dx =
     dx\<lparr>ci := 256, packet := 256, n_packets := 0, bi := 0, left := 0,
        blk := (blk dx)\<lparr>application_id := - 1\<rparr>\<rparr>"

datatype filler_result = Outside | No_more_data | Found int nat

function skip_filler :: "u8 list \<Rightarrow> nat \<Rightarrow> filler_result" where
  "skip_filler buffer col =
     (if length buffer \<le> col then Outside
      else
        let bs = vbi_unham8 (ucast (buffer ! col)) in
        if bs \<noteq> FILLER_BYTE then Found bs (col + 1)
        else if 42 \<le> col + 1 then No_more_data
        else skip_filler buffer (col + 1))"
  by pat_completeness auto
termination by (relation "measure (\<lambda>(buffer, col). length buffer - col)") auto

declare skip_filler.simps [simp del]

datatype 'u pfc_flow =
    Return "(bool \<times> vbi_pfc_demux \<times> 'u) option"
  | Continue vbi_pfc_demux 'u nat
  | Fall_through vbi_pfc_demux 'u nat

definition structure_header :: "u8 list \<Rightarrow> int" where
  "structure_header p = vbi_unham16p p + vbi_unham16p (drop 2 p) * 256"

definition pfc_copy ::
  "'u pfc_cb \<Rightarrow> vbi_pfc_demux \<Rightarrow> 'u \<Rightarrow> u8 list \<Rightarrow> nat \<Rightarrow> 'u pfc_flow" where
  "pfc_copy cb dx u buffer col =
     (if left dx > 0 then
        let size = min (left dx) (42 - col) in
        if length (block (blk dx)) < bi dx + size then Return None
        else
          let dx = dx\<lparr>blk := (blk dx)\<lparr>block := take (bi dx) (block (blk dx)) @ take size (drop col buffer)
                                               @ drop (bi dx + size) (block (blk dx))\<rparr>,
                      bi := bi dx + size, left := left dx - size\<rparr>
          in
          if left dx > 0 then Return (Some (True, dx, u))
          else
            let col = col + size in
            if sint (application_id (blk dx)) < 0 then
              let sh = structure_header (block (blk dx)) in
              if sh < 0 then Return (Some (False, vbi_pfc_demux_reset dx, u))
              else Continue (dx\<lparr>blk := (blk dx)\<lparr>application_id := word_of_int (sh AND 0x1F),
                                                block_size := nat (drop_bit 5 sh)\<rparr>,
                               bi := 0, left := nat (drop_bit 5 sh)\<rparr>) u col
            else
              let (r, u) = cb (blk dx) u in
              if \<not> r then Return (Some (False, vbi_pfc_demux_reset dx, u)) else Fall_through dx u col
      else Fall_through dx u col)"

definition pfc_separator ::
  "vbi_pfc_demux \<Rightarrow> 'u \<Rightarrow> u8 list \<Rightarrow> nat \<Rightarrow> nat \<Rightarrow> 'u pfc_flow" where
  "pfc_separator dx u buffer bp col =
     (let found = (if col \<le> 3 then
                     if bp \<ge> 39 then No_more_data
                     else Found (vbi_unham8 (ucast (buffer ! (bp + 4 - 1)))) (bp + 4)
                   else skip_filler buffer col)
      in case found of
           Outside \<Rightarrow> Return None
         | No_more_data \<Rightarrow> Return (Some (True, dx, u))
         | Found bs col \<Rightarrow>
             if BLOCK_SEPARATOR \<noteq> bs then Return (Some (False, vbi_pfc_demux_reset dx, u))
             else Continue (dx\<lparr>bi := 0, left := 4, blk := (blk dx)\<lparr>application_id := - 1\<rparr>\<rparr>) u col)"

lemma skip_filler_Found_less: "skip_filler buffer col = Found bs col' \<Longrightarrow> col < col'"
proof (induction buffer col rule: skip_filler.induct)
  case (1 buffer col)
  then show ?case
    by (subst (asm) (2) skip_filler.simps) (auto simp: Let_def split: if_splits)
qed

lemma pfc_copy_less:
  "pfc_copy cb dx u buffer col = Continue dx' u' col' \<Longrightarrow> col < 42 \<Longrightarrow> col < col'"
  "pfc_copy cb dx u buffer col = Fall_through dx' u' col' \<Longrightarrow> col < 42 \<Longrightarrow> col \<le> col'"
  by (auto simp: pfc_copy_def Let_def split: if_splits prod.splits)

lemma pfc_separator_less: "pfc_separator dx u buffer bp col = Continue dx' u' col' \<Longrightarrow> col < col'"
  by (auto simp: pfc_separator_def Let_def split: if_splits filler_result.splits
      dest: skip_filler_Found_less)

function decode_loop ::
  "'u pfc_cb \<Rightarrow> u8 list \<Rightarrow> nat \<Rightarrow> vbi_pfc_demux \<Rightarrow> 'u \<Rightarrow> nat \<Rightarrow> (bool \<times> vbi_pfc_demux \<times> 'u) option" where
  "decode_loop cb buffer bp dx u col =
     (if col < 42 then
        case pfc_copy cb dx u buffer col of
          Return r \<Rightarrow> r
        | Continue dx u col \<Rightarrow> decode_loop cb buffer bp dx u col
        | Fall_through dx u col \<Rightarrow>
            (case pfc_separator dx u buffer bp col of
               Return r \<Rightarrow> r
             | Continue dx u col \<Rightarrow> decode_loop cb buffer bp dx u col
             | Fall_through dx u col \<Rightarrow> None)
      else Some (True, dx, u))"
  by pat_completeness auto
termination
  by (relation "measure (\<lambda>(cb, buffer, bp, dx, u, col). 42 - col)")
    (auto dest!: pfc_copy_less pfc_separator_less)

declare decode_loop.simps [simp del]

definition pfc_demux_decode ::
  "'u pfc_cb \<Rightarrow> vbi_pfc_demux \<Rightarrow> 'u \<Rightarrow> u8 list \<Rightarrow> (bool \<times> vbi_pfc_demux \<times> 'u) option" where
  "pfc_demux_decode cb dx u buffer =
     (let bp = vbi_unham8 (ucast (buffer ! 2)) * 3 in
      if bp < 0 \<or> bp > 39 then Some (False, vbi_pfc_demux_reset dx, u)
      else decode_loop cb buffer (nat bp) dx u 3)"

definition vbi_pfc_demux_feed ::
  "'u pfc_cb \<Rightarrow> vbi_pfc_demux \<times> 'u \<Rightarrow> u8 list \<Rightarrow> (bool \<times> vbi_pfc_demux \<times> 'u) option" where
  "vbi_pfc_demux_feed cb s buffer =
     (let (dx, u) = s;
          desynced = Some (False, vbi_pfc_demux_reset dx, u);
          pmag = vbi_unham16p buffer in
      if pmag < 0 then desynced
      else
        let page = (if 0 = pmag AND 7 then 0x800 else push_bit 8 (pmag AND 7));
            pkt = nat (drop_bit 3 pmag) in
        if 0 = pkt then
          let page = page OR vbi_unham16p (drop 2 buffer) in
          if page < 0 then desynced
          else if page \<noteq> pgno (blk dx) then Some (True, dx\<lparr>n_packets := 0\<rparr>, u)
          else
            let subno = vbi_unham16p (drop 4 buffer) + vbi_unham16p (drop 6 buffer) * 256 in
            if subno < 0 then desynced
            else if word_of_int (drop_bit 8 subno AND 15) \<noteq> stream (blk dx) then Some (True, dx\<lparr>n_packets := 0\<rparr>, u)
            else
              let i = nat (subno AND 15);
                  dx = (if i \<noteq> ci dx then vbi_pfc_demux_reset dx else dx)
              in Some (True, dx\<lparr>ci := (i + 1) mod 16, packet := 1,
                                n_packets := nat ((drop_bit 4 subno AND 7) + (drop_bit 9 subno AND 0x18))\<rparr>, u)
        else if (page XOR pgno (blk dx)) AND 0xF00 \<noteq> 0 then Some (True, dx, u)
        else if 0 = n_packets dx then Some (True, dx, u)
        else if 25 < pkt then Some (True, dx, u)
        else if pkt \<noteq> packet dx \<or> n_packets dx < pkt then Some (True, vbi_pfc_demux_reset dx, u)
        else pfc_demux_decode cb (dx\<lparr>packet := pkt + 1\<rparr>) u buffer)"

definition vbi_pfc_demux_feed_frame ::
  "'u pfc_cb \<Rightarrow> vbi_pfc_demux \<times> 'u \<Rightarrow> vbi_sliced list \<Rightarrow> (bool \<times> vbi_pfc_demux \<times> 'u) option" where
  "vbi_pfc_demux_feed_frame cb s sliced =
     feed_lines (\<lambda>x. id x AND VBI_SLICED_TELETEXT_B \<noteq> 0) (vbi_pfc_demux_feed cb) s sliced"

definition pfc_demux_init :: "vbi_pfc_demux \<Rightarrow> int \<Rightarrow> u32 \<Rightarrow> vbi_pfc_demux" where
  "pfc_demux_init dx pg st =
     (let dx = vbi_pfc_demux_reset dx in dx\<lparr>blk := (blk dx)\<lparr>pgno := pg, stream := st\<rparr>\<rparr>)"

text \<open>The argument of \<^verbatim>\<open>vbi_pfc_demux_new\<close> here is the memory \<^verbatim>\<open>vbi_malloc\<close> returns, if any.\<close>

definition vbi_pfc_demux_new :: "vbi_pfc_demux option \<Rightarrow> int \<Rightarrow> u32 \<Rightarrow> vbi_pfc_demux option" where
  "vbi_pfc_demux_new mem pg st = map_option (\<lambda>dx. pfc_demux_init dx pg st) mem"

subsection \<open>The format of the byte stream\<close>

text \<open>The specification reads one byte at a time: it waits for a separator, collects a structure header, then
  the bytes of a block, and hands every complete block to the callback.\<close>

datatype stream_state = Idle | Head "u8 list" | Body u32 nat "u8 list"

type_synonym 'u block_cb = "u32 \<Rightarrow> u8 list \<Rightarrow> 'u \<Rightarrow> bool \<times> 'u"

definition header_done :: "u8 list \<Rightarrow> stream_state option" where
  "header_done bs =
     (let sh = structure_header bs in
      if sh < 0 then None
      else if drop_bit 5 sh = 0 then Some Idle
      else Some (Body (word_of_int (sh AND 0x1F)) (nat (drop_bit 5 sh)) []))"

text \<open>The result: whether the byte fits, the next state, and whether it completed a block.\<close>

fun stream_byte :: "'u block_cb \<Rightarrow> stream_state \<Rightarrow> 'u \<Rightarrow> u8 \<Rightarrow> bool \<times> stream_state \<times> 'u \<times> bool" where
  "stream_byte f Idle u b =
     (if vbi_unham8 (ucast b) = FILLER_BYTE then (True, Idle, u, False)
      else if vbi_unham8 (ucast b) = BLOCK_SEPARATOR then (True, Head [], u, False)
      else (False, Idle, u, False))"
| "stream_byte f (Head bs) u b =
     (if length bs < 3 then (True, Head (bs @ [b]), u, False)
      else case header_done (bs @ [b]) of None \<Rightarrow> (False, Idle, u, False) | Some st \<Rightarrow> (True, st, u, False))"
| "stream_byte f (Body a n bs) u b =
     (if length bs + 1 < n then (True, Body a n (bs @ [b]), u, False)
      else let (r, u) = f a (bs @ [b]) u in (r, Idle, u, r))"

fun stream_run ::
  "'u block_cb \<Rightarrow> bool \<Rightarrow> stream_state \<Rightarrow> 'u \<Rightarrow> u8 list \<Rightarrow> bool \<times> stream_state \<times> 'u \<times> bool" where
  "stream_run f d st u [] = (True, st, u, d)"
| "stream_run f d st u (b # bs) =
     (let (r, st, u, d) = stream_byte f st u b in
      if \<not> r then (False, Idle, u, False) else stream_run f d st u bs)"

text \<open>The last packet byte may complete a block. The code then reads the byte that follows the packet.\<close>

definition stream_packet ::
  "'u block_cb \<Rightarrow> stream_state \<Rightarrow> 'u \<Rightarrow> u8 list \<Rightarrow> u8 list \<Rightarrow> (bool \<times> stream_state \<times> 'u) option" where
  "stream_packet f st u bytes beyond =
     (let (r, st, u, d) = stream_run f False st u bytes in
      if r \<and> d then
        if beyond = [] then None
        else let (r, st, u, d) = stream_byte f Idle u (hd beyond) in Some (r, st, u)
      else Some (r, st, u))"

definition pfc_ok :: "vbi_pfc_demux \<Rightarrow> bool" where
  "pfc_ok dx \<longleftrightarrow> length (block (blk dx)) = 2048
     \<and> (left dx = 0
        \<or> (if sint (application_id (blk dx)) < 0 then bi dx + left dx = 4
           else bi dx + left dx = block_size (blk dx) \<and> block_size (blk dx) \<le> 2047))"

definition pfc_abs :: "vbi_pfc_demux \<Rightarrow> stream_state" where
  "pfc_abs dx =
     (if left dx = 0 then Idle
      else if sint (application_id (blk dx)) < 0 then Head (take (bi dx) (block (blk dx)))
      else Body (application_id (blk dx)) (block_size (blk dx)) (take (bi dx) (block (blk dx))))"

text \<open>A callback that looks at the bytes of the block only.\<close>

definition on_block :: "(int \<Rightarrow> u32 \<Rightarrow> 'u block_cb) \<Rightarrow> 'u pfc_cb" where
  "on_block f b u = f (pgno b) (stream b) (application_id b) (take (block_size b) (block b)) u"

subsection \<open>Correctness of the decoder\<close>

lemma stream_run_Head:
  "length bs + length cs < 4 \<Longrightarrow> stream_run f d (Head bs) u (cs @ ds) =
     stream_run f (d \<and> cs = []) (Head (bs @ cs)) u ds"
  by (induction cs arbitrary: bs d) auto

lemma stream_run_Body:
  "length bs + length cs < n \<Longrightarrow> stream_run f d (Body a n bs) u (cs @ ds) =
     stream_run f (d \<and> cs = []) (Body a n (bs @ cs)) u ds"
  by (induction cs arbitrary: bs d) auto

lemma stream_run_Head_done:
  assumes "length bs + length cs = 4" "cs \<noteq> []"
  shows "stream_run f d (Head bs) u (cs @ ds) =
    (case header_done (bs @ cs) of None \<Rightarrow> (False, Idle, u, False) | Some st \<Rightarrow> stream_run f False st u ds)"
proof -
  obtain cs' c where cs: "cs = cs' @ [c]" using assms(2) by (metis rev_exhaust)
  show ?thesis
    using assms stream_run_Head [of bs cs' f d u "c # ds"] by (auto simp: cs split: option.splits)
qed

lemma stream_run_Body_done:
  assumes "length bs + length cs = n" "cs \<noteq> []"
  shows "stream_run f d (Body a n bs) u (cs @ ds) =
    (let (r, u) = f a (bs @ cs) u in if \<not> r then (False, Idle, u, False) else stream_run f True Idle u ds)"
proof -
  obtain cs' c where cs: "cs = cs' @ [c]" using assms(2) by (metis rev_exhaust)
  show ?thesis
    using assms stream_run_Body [of bs cs' n f d a u "c # ds"] by (auto simp: cs split: prod.splits)
qed

lemma structure_header_range:
  "structure_header p < 65536" "0 \<le> structure_header p \<Longrightarrow> nat (drop_bit 5 (structure_header p)) \<le> 2047"
proof -
  show "structure_header p < 65536"
    using vbi_unham16p_lt [of p] vbi_unham16p_lt [of "drop 2 p"] by (simp add: structure_header_def)
  then show "nat (drop_bit 5 (structure_header p)) \<le> 2047" if "0 \<le> structure_header p"
    using that by (simp add: drop_bit_eq_div)
qed

lemma drop_bit_le_0: "\<not> k < 0 \<Longrightarrow> drop_bit n k \<le> 0 \<longleftrightarrow> drop_bit n k = 0" for k :: int
  using drop_bit_nonnegative_int_iff [of n k] by linarith

lemma application_id_range [simp]: "\<not> sint (word_of_int (sh AND 0x1F) :: u32) < 0"
  by (simp add: bit_last_iff [symmetric] bit_word_of_int_iff bit_simps)

lemma pfc_ok_reset: "pfc_ok dx \<Longrightarrow> pfc_ok (vbi_pfc_demux_reset dx)"
  by (simp add: pfc_ok_def vbi_pfc_demux_reset_def)

lemma pfc_abs_reset: "pfc_abs (vbi_pfc_demux_reset dx) = Idle"
  by (simp add: pfc_abs_def vbi_pfc_demux_reset_def)

definition bytes_from :: "u8 list \<Rightarrow> nat \<Rightarrow> u8 list" where
  "bytes_from buffer col = take (42 - col) (drop col buffer)"

lemma bytes_from_split:
  "col + sz \<le> 42 \<Longrightarrow> bytes_from buffer col = take sz (drop col buffer) @ bytes_from buffer (col + sz)"
  by (simp add: bytes_from_def take_add [symmetric] add.commute)
    (metis (no_types, lifting) add.commute diff_diff_left drop_drop le_add_diff_inverse le_diff_conv2 take_add
      add_leD1)

lemma bytes_from_Cons:
  "col < 42 \<Longrightarrow> 42 \<le> length buffer \<Longrightarrow> bytes_from buffer col = buffer ! col # bytes_from buffer (col + 1)"
  using bytes_from_split [of col 1 buffer] by (simp add: take_Suc_conv_app_nth hd_drop_conv_nth take_Suc)

lemma bytes_from_42 [simp]: "42 \<le> col \<Longrightarrow> bytes_from buffer col = []"
  by (simp add: bytes_from_def)

lemma skip_filler_stream:
  assumes "col < 42" "42 \<le> length buffer"
  shows "case skip_filler buffer col of
      Outside \<Rightarrow> False
    | No_more_data \<Rightarrow> stream_run f d Idle u (bytes_from buffer col) = (True, Idle, u, False)
    | Found bs col' \<Rightarrow> col < col' \<and> col' \<le> 42 \<and>
        stream_run f d Idle u (bytes_from buffer col) =
          (if bs = BLOCK_SEPARATOR then stream_run f False (Head []) u (bytes_from buffer col')
           else (False, Idle, u, False))"
  using assms
proof (induction buffer col arbitrary: d rule: skip_filler.induct)
  case (1 buffer col)
  show ?case
    using 1(2,3) 1(1) [OF _ refl, of False]
    by (subst skip_filler.simps) (auto simp: Let_def bytes_from_Cons split: filler_result.split)
qed

lemma skip_filler_end:
  "42 \<le> length buffer \<Longrightarrow> skip_filler buffer 42 =
     (if length buffer = 42 then Outside
      else if vbi_unham8 (ucast (buffer ! 42)) = FILLER_BYTE then No_more_data
      else Found (vbi_unham8 (ucast (buffer ! 42))) 43)"
  by (subst skip_filler.simps) (simp add: Let_def)

definition same_stream :: "vbi_pfc_demux \<Rightarrow> vbi_pfc_demux \<Rightarrow> bool" where
  "same_stream dx dx' \<longleftrightarrow> pgno (blk dx') = pgno (blk dx) \<and> stream (blk dx') = stream (blk dx)"

definition pfc_result ::
  "vbi_pfc_demux \<Rightarrow> (bool \<times> vbi_pfc_demux \<times> 'u) option \<Rightarrow> (bool \<times> stream_state \<times> 'u) option \<Rightarrow> bool" where
  "pfc_result dx r s \<longleftrightarrow>
     (case r of
        None \<Rightarrow> s = None
      | Some (ok, dx', u) \<Rightarrow> s = Some (ok, pfc_abs dx', u) \<and> pfc_ok dx' \<and> same_stream dx dx')"

lemma structure_header_prefix: "4 \<le> length p \<Longrightarrow> structure_header (take 4 p) = structure_header p"
  by (simp add: structure_header_def vbi_unham16p_def)

lemma pfc_copy_stream:
  fixes u :: 'u
  assumes "pfc_ok dx" "42 \<le> length buffer" "col < 42" "0 < left dx"
    and f: "f = g (pgno (blk dx)) (stream (blk dx))"
  defines "run \<equiv> stream_run f False (pfc_abs dx) u (bytes_from buffer col)"
  shows "case pfc_copy (on_block g) dx u buffer col of
      Return r \<Rightarrow> (case r of None \<Rightarrow> False
        | Some (ok, dx', u') \<Rightarrow> pfc_ok dx' \<and> same_stream dx dx' \<and> run = (ok, pfc_abs dx', u', False))
    | Continue dx' u' col' \<Rightarrow> pfc_ok dx' \<and> same_stream dx dx' \<and> col < col' \<and> col' \<le> 42
        \<and> run = stream_run f False (pfc_abs dx') u' (bytes_from buffer col')
    | Fall_through dx' u' col' \<Rightarrow> pfc_ok dx' \<and> same_stream dx dx' \<and> left dx' = 0 \<and> col < col' \<and> col' \<le> 42
        \<and> run = stream_run f True Idle u' (bytes_from buffer col')"
proof -
  define sz where "sz = min (left dx) (42 - col)"
  define chunk where "chunk = take sz (drop col buffer)"
  define old where "old = take (bi dx) (block (blk dx))"
  define new where "new = old @ chunk @ drop (bi dx + sz) (block (blk dx))"
  have sz: "0 < sz" "col + sz \<le> 42" "sz \<le> left dx" using assms by (auto simp: sz_def)
  have chunk: "length chunk = sz" "chunk \<noteq> []" using sz assms(2) by (auto simp: chunk_def)
  have fits: "bi dx + left dx \<le> 2048" "length (block (blk dx)) = 2048"
    using assms(1,4) by (auto simp: pfc_ok_def split: if_splits)
  have old: "length old = bi dx" using fits by (simp add: old_def)
  have new: "length new = 2048" "take (bi dx + sz) new = old @ chunk" using old chunk fits sz by (auto simp: new_def)
  have split: "bytes_from buffer col = chunk @ bytes_from buffer (col + sz)"
    using bytes_from_split [OF sz(2)] by (simp add: chunk_def)
  note run = run_def [unfolded split]
  note copy = pfc_copy_def [unfolded Let_def, of "on_block g" dx u buffer col, folded sz_def, folded chunk_def,
      folded old_def, folded new_def]
  show ?thesis
  proof (cases "sz < left dx")
    case True
    then have "col + sz = 42" using sz by (auto simp: sz_def min_def)
    then have b: "bytes_from buffer (col + sz) = []" by simp
    show ?thesis
      using True assms(1,4) fits sz old chunk new
      unfolding run copy b
      by (auto simp: pfc_ok_def pfc_abs_def old_def [symmetric] stream_run_Head [of _ _ _ _ _ "[]", simplified]
          stream_run_Body [of _ _ _ _ _ _ _ "[]", simplified] same_stream_def split: if_splits)
  next
    case False
    then have eq: "sz = left dx" using sz by simp
    show ?thesis
    proof (cases "sint (application_id (blk dx)) < 0")
      case True
      then have four: "bi dx + sz = 4" using assms(1,4) eq by (auto simp: pfc_ok_def)
      have h: "structure_header (old @ chunk) = structure_header new"
        using structure_header_prefix [of new] new four by simp
      have a: "pfc_abs dx = Head old" using True assms(4) by (simp add: pfc_abs_def old_def)
      have r: "run = (case header_done (old @ chunk) of None \<Rightarrow> (False, Idle, u, False)
          | Some st \<Rightarrow> stream_run f False st u (bytes_from buffer (col + sz)))"
        unfolding run a by (rule stream_run_Head_done) (use chunk old four in auto)
      show ?thesis
        using True assms(1,4) fits sz new eq pfc_ok_reset [of "dx\<lparr>blk := (blk dx)\<lparr>block := new\<rparr>\<rparr>"]
          structure_header_range [of new] unfolding copy r header_done_def h Let_def
        by (auto simp: pfc_ok_def pfc_abs_def vbi_pfc_demux_reset_def same_stream_def drop_bit_le_0)
    next
      case False
      then have n: "bi dx + sz = block_size (blk dx)" using assms(1,4) eq by (auto simp: pfc_ok_def)
      have a: "pfc_abs dx = Body (application_id (blk dx)) (block_size (blk dx)) old"
        using False assms(4) by (simp add: pfc_abs_def old_def)
      have r: "run = (let (r, u) = f (application_id (blk dx)) (old @ chunk) u
          in if \<not> r then (False, Idle, u, False) else stream_run f True Idle u (bytes_from buffer (col + sz)))"
        unfolding run a by (rule stream_run_Body_done) (use chunk old n in auto)
      show ?thesis
        using False assms(1,4) fits sz new eq n unfolding copy r f Let_def
        by (auto simp: pfc_ok_def pfc_abs_def vbi_pfc_demux_reset_def same_stream_def on_block_def
            split: prod.splits)
    qed
  qed
qed

lemma pfc_separator_stream:
  fixes u :: 'u and f :: "'u block_cb" and d :: bool
  assumes "pfc_ok dx" "42 \<le> length buffer" "3 < col" "col < 42" "left dx = 0"
  defines "run \<equiv> stream_run f d Idle u (bytes_from buffer col)"
  shows "case pfc_separator dx u buffer bp col of
      Return r \<Rightarrow> (case r of None \<Rightarrow> False
        | Some (ok, dx', u') \<Rightarrow> pfc_ok dx' \<and> same_stream dx dx' \<and> run = (ok, pfc_abs dx', u', False))
    | Continue dx' u' col' \<Rightarrow> pfc_ok dx' \<and> same_stream dx dx' \<and> col < col' \<and> col' \<le> 42
        \<and> run = stream_run f False (pfc_abs dx') u' (bytes_from buffer col')
    | Fall_through dx' u' col' \<Rightarrow> False"
  using skip_filler_stream [OF assms(4,2), of f d u] assms(1,3,5)
  by (auto simp: pfc_separator_def run_def pfc_ok_def pfc_abs_def vbi_pfc_demux_reset_def same_stream_def
      split: filler_result.splits if_splits)

lemma pfc_separator_end:
  assumes "pfc_ok dx" "42 \<le> length buffer" "left dx = 0"
  shows "pfc_result dx
    (case pfc_separator dx u buffer bp 42 of
       Return r \<Rightarrow> r | Continue dx u col \<Rightarrow> decode_loop g buffer bp dx u col | Fall_through dx u col \<Rightarrow> None)
    (if drop 42 buffer = [] then None
     else let (r, st, u, d) = stream_byte f Idle u (hd (drop 42 buffer)) in Some (r, st, u))"
  using assms
  by (auto simp: pfc_separator_def skip_filler_end pfc_result_def pfc_ok_def pfc_abs_def hd_drop_conv_nth
      vbi_pfc_demux_reset_def same_stream_def decode_loop.simps)

lemma same_stream_trans: "same_stream a b \<Longrightarrow> same_stream b c \<Longrightarrow> same_stream a c"
  by (simp add: same_stream_def)

lemma pfc_result_trans: "same_stream dx dx' \<Longrightarrow> pfc_result dx' r s \<Longrightarrow> pfc_result dx r s"
  by (auto simp: pfc_result_def intro: same_stream_trans split: option.splits)

lemma decode_loop_stream:
  assumes "pfc_ok dx" "42 \<le> length buffer" "3 \<le> col" "col \<le> 42" "3 < col \<or> 0 < left dx"
  shows "pfc_result dx (decode_loop (on_block g) buffer bp dx u col)
    (stream_packet (g (pgno (blk dx)) (stream (blk dx))) (pfc_abs dx) u (bytes_from buffer col) (drop 42 buffer))"
  using assms
proof (induction "on_block g" buffer bp dx u col rule: decode_loop.induct)
  case (1 buffer bp dx u col)
  let ?f = "g (pgno (blk dx)) (stream (blk dx))"
  show ?case
  proof (cases "col < 42")
    case False
    then show ?thesis
      using 1(3,6) by (subst decode_loop.simps) (simp add: pfc_result_def stream_packet_def same_stream_def)
  next
    case True
    note copy = pfc_copy_stream [OF 1(3,4) True _ refl, where u = u and g = g]
    show ?thesis
    proof (cases "pfc_copy (on_block g) dx u buffer col")
      case (Return r)
      have "0 < left dx" using Return by (cases "left dx") (auto simp: pfc_copy_def)
      with copy Return True show ?thesis
        by (subst decode_loop.simps) (auto simp: pfc_result_def stream_packet_def split: option.splits)
    next
      case (Continue dx' u' col')
      have "0 < left dx" using Continue by (cases "left dx") (auto simp: pfc_copy_def)
      with copy Continue have c: "pfc_ok dx'" "same_stream dx dx'" "col < col'" "col' \<le> 42"
        "stream_run ?f False (pfc_abs dx) u (bytes_from buffer col)
           = stream_run ?f False (pfc_abs dx') u' (bytes_from buffer col')" by auto
      have p: "stream_packet ?f (pfc_abs dx) u (bytes_from buffer col) (drop 42 buffer)
          = stream_packet ?f (pfc_abs dx') u' (bytes_from buffer col') (drop 42 buffer)"
        by (simp only: stream_packet_def c)
      have g: "g (pgno (blk dx')) (stream (blk dx')) = ?f" using c(2) by (simp add: same_stream_def)
      have "pfc_result dx' (decode_loop (on_block g) buffer bp dx' u' col')
          (stream_packet ?f (pfc_abs dx) u (bytes_from buffer col) (drop 42 buffer))"
        using 1(1) [OF True Continue c(1) 1(4)] 1(5) c(3,4) unfolding g p by simp
      then show ?thesis
        using True Continue c(2) by (subst decode_loop.simps) (simp add: pfc_result_trans)
    next
      case (Fall_through dx' u' col')
      define d where "d = (0 < left dx)"
      have c: "pfc_ok dx'" "same_stream dx dx'" "left dx' = 0" "3 < col'" "col' \<le> 42" "d \<or> col' < 42"
        "stream_run ?f False (pfc_abs dx) u (bytes_from buffer col)
           = stream_run ?f d Idle u' (bytes_from buffer col')"
        using copy Fall_through 1(3,5,7) True
        by (auto simp: d_def pfc_copy_def pfc_abs_def same_stream_def split: if_splits)
      have g: "g (pgno (blk dx')) (stream (blk dx')) = ?f" using c(2) by (simp add: same_stream_def)
      let ?sep = "case pfc_separator dx' u' buffer bp col' of
        Return r \<Rightarrow> r | Continue dx u col \<Rightarrow> decode_loop (on_block g) buffer bp dx u col | Fall_through dx u col \<Rightarrow> None"
      have "pfc_result dx' ?sep
        (stream_packet ?f (pfc_abs dx) u (bytes_from buffer col) (drop 42 buffer))"
      proof (cases "col' < 42")
        case False
        then show ?thesis
          using c pfc_separator_end [OF c(1) 1(4) c(3), where u = u' and bp = bp and g = "on_block g" and f = ?f]
          by (simp add: stream_packet_def c(7))
      next
        case less: True
        note sep = pfc_separator_stream [OF c(1) 1(4) c(4) less c(3), where f = ?f and u = u' and d = d and bp = bp]
        show ?thesis
        proof (cases "pfc_separator dx' u' buffer bp col'")
          case (Continue dx2 u2 col2)
          with sep have c2: "pfc_ok dx2" "same_stream dx' dx2" "col' < col2" "col2 \<le> 42"
            "stream_run ?f d Idle u' (bytes_from buffer col')
               = stream_run ?f False (pfc_abs dx2) u2 (bytes_from buffer col2)" by auto
          have g2: "g (pgno (blk dx2)) (stream (blk dx2)) = ?f" using c(2) c2(2) by (simp add: same_stream_def)
          have p: "stream_packet ?f (pfc_abs dx) u (bytes_from buffer col) (drop 42 buffer)
              = stream_packet ?f (pfc_abs dx2) u2 (bytes_from buffer col2) (drop 42 buffer)"
            by (simp only: stream_packet_def c(7) c2(5))
          have "pfc_result dx2 (decode_loop (on_block g) buffer bp dx2 u2 col2)
              (stream_packet ?f (pfc_abs dx) u (bytes_from buffer col) (drop 42 buffer))"
            using 1(2) [OF True Fall_through Continue c2(1) 1(4)] c(4) c2(3,4) unfolding g2 p by simp
          then show ?thesis using Continue c2(2) by (simp add: pfc_result_trans)
        qed (use sep in \<open>auto simp: pfc_result_def stream_packet_def c(7) split: option.splits\<close>)
      qed
      then show ?thesis
        using True Fall_through c(2) by (subst decode_loop.simps) (simp add: pfc_result_trans)
    qed
  qed
qed

definition stream_decode ::
  "'u block_cb \<Rightarrow> stream_state \<Rightarrow> 'u \<Rightarrow> u8 list \<Rightarrow> (bool \<times> stream_state \<times> 'u) option" where
  "stream_decode f st u buffer =
     (let bp = vbi_unham8 (ucast (buffer ! 2)); start = 3 + 3 * nat bp in
      if bp < 0 \<or> 13 < bp then Some (False, Idle, u)
      else if st \<noteq> Idle then stream_packet f st u (bytes_from buffer 3) (drop 42 buffer)
      else if bp = 13 then Some (True, Idle, u)
      else if vbi_unham8 (ucast (buffer ! start)) \<noteq> BLOCK_SEPARATOR then Some (False, Idle, u)
      else stream_packet f Idle u (bytes_from buffer start) (drop 42 buffer))"

lemma pfc_abs_Idle: "pfc_abs dx = Idle \<longleftrightarrow> left dx = 0"
  by (simp add: pfc_abs_def)

lemma decode_loop_first:
  assumes "left dx = 0" "bp < 39"
  shows "decode_loop cb buffer bp dx u 3 =
    (if vbi_unham8 (ucast (buffer ! (bp + 3))) = BLOCK_SEPARATOR
     then decode_loop cb buffer bp (dx\<lparr>bi := 0, left := 4, blk := (blk dx)\<lparr>application_id := - 1\<rparr>\<rparr>) u (bp + 4)
     else Some (False, vbi_pfc_demux_reset dx, u))"
  using assms by (subst decode_loop.simps) (auto simp: pfc_copy_def pfc_separator_def add.commute)

lemma same_stream_reset: "same_stream dx (vbi_pfc_demux_reset dx)"
  by (simp add: same_stream_def vbi_pfc_demux_reset_def)

text \<open>C19: Decoding a packet refines the specification of the byte stream: a packet continues the block at hand, or
  starts at the separator the block pointer names; the blocks delivered, the result and the new state are those
  of reading the 39 bytes one by one. The specification fails with \<^const>\<open>None\<close>, a read beyond the 42 bytes of the
  packet, exactly if nothing follows them and the last one completes a block.\<close>

theorem pfc_decode_refines:
  assumes "pfc_ok dx" "42 \<le> length buffer"
  shows "pfc_result dx (pfc_demux_decode (on_block g) dx u buffer)
    (stream_decode (g (pgno (blk dx)) (stream (blk dx))) (pfc_abs dx) u buffer)"
proof -
  define bp where "bp = vbi_hamm8_inv ! unat (buffer ! 2)"
  let ?f = "g (pgno (blk dx)) (stream (blk dx))"
  consider (bad) "bp < 0 \<or> 13 < bp" | (cont) "0 \<le> bp" "bp \<le> 13" "0 < left dx"
    | (none) "bp = 13" "left dx = 0" | (start) "0 \<le> bp" "bp < 13" "left dx = 0" by linarith
  then show ?thesis
  proof cases
    case bad
    then show ?thesis
      using assms by (auto simp: pfc_demux_decode_def stream_decode_def bp_def [symmetric] pfc_result_def
          pfc_ok_reset pfc_abs_reset same_stream_reset Let_def)
  next
    case cont
    then show ?thesis
      using decode_loop_stream [OF assms, of 3 g "nat (bp * 3)" u]
      by (simp add: pfc_demux_decode_def stream_decode_def bp_def [symmetric] Let_def pfc_abs_Idle)
  next
    case none
    then show ?thesis
      using assms by (simp add: pfc_demux_decode_def stream_decode_def bp_def [symmetric] Let_def pfc_abs_Idle)
        (subst decode_loop.simps, auto simp: pfc_copy_def pfc_separator_def pfc_result_def pfc_abs_def
          same_stream_def)
  next
    case start
    let ?dx = "dx\<lparr>bi := 0, left := 4, blk := (blk dx)\<lparr>application_id := - 1\<rparr>\<rparr>"
    define st where "st = 3 + 3 * nat bp"
    have st: "st < 42" "nat (bp * 3) < 39" "nat (bp * 3) + 3 = st" using start by (auto simp: st_def nat_mult_distrib)
    have s: "pfc_ok ?dx" "same_stream dx ?dx" "pfc_abs ?dx = Head []"
      using assms(1) by (auto simp: pfc_ok_def same_stream_def pfc_abs_def)
    have "pfc_result ?dx (decode_loop (on_block g) buffer (nat (bp * 3)) ?dx u (st + 1))
        (stream_packet ?f (Head []) u (bytes_from buffer (st + 1)) (drop 42 buffer))"
      using decode_loop_stream [OF s(1) assms(2), of "st + 1" g "nat (bp * 3)" u] st s(3) by (simp add: st_def)
    moreover have "stream_packet ?f Idle u (bytes_from buffer st) (drop 42 buffer)
        = stream_packet ?f (Head []) u (bytes_from buffer (st + 1)) (drop 42 buffer)"
      if "vbi_unham8 (ucast (buffer ! st)) = BLOCK_SEPARATOR"
      using that st assms(2) by (simp add: stream_packet_def bytes_from_Cons)
    moreover have "pfc_demux_decode (on_block g) dx u buffer = decode_loop (on_block g) buffer (nat (bp * 3)) dx u 3"
      using start by (simp add: pfc_demux_decode_def bp_def [symmetric] Let_def)
    moreover have "stream_decode ?f (pfc_abs dx) u buffer =
        (if vbi_unham8 (ucast (buffer ! st)) \<noteq> BLOCK_SEPARATOR then Some (False, Idle, u)
         else stream_packet ?f Idle u (bytes_from buffer st) (drop 42 buffer))"
      using start by (simp add: stream_decode_def bp_def [symmetric] Let_def st_def pfc_abs_Idle)
    moreover have "decode_loop (on_block g) buffer (nat (bp * 3)) dx u 3 =
        (if vbi_unham8 (ucast (buffer ! st)) \<noteq> BLOCK_SEPARATOR then Some (False, vbi_pfc_demux_reset dx, u)
         else decode_loop (on_block g) buffer (nat (bp * 3)) ?dx u (st + 1))"
      using decode_loop_first [OF start(3) st(2), of "on_block g" buffer u]
      by (simp add: st(3) [symmetric] add.commute)
    moreover have "pfc_result dx (Some (False, vbi_pfc_demux_reset dx, u)) (Some (False, Idle, u))"
      using assms(1) by (simp add: pfc_ok_reset pfc_abs_reset same_stream_reset pfc_result_def)
    ultimately show ?thesis
      using pfc_result_trans [OF s(2)] by (simp only: split: if_splits) auto
  qed
qed

definition filler_packet :: "u8 list" where
  "filler_packet = [0x15, 0x15, 0x15, 0x31] @ replicate 39 0x15"

lemma pfc_ok_init: "length (block (blk dx)) = 2048 \<Longrightarrow> pfc_ok (pfc_demux_init dx pg st)"
  by (simp add: pfc_ok_def pfc_demux_init_def vbi_pfc_demux_reset_def Let_def)

definition zero_dx :: vbi_pfc_demux where
  "zero_dx = \<lparr>ci = 0, packet = 0, n_packets = 0, bi = 0, left = 0,
     blk = \<lparr>pgno = 0, stream = 0, application_id = 0, block_size = 0, block = replicate 2048 0\<rparr>\<rparr>"

theorem pfc_decode_refines_witness:
  "let dx = pfc_demux_init zero_dx 0x1DF 3; g = (\<lambda>pg st a bs u. (True, (pg, st, a, bs) # u))
   in pfc_result dx (pfc_demux_decode (on_block g) dx [] filler_packet)
        (stream_decode (g 0x1DF 3) (pfc_abs dx) [] filler_packet)"
proof -
  have ok: "pfc_ok (pfc_demux_init zero_dx 0x1DF 3)" by (rule pfc_ok_init) (simp add: zero_dx_def)
  have b: "pgno (blk (pfc_demux_init zero_dx 0x1DF 3)) = 0x1DF" "stream (blk (pfc_demux_init zero_dx 0x1DF 3)) = 3"
    by (simp_all add: pfc_demux_init_def Let_def)
  show ?thesis
    using pfc_decode_refines [OF ok, of filler_packet "\<lambda>pg st a bs u. (True, (pg, st, a, bs) # u)" "[]"]
    unfolding b Let_def by (simp add: filler_packet_def)
qed

subsection \<open>No access outside the buffers\<close>

lemma pfc_copy_ok:
  assumes "pfc_ok dx" "42 \<le> length buffer" "col < 42" "3 \<le> col"
  shows "case pfc_copy cb dx u buffer col of
      Return r \<Rightarrow> (\<exists>ok dx' u'. r = Some (ok, dx', u') \<and> pfc_ok dx')
    | Continue dx' u' col' \<Rightarrow> pfc_ok dx' \<and> col \<le> col'
    | Fall_through dx' u' col' \<Rightarrow> pfc_ok dx' \<and> left dx' = 0 \<and> col \<le> col' \<and> col' \<le> 42"
  using assms structure_header_range(2)
  by (auto simp: pfc_copy_def Let_def pfc_ok_def vbi_pfc_demux_reset_def split: prod.split)

lemma skip_filler_inside: "col \<le> 42 \<Longrightarrow> 42 < length buffer \<Longrightarrow> skip_filler buffer col \<noteq> Outside"
proof (induction buffer col rule: skip_filler.induct)
  case (1 buffer col)
  then show ?case by (subst skip_filler.simps) (auto simp: Let_def)
qed

lemma pfc_separator_ok:
  assumes "pfc_ok dx" "42 < length buffer" "3 \<le> col" "col \<le> 42" "left dx = 0"
  shows "case pfc_separator dx u buffer bp col of
      Return r \<Rightarrow> (\<exists>ok dx' u'. r = Some (ok, dx', u') \<and> pfc_ok dx')
    | Continue dx' u' col' \<Rightarrow> pfc_ok dx' \<and> col < col'
    | Fall_through dx' u' col' \<Rightarrow> False"
  using assms skip_filler_inside [of col buffer] skip_filler_Found_less [of buffer col]
  by (auto simp: pfc_separator_def Let_def pfc_ok_def vbi_pfc_demux_reset_def split: filler_result.split)

lemma decode_loop_ok:
  "pfc_ok dx \<Longrightarrow> 42 < length buffer \<Longrightarrow> 3 \<le> col \<Longrightarrow>
     \<exists>ok dx' u'. decode_loop cb buffer bp dx u col = Some (ok, dx', u') \<and> pfc_ok dx'"
proof (induction cb buffer bp dx u col rule: decode_loop.induct)
  case (1 cb buffer bp dx u col)
  show ?case
  proof (cases "col < 42")
    case True
    note copy = pfc_copy_ok [OF 1(3) _ True 1(5), of buffer cb u]
    show ?thesis
    proof (cases "pfc_copy cb dx u buffer col")
      case (Fall_through dx' u' col')
      note sep = pfc_separator_ok [of dx' buffer col' u' bp]
      show ?thesis
        using copy sep Fall_through True 1(2) [OF True Fall_through] 1(4,5)
        by (subst decode_loop.simps) (auto split: pfc_flow.split)
    qed (use copy True 1(1) [OF True] 1(4,5) in \<open>subst decode_loop.simps, auto\<close>)+
  qed (use 1(3) in \<open>subst decode_loop.simps, auto\<close>)
qed

lemma pfc_ok_simps [simp]:
  "pfc_ok (dx\<lparr>ci := a\<rparr>) = pfc_ok dx" "pfc_ok (dx\<lparr>packet := a\<rparr>) = pfc_ok dx" "pfc_ok (dx\<lparr>n_packets := a\<rparr>) = pfc_ok dx"
  by (simp_all add: pfc_ok_def)

definition pfc_fine :: "(bool \<times> vbi_pfc_demux \<times> 'u) option \<Rightarrow> bool" where
  "pfc_fine r \<longleftrightarrow> (case r of None \<Rightarrow> False | Some (ok, dx, u) \<Rightarrow> pfc_ok dx)"

lemma pfc_fine_iff: "pfc_fine r \<longleftrightarrow> (\<exists>ok dx u. r = Some (ok, dx, u) \<and> pfc_ok dx)"
  by (auto simp: pfc_fine_def split: option.split)

lemma pfc_fine_Some [simp]: "pfc_fine (Some (ok, dx, u)) = pfc_ok dx"
  by (simp add: pfc_fine_def)

lemma pfc_fine_if: "pfc_fine a \<Longrightarrow> pfc_fine b \<Longrightarrow> pfc_fine (if c then a else b)"
  by simp

lemma pfc_decode_fine: "pfc_ok dx \<Longrightarrow> 42 < length buffer \<Longrightarrow> pfc_fine (pfc_demux_decode cb dx u buffer)"
  unfolding pfc_demux_decode_def Let_def
  by (intro pfc_fine_if decode_loop_ok [folded pfc_fine_iff]) (simp_all add: pfc_ok_reset)

lemma pfc_feed_ok:
  assumes "pfc_ok dx" "42 < length buffer"
  shows "\<exists>ok dx' u'. vbi_pfc_demux_feed cb (dx, u) buffer = Some (ok, dx', u') \<and> pfc_ok dx'"
  unfolding pfc_fine_iff [symmetric] vbi_pfc_demux_feed_def Let_def prod.case
  by (intro pfc_fine_if pfc_decode_fine) (simp_all only: pfc_fine_Some pfc_ok_simps pfc_ok_reset if_cancel assms split: if_split, simp_all add: assms)

interpretation pfc: total_demux "vbi_pfc_demux_feed cb" "\<lambda>s. pfc_ok (fst s)"
proof unfold_locales
  fix s :: "vbi_pfc_demux \<times> 'a" and b r s'
  assume a: "pfc_ok (fst s)" "length (b :: u8 list) = 56"
  then show "vbi_pfc_demux_feed cb s b \<noteq> None"
    using pfc_feed_ok [of "fst s" b cb "snd s"] by auto
  assume "vbi_pfc_demux_feed cb s b = Some (r, s')"
  then show "pfc_ok (fst s')" using a pfc_feed_ok [of "fst s" b cb "snd s"] by auto
qed

text \<open>C20: Whatever lines arrive and whatever the callback does, \<^verbatim>\<open>vbi_pfc_demux_feed_frame\<close> on lines of 56 bytes
  returns, never accesses memory outside the line or the block buffer of 2048 bytes, and keeps the
  invariant of the context, in particular that the bytes stored and the bytes left fit the buffer.\<close>

theorem pfc_feed_frame_safe:
  assumes "pfc_ok dx" "list_all sliced_ok sliced"
  shows "\<exists>ok dx' u'. vbi_pfc_demux_feed_frame cb (dx, u) sliced = Some (ok, dx', u') \<and> pfc_ok dx'
    \<and> (left dx' = 0 \<or> bi dx' + left dx' \<le> 2048)"
proof -
  have "\<exists>r s'. vbi_pfc_demux_feed_frame cb (dx, u) sliced = Some (r, s') \<and> pfc_ok (fst s')"
    unfolding vbi_pfc_demux_feed_frame_def by (rule pfc.feed_lines_total) (use assms in auto)
  then obtain r s' where f: "vbi_pfc_demux_feed_frame cb (dx, u) sliced = Some (r, s')" "pfc_ok (fst s')"
    by blast
  then show ?thesis by (cases s') (auto simp: pfc_ok_def split: if_splits)
qed

definition filler_line :: vbi_sliced where
  "filler_line = \<lparr>id = VBI_SLICED_TELETEXT_B, line = 7, data = filler_packet @ replicate 13 0\<rparr>"

theorem pfc_feed_frame_safe_witness:
  "\<exists>ok dx' u'. vbi_pfc_demux_feed_frame (\<lambda>b n. (True, n + 1)) (pfc_demux_init zero_dx 0x1DF 3, 0 :: nat)
      [filler_line, filler_line] = Some (ok, dx', u') \<and> pfc_ok dx'
    \<and> (left dx' = 0 \<or> bi dx' + left dx' \<le> 2048)"
  by (rule pfc_feed_frame_safe)
    (simp_all add: pfc_ok_init zero_dx_def sliced_ok_def filler_line_def filler_packet_def)

text \<open>A block that ends with its packet makes the decoder read the byte after the 42 bytes of the packet; and an
  error in the first pair of a structure header goes unnoticed if the second pair is not zero, since its value
  is added to the negative value of the first.\<close>

lemma pfc_reads_past_packet:
  "pfc_demux_decode (\<lambda>b u. (True, u))
     (zero_dx\<lparr>left := 39, blk := (blk zero_dx)\<lparr>block_size := 39\<rparr>\<rparr>) () (replicate 42 0x15) = None"
  by code_simp

lemma structure_header_misses_error:
  "vbi_unham16p [0x01, 0x15] < 0 \<and> structure_header [0x01, 0x15, 0x02, 0x15] = 255"
  by code_simp

end
