(* ===== verification/Idl_Demux.thy ===== *)
theory Idl_Demux
  imports Demux Hamm
begin

text \<open>The demultiplexer for Teletext Independent Data Lines, idl_demux.c. Format A packets carry an address, a
  repeat and a continuity indicator, user data and a cyclic redundancy check; the other formats are stubs of the
  code. Signed integers are \<^typ>\<open>int\<close>, the CRC register is a 32 bit word and the \<^verbatim>\<open>hist\<close> array, of which the code
  initialises two or three elements, starts from unknown contents.\<close>

unbundle bit_operations_syntax

subsection \<open>Data\<close>

datatype idl_format = IDL_FORMAT_A | IDL_FORMAT_B | IDL_FORMAT_DATAVIDEO | IDL_FORMAT_AUDETEL | IDL_FORMAT_LBRA

record vbi_idl_demux =
  format :: idl_format
  channel :: int
  address :: int
  ci :: int
  ri :: int
  flags :: u32

type_synonym 'u idl_cb = "u8 list \<Rightarrow> u32 \<Rightarrow> 'u \<Rightarrow> bool \<times> 'u"

abbreviation (input) FT_HAVE_RI :: int where "FT_HAVE_RI \<equiv> 2"
abbreviation (input) FT_HAVE_CI :: int where "FT_HAVE_CI \<equiv> 4"
abbreviation (input) FT_HAVE_DL :: int where "FT_HAVE_DL \<equiv> 8"
abbreviation (input) RI_PACKET_REPEATS :: int where "RI_PACKET_REPEATS \<equiv> 0x80"
abbreviation (input) VBI_IDL_DATA_LOST :: u32 where "VBI_IDL_DATA_LOST \<equiv> 1"
abbreviation (input) VBI_IDL_DEPENDENT :: u32 where "VBI_IDL_DEPENDENT \<equiv> 8"

subsection \<open>The CRC table\<close>

text \<open>One round of the inner loop: the CRC register and the bits of \<^verbatim>\<open>val\<close> left to shift in.\<close>

primrec crc16_bits :: "u32 \<Rightarrow> nat \<Rightarrow> u32 \<Rightarrow> u32 \<Rightarrow> u32" where
  "crc16_bits poly 0 crc val = crc"
| "crc16_bits poly (Suc j) crc val =
     crc16_bits poly j (drop_bit 1 crc XOR (poly AND ((1 AND NOT (val XOR crc)) - 1))) (drop_bit 1 val)"

definition init_crc16_table :: "u32 \<Rightarrow> u16 list" where
  "init_crc16_table poly = map (\<lambda>i. ucast (crc16_bits poly 8 0 (word_of_nat i))) [0..<256]"

definition idl_a_crc_table :: "u16 list" where
  "idl_a_crc_table = init_crc16_table 0x8940"

definition crc_byte :: "u32 \<Rightarrow> u8 \<Rightarrow> u32" where
  "crc_byte crc b = drop_bit 8 crc XOR ucast (idl_a_crc_table ! unat ((crc AND 0xFF) XOR ucast b))"

definition crc_bytes :: "u8 list \<Rightarrow> u32" where
  "crc_bytes bs = fold (\<lambda>b crc. crc_byte crc b) bs 0"

subsection \<open>Format A\<close>

fun copy_user_data :: "(u8 \<Rightarrow> u8) \<Rightarrow> u8 list \<Rightarrow> u8 list" where
  "copy_user_data hist [] = []"
| "copy_user_data hist (t # ts) =
     (let hist = hist(t := hist t + 1) in
      if (hist 0x00 OR hist 0xFF) AND 8 \<noteq> 0 then copy_user_data (hist(0x00 := 0, 0xFF := 0)) ts
      else t # copy_user_data hist ts)"

definition service_packet_address :: "u8 list \<Rightarrow> nat \<Rightarrow> int" where
  "service_packet_address buffer n =
     fold (\<lambda>i spa. spa OR push_bit (4 * i) (vbi_unham8 (ucast (buffer ! (4 + i))))) [0..<n] 0"

definition packet_lost :: "vbi_idl_demux \<Rightarrow> vbi_idl_demux" where
  "packet_lost dx = dx\<lparr>ci := - 1, ri := - 1, flags := flags dx OR VBI_IDL_DATA_LOST\<rparr>"

text \<open>The part from the checks of the repeat indicator on, for a packet with a correct CRC.\<close>

definition idl_a_deliver ::
  "'u idl_cb \<Rightarrow> (u8 \<Rightarrow> u8) \<Rightarrow> vbi_idl_demux \<Rightarrow> 'u \<Rightarrow> u8 list \<Rightarrow> int \<Rightarrow> nat \<Rightarrow> int \<Rightarrow> u8 \<Rightarrow> bool \<times> vbi_idl_demux \<times> 'u" where
  "idl_a_deliver cb hist dx u buffer ft i r c =
     (let lost = (ri dx \<ge> 0 \<and> (r XOR ri dx) AND 0xF \<noteq> 0);
          discard = ((ri dx < 0 \<or> lost) \<and> r AND 0xF \<noteq> 0);
          dx = (if lost then packet_lost dx else dx) in
      if discard then (True, dx, u)
      else
        let dx = (if ci dx \<ge> 0 \<and> (uint c XOR ci dx) AND 0xFF \<noteq> 0
                  then dx\<lparr>flags := flags dx OR VBI_IDL_DATA_LOST\<rparr> else dx);
            hist = hist(0x00 := 0, 0xFF := 0, c := 1);
            dx = dx\<lparr>ci := uint c + 1\<rparr>;
            (i, dl) = (if ft AND FT_HAVE_DL \<noteq> 0
                       then (i + 1, min (unat (buffer ! (4 + i) AND 0x3F)) (36 - (i + 1)))
                       else (i, 36 - i));
            buf = copy_user_data hist (take dl (drop (4 + i) buffer));
            dx = dx\<lparr>flags := flags dx AND NOT VBI_IDL_DATA_LOST\<rparr>;
            (r, u) = cb buf (flags dx) u
        in (r, dx, u))"

definition idl_a_demux_feed ::
  "'u idl_cb \<Rightarrow> (u8 \<Rightarrow> u8) \<Rightarrow> vbi_idl_demux \<Rightarrow> 'u \<Rightarrow> u8 list \<Rightarrow> int \<Rightarrow> bool \<times> vbi_idl_demux \<times> 'u" where
  "idl_a_demux_feed cb hist dx u buffer ft =
     (let ial = vbi_unham8 (ucast (buffer ! 3)) in
      if ial < 0 then (False, dx, u)
      else
        let spa_length = nat (ial AND 7) in
        if 7 = spa_length then (True, dx, u)
        else
          let spa = service_packet_address buffer spa_length in
          if spa < 0 then (False, dx, u)
          else if spa \<noteq> address dx then (True, dx, u)
          else
            let (i, r) = (if ft AND FT_HAVE_RI \<noteq> 0 then (spa_length + 1, uint (buffer ! (4 + spa_length)))
                          else (spa_length, 0));
                crc = crc_bytes (drop (4 + i) (take 42 buffer));
                (i, c, crc) = (if ft AND FT_HAVE_CI \<noteq> 0 then (i + 1, buffer ! (4 + i), crc)
                               else (i, ucast crc,
                                     crc XOR ((crc AND 0xFF) OR push_bit 8 (crc AND 0xFF))))
            in
            if 0 \<noteq> crc then
              if 0 = r AND RI_PACKET_REPEATS then (False, packet_lost dx, u)
              else (False, dx\<lparr>ri := r + 1\<rparr>, u)
            else idl_a_deliver cb hist dx u buffer ft i r c)"

subsection \<open>The other formats and the interface\<close>

definition idl_b_demux_feed :: "vbi_idl_demux \<Rightarrow> u8 list \<Rightarrow> int \<Rightarrow> bool" where
  "idl_b_demux_feed dx buffer ft = False"

definition datavideo_demux_feed :: "vbi_idl_demux \<Rightarrow> u8 list \<Rightarrow> bool" where
  "datavideo_demux_feed dx buffer = False"

definition audetel_demux_feed :: "vbi_idl_demux \<Rightarrow> u8 list \<Rightarrow> bool" where
  "audetel_demux_feed dx buffer = False"

definition lbra_demux_feed :: "vbi_idl_demux \<Rightarrow> u8 list \<Rightarrow> bool" where
  "lbra_demux_feed dx buffer = False"

definition vbi_idl_demux_reset :: "vbi_idl_demux \<Rightarrow> vbi_idl_demux" where
  "vbi_idl_demux_reset dx = dx\<lparr>ci := - 1, ri := - 1\<rparr>"

definition vbi_idl_demux_feed ::
  "'u idl_cb \<Rightarrow> (u8 \<Rightarrow> u8) \<Rightarrow> vbi_idl_demux \<times> 'u \<Rightarrow> u8 list \<Rightarrow> (bool \<times> vbi_idl_demux \<times> 'u) option" where
  "vbi_idl_demux_feed cb hist s buffer =
     (let (dx, u) = s;
          chan = vbi_unham8 (ucast (buffer ! 0));
          designation = vbi_unham8 (ucast (buffer ! 1));
          ft = vbi_unham8 (ucast (buffer ! 2)) in
      if chan OR designation < 0 then Some (False, dx, u)
      else if 15 \<noteq> designation \<or> chan \<noteq> channel dx then Some (True, dx, u)
      else case format dx of
        IDL_FORMAT_A \<Rightarrow>
          if ft < 0 then Some (False, dx, u)
          else if 0 = ft AND 1 then Some (idl_a_demux_feed cb hist dx u buffer ft) else Some (True, dx, u)
      | IDL_FORMAT_B \<Rightarrow>
          if ft < 0 then Some (False, dx, u)
          else if 1 = ft AND 3 then Some (idl_b_demux_feed dx buffer ft, dx, u) else Some (True, dx, u)
      | IDL_FORMAT_DATAVIDEO \<Rightarrow> Some (datavideo_demux_feed dx buffer, dx, u)
      | IDL_FORMAT_AUDETEL \<Rightarrow> Some (audetel_demux_feed dx buffer, dx, u)
      | IDL_FORMAT_LBRA \<Rightarrow> Some (lbra_demux_feed dx buffer, dx, u))"

definition vbi_idl_demux_feed_frame ::
  "'u idl_cb \<Rightarrow> (u8 \<Rightarrow> u8) \<Rightarrow> vbi_idl_demux \<times> 'u \<Rightarrow> vbi_sliced list \<Rightarrow> (bool \<times> vbi_idl_demux \<times> 'u) option" where
  "vbi_idl_demux_feed_frame cb hist s sliced =
     feed_lines (\<lambda>x. id x AND VBI_SLICED_TELETEXT_B \<noteq> 0) (vbi_idl_demux_feed cb hist) s sliced"

definition idl_demux_init :: "vbi_idl_demux \<Rightarrow> idl_format \<Rightarrow> u32 \<Rightarrow> u32 \<Rightarrow> bool \<times> vbi_idl_demux" where
  "idl_demux_init dx fmt chan addr =
     (if 16 \<le> chan then (False, dx)
      else if fmt = IDL_FORMAT_A \<and> 0x1000000 \<le> addr then (False, dx)
      else (True, vbi_idl_demux_reset (dx\<lparr>format := fmt, channel := sint chan, address := sint addr\<rparr>)))"

definition vbi_idl_a_demux_new :: "vbi_idl_demux option \<Rightarrow> u32 \<Rightarrow> u32 \<Rightarrow> vbi_idl_demux option" where
  "vbi_idl_a_demux_new mem chan addr =
     (case mem of
        None \<Rightarrow> None
      | Some dx \<Rightarrow> let (ok, dx) = idl_demux_init dx IDL_FORMAT_A chan addr in if ok then Some dx else None)"

subsection \<open>The cyclic redundancy check\<close>

text \<open>One step of the shift register with the polynomial \<open>x\<^sup>1\<^sup>6 + x\<^sup>9 + x\<^sup>7 + x\<^sup>4 + 1\<close>, lowest bit first.\<close>

definition crc_shift :: "u32 \<Rightarrow> u32" where
  "crc_shift x = drop_bit 1 x XOR (if bit x 0 then 0x8940 else 0)"

lemma crc_shift_xor: "crc_shift (x XOR y) = crc_shift x XOR crc_shift y"
  by (rule bit_word_eqI) (auto simp: crc_shift_def bit_simps)

lemma bit_16D: "take_bit 16 x = x \<Longrightarrow> bit x j \<Longrightarrow> j < 16" for x :: u32
  by (metis bit_take_bit_iff)

lemma crc_shifts_xor: "(crc_shift ^^ n) (x XOR y) = (crc_shift ^^ n) x XOR (crc_shift ^^ n) y"
  by (induction n) (simp_all add: crc_shift_xor)

lemma crc_shifts_0 [simp]: "(crc_shift ^^ n) 0 = 0"
  by (induction n) (simp_all add: crc_shift_def)

lemma crc_shifts_push_bit: "n \<le> 16 \<Longrightarrow> take_bit 16 x = x \<Longrightarrow> (crc_shift ^^ n) (push_bit n x) = x"
proof (induction n)
  case (Suc n)
  have "crc_shift (push_bit (Suc n) x) = push_bit n x"
  proof (rule bit_word_eqI)
    fix k assume k: "k < LENGTH(32)"
    have "bit (crc_shift (push_bit (Suc n) x)) k \<longleftrightarrow> Suc k < 32 \<and> n \<le> k \<and> bit x (k - n)"
      by (auto simp: crc_shift_def bit_drop_bit_eq bit_push_bit_iff simp del: push_bit_Suc)
    moreover have "bit (push_bit n x) k \<longleftrightarrow> n \<le> k \<and> bit x (k - n)"
      using k by (simp add: bit_push_bit_iff)
    ultimately show "bit (crc_shift (push_bit (Suc n) x)) k = bit (push_bit n x) k"
      using bit_16D [OF Suc(3), of "k - n"] Suc(2) by auto
  qed
  then show ?case using Suc by (simp only: funpow_Suc_right o_def Suc_leD)
qed simp

lemma crc_shift_eq_0: "crc_shift x = 0 \<Longrightarrow> take_bit 16 x = x \<Longrightarrow> x = 0"
proof (rule bit_word_eqI)
  fix k assume a: "crc_shift x = 0" "take_bit 16 x = x" "k < LENGTH(32)"
  have hi: "\<not> bit x j" if "16 \<le> j" for j using a(2) that by (metis bit_take_bit_iff not_le)
  have b: "bit (crc_shift x) j = False" for j using a(1) by simp
  have "\<not> bit x 0" using b [of 15] hi [of 16] by (auto simp: crc_shift_def bit_simps)
  then show "bit x k = bit 0 k" using b [of "k - 1"] a(3) by (cases k) (auto simp: crc_shift_def bit_simps)
qed

lemma crc_shift_16: "take_bit 16 x = x \<Longrightarrow> take_bit 16 (crc_shift x) = crc_shift x"
proof -
  assume a: "take_bit 16 x = x"
  have "take_bit 16 (0x8940 :: u32) = 0x8940" by simp
  from bit_16D [OF a] bit_16D [OF this] show ?thesis
    by (intro bit_word_eqI) (auto simp: crc_shift_def bit_simps dest: Suc_lessD)
qed

lemma crc_shifts_16: "take_bit 16 x = x \<Longrightarrow> take_bit 16 ((crc_shift ^^ n) x) = (crc_shift ^^ n) x"
  by (induction n) (simp_all add: crc_shift_16)

lemma crc_shifts_eq_0: "(crc_shift ^^ n) x = 0 \<Longrightarrow> take_bit 16 x = x \<Longrightarrow> x = 0"
  by (induction n) (auto dest: crc_shift_eq_0 simp: crc_shifts_16)

lemma crc16_bits_eq: "crc16_bits 0x8940 n crc val = (crc_shift ^^ n) (crc XOR val) XOR drop_bit n val"
proof (induction n arbitrary: crc val)
  case 0
  then show ?case by (simp add: xor.assoc)
next
  case (Suc n)
  have m: "(1 AND NOT (val XOR crc)) - 1 = (if bit (crc XOR val) 0 then - 1 else 0)"
  proof -
    have "1 AND y = (if bit y 0 then 1 else 0)" for y :: u32
      by (rule bit_word_eqI) (auto simp: bit_simps bit_1_iff)
    then show ?thesis by (simp add: bit_simps)
  qed
  have "drop_bit 1 crc XOR (0x8940 AND ((1 AND NOT (val XOR crc)) - 1)) XOR drop_bit 1 val = crc_shift (crc XOR val)"
    unfolding m by (simp add: crc_shift_def drop_bit_xor ac_simps)
  then show ?case by (simp add: Suc.IH funpow_swap1 drop_bit_drop_bit add.commute xor.assoc)
qed

lemma u8_take_bit_16: "take_bit 16 (ucast b :: u32) = ucast b" for b :: u8
  by (rule bit_word_eqI) (auto simp: bit_simps dest: bit_imp_le_length)

lemma drop_bit_8_u8 [simp]: "drop_bit 8 (ucast b :: u32) = 0" for b :: u8
  by (rule bit_word_eqI) (auto simp: bit_simps dest: bit_imp_le_length)

lemma nth_idl_a_crc_table:
  "idl_a_crc_table ! unat b = ucast ((crc_shift ^^ 8) (ucast b :: u32))" for b :: u8
proof -
  have "unat b < 256" using unsigned_less [of b] by simp
  moreover have "word_of_nat (unat b) = (ucast b :: u32)" by simp
  ultimately show ?thesis
    by (simp add: idl_a_crc_table_def init_crc16_table_def crc16_bits_eq)
qed

lemma u16_u32: "take_bit 16 x = x \<Longrightarrow> ucast (ucast x :: u16) = x" for x :: u32
  by (rule bit_word_eqI) (auto simp: bit_simps dest: bit_16D)

lemma crc_byte_eq:
  assumes "take_bit 16 crc = crc"
  shows "crc_byte crc b = (crc_shift ^^ 8) (crc XOR ucast b)"
proof -
  define lo where "lo = (ucast crc XOR b :: u8)"
  have lo: "(crc AND 0xFF) XOR ucast b = ucast lo"
    unfolding and_255 by (rule bit_word_eqI) (auto simp: lo_def bit_simps dest: bit_imp_le_length)
  have hi: "crc XOR ucast b = push_bit 8 (drop_bit 8 crc) XOR ucast lo"
    by (rule bit_word_eqI) (auto simp: lo_def bit_simps dest: bit_imp_le_length)
  have d: "take_bit 16 (drop_bit 8 crc) = drop_bit 8 crc"
  proof (rule bit_word_eqI)
    fix n
    show "bit (take_bit 16 (drop_bit 8 crc)) n = bit (drop_bit 8 crc) n"
      using bit_16D [OF assms, of "8 + n"] by (auto simp: bit_simps)
  qed
  have u: "unat (ucast lo :: u32) = unat lo"
  proof -
    have "unat lo < 256" using unsigned_less [of lo] by simp
    then show ?thesis by (simp add: unsigned_ucast_eq take_bit_nat_eq_self_iff)
  qed
  have "crc_byte crc b = drop_bit 8 crc XOR (crc_shift ^^ 8) (ucast lo)"
    by (simp add: crc_byte_def lo u nth_idl_a_crc_table u16_u32 crc_shifts_16 u8_take_bit_16)
  also have "\<dots> = (crc_shift ^^ 8) (push_bit 8 (drop_bit 8 crc)) XOR (crc_shift ^^ 8) (ucast lo)"
    by (simp only: crc_shifts_push_bit [OF _ d])
  finally show ?thesis by (simp only: hi crc_shifts_xor)
qed

lemma crc_byte_16: "take_bit 16 crc = crc \<Longrightarrow> take_bit 16 (crc_byte crc b) = crc_byte crc b"
  by (simp add: crc_byte_eq crc_shifts_16 u8_take_bit_16)

lemma crc_byte_xor:
  "take_bit 16 crc = crc \<Longrightarrow> take_bit 16 e = e \<Longrightarrow>
     crc_byte (crc XOR e) (b XOR d) = crc_byte crc b XOR crc_byte e d"
  by (simp add: crc_byte_eq unsigned_xor_eq crc_shifts_xor [symmetric] ac_simps)

abbreviation crc_fold :: "u8 list \<Rightarrow> u32 \<Rightarrow> u32" where
  "crc_fold \<equiv> fold (\<lambda>b crc. crc_byte crc b)"

lemma crc_fold_16: "take_bit 16 crc = crc \<Longrightarrow> take_bit 16 (crc_fold bs crc) = crc_fold bs crc"
  by (induction bs arbitrary: crc) (simp_all add: crc_byte_16)

lemma crc_fold_xor:
  "length bs = length ds \<Longrightarrow> take_bit 16 crc = crc \<Longrightarrow> take_bit 16 e = e \<Longrightarrow>
     crc_fold (map2 (XOR) bs ds) (crc XOR e) = crc_fold bs crc XOR crc_fold ds e"
  by (induction bs ds arbitrary: crc e rule: list_induct2) (simp_all add: crc_byte_xor crc_byte_16)

lemma xor_eq_0D: "a XOR b = 0 \<Longrightarrow> a = b" for a b :: u32
  by (metis xor.assoc xor_self_eq xor.right_neutral xor.left_neutral)

lemma xor_swap: "(p XOR q) XOR r = (p XOR s) XOR t \<Longrightarrow> (q XOR s) XOR (r XOR t) = 0" for p q r s t :: u32
proof -
  assume a: "(p XOR q) XOR r = (p XOR s) XOR t"
  have "bit ((p XOR q) XOR r) n = bit ((p XOR s) XOR t) n" for n by (simp only: a)
  then have "\<not> bit ((q XOR s) XOR (r XOR t)) n" for n by (simp add: bit_xor_iff) blast
  then show ?thesis by (intro bit_word_eqI) simp
qed

lemma crc_fold_eq_same:
  assumes "crc_fold bs c = crc_fold bs e" "take_bit 16 c = c" "take_bit 16 e = e"
  shows "c = e"
  using assms
proof (induction bs arbitrary: c e)
  case (Cons b bs)
  from Cons.IH [OF Cons.prems(1) [simplified]] Cons.prems have "crc_byte c b = crc_byte e b" by (simp add: crc_byte_16)
  then have "(crc_shift ^^ 8) (c XOR e) = 0"
    using Cons.prems crc_shifts_xor [of 8 "c XOR ucast b" "e XOR ucast b"] by (simp add: crc_byte_eq ac_simps)
  from crc_shifts_eq_0 [OF this] Cons.prems(2,3) have "c XOR e = 0" by simp
  then show ?case by (rule xor_eq_0D)
qed simp

text \<open>An error burst within two neighbouring bytes changes the CRC.\<close>

lemma crc_burst:
  assumes "(b0, b1) \<noteq> (c0, c1)" "take_bit 16 crc = crc"
  shows "crc_fold (b0 # b1 # bs) crc \<noteq> crc_fold (c0 # c1 # bs) crc"
proof
  assume "crc_fold (b0 # b1 # bs) crc = crc_fold (c0 # c1 # bs) crc"
  from crc_fold_eq_same [OF this [simplified]]
  have eq: "crc_byte (crc_byte crc b0) b1 = crc_byte (crc_byte crc c0) c1"
    using assms(2) by (simp add: crc_byte_16)
  define x y where "x = (ucast b0 XOR ucast c0 :: u32)" "y = (ucast b1 XOR ucast c1 :: u32)"
  have xy: "take_bit 16 x = x" "take_bit 16 y = y" by (simp_all add: x_y_def u8_take_bit_16)
  define z where "z = x XOR push_bit 8 y"
  have hi: "bit x j \<Longrightarrow> j < 8" "bit y j \<Longrightarrow> j < 8" for j
    by (auto simp: x_y_def bit_simps dest: bit_imp_le_length)
  have z: "take_bit 16 z = z"
    by (rule bit_word_eqI) (auto simp: z_def bit_simps dest: hi)
  have "(crc_shift ^^ 8) ((crc_shift ^^ 8) x XOR y) = 0"
  proof -
    have e: "crc_byte (crc_byte crc b) d = ((crc_shift ^^ 8) ((crc_shift ^^ 8) crc) XOR
        (crc_shift ^^ 8) ((crc_shift ^^ 8) (ucast b))) XOR (crc_shift ^^ 8) (ucast d)" for b d
      by (simp only: crc_byte_eq [OF crc_byte_16 [OF assms(2)]])
        (simp only: crc_byte_eq [OF assms(2)] crc_shifts_xor)
    show ?thesis using xor_swap [OF eq [unfolded e]] by (simp add: x_y_def crc_shifts_xor)
  qed
  then have "(crc_shift ^^ 8) ((crc_shift ^^ 8) z) = 0"
    by (simp only: z_def crc_shifts_xor crc_shifts_push_bit [OF _ xy(2)])
  then have "z = 0" using z crc_shifts_eq_0 crc_shifts_16 by metis
  have bz: "\<not> bit z j" for j by (simp add: \<open>z = 0\<close>)
  have "\<not> bit x j" "\<not> bit y j" for j
    using bz [of j] bz [of "j + 8"] hi [of j] hi(1) [of "j + 8"] hi(2) [of "j - 8"] by (auto simp: z_def bit_simps)
  then have "x = 0" "y = 0" by (auto intro: bit_word_eqI)
  then have "(ucast b0 :: u32) = ucast c0" "(ucast b1 :: u32) = ucast c1" by (simp_all add: x_y_def xor_eq_0D)
  with assms(1) show False by (metis ucast_u8_u32)
qed

text \<open>Appending the two bytes of the register, the low byte first, makes the CRC zero.\<close>

lemma crc_byte_0_shift: "crc_byte 0 b = (crc_shift ^^ 8) (ucast b)"
  using crc_byte_eq [of 0 b] by simp

lemma crc_append:
  assumes "take_bit 16 crc = crc"
  shows "crc_byte (crc_byte crc (ucast crc)) (ucast (drop_bit 8 crc)) = 0"
proof -
  have d: "take_bit 16 (drop_bit 8 crc) = drop_bit 8 crc"
  proof (rule bit_word_eqI)
    fix n
    show "bit (take_bit 16 (drop_bit 8 crc)) n = bit (drop_bit 8 crc) n"
      using bit_16D [OF assms, of "8 + n"] by (auto simp: bit_simps)
  qed
  have x: "crc XOR ucast (ucast crc :: u8) = push_bit 8 (drop_bit 8 crc)"
    by (rule bit_word_eqI) (auto simp: bit_simps)
  have "crc_byte crc (ucast crc) = drop_bit 8 crc"
    by (simp only: crc_byte_eq [OF assms] x crc_shifts_push_bit [OF _ d])
  moreover have "drop_bit 8 crc XOR ucast (ucast (drop_bit 8 crc) :: u8) = 0"
  proof (rule bit_word_eqI)
    fix n
    show "bit (drop_bit 8 crc XOR ucast (ucast (drop_bit 8 crc) :: u8)) n = bit 0 n"
      using bit_16D [OF assms, of "8 + n"] by (auto simp: bit_simps)
  qed
  ultimately show ?thesis using crc_byte_eq [OF d] by simp
qed

subsection \<open>The user data\<close>

lemma copy_user_data_hist:
  "hist 0 = hist' 0 \<Longrightarrow> hist 0xFF = hist' 0xFF \<Longrightarrow> copy_user_data hist ts = copy_user_data hist' ts"
proof (induction ts arbitrary: hist hist')
  case (Cons t ts)
  define h h' where "h = hist(t := hist t + 1)" "h' = hist'(t := hist' t + 1)"
  have eq: "h 0 = h' 0" "h 0xFF = h' 0xFF" using Cons(2,3) by (auto simp: h_h'_def)
  have "copy_user_data h ts = copy_user_data h' ts"
    "copy_user_data (h(0 := 0, 0xFF := 0)) ts = copy_user_data (h'(0 := 0, 0xFF := 0)) ts"
    using eq by (auto intro: Cons(1))
  then show ?case by (simp add: Let_def h_h'_def [symmetric] eq)
qed simp

lemma and_8_small: "a < 8 \<Longrightarrow> b < 8 \<Longrightarrow> (a OR b) AND 8 = 0" for a b :: u8
proof -
  assume a: "a < 8" "b < 8"
  have "take_bit 3 x = x" if "x < 8" for x :: u8
    by (rule take_bit_eq_self_unat) (use that in \<open>simp add: word_less_nat_alt\<close>)
  then have "\<not> bit x 3" if "x < 8" for x :: u8
    using that by (metis bit_take_bit_iff less_irrefl)
  then have "\<not> bit (a OR b) 3" using a by (simp add: bit_or_iff)
  then show ?thesis using and_exp_eq_of_bool [of "a OR b" 3] by simp
qed

lemma copy_user_data_all:
  "unat (hist 0) + count_list ts 0 < 8 \<Longrightarrow> unat (hist 0xFF) + count_list ts 0xFF < 8 \<Longrightarrow>
     copy_user_data hist ts = ts"
proof (induction ts arbitrary: hist)
  case (Cons t ts)
  define h where "h = hist(t := hist t + 1)"
  have u: "unat (x + 1) = unat x + 1" if "unat x < 8" for x :: u8
    using that by (simp add: unat_word_ariths)
  have h: "unat (h 0) + count_list ts 0 < 8" "unat (h 0xFF) + count_list ts 0xFF < 8"
    using Cons(2,3) u [of "hist 0"] u [of "hist 0xFF"] by (auto simp: h_def split: if_splits)
  then have "h 0 < 8" "h 0xFF < 8" by (simp_all add: word_less_nat_alt)
  then show ?case using Cons(1) [OF h] and_8_small by (simp add: Let_def h_def [symmetric])
qed simp

subsection \<open>A packet as a transmitter sends it\<close>

text \<open>The format with a continuity indicator and a data length, and a service packet address of six digits. The
  data are padded to 28 bytes.\<close>

definition idl_packet_body :: "u8 \<Rightarrow> u8 list \<Rightarrow> u8 list" where
  "idl_packet_body c ds = [c, word_of_nat (length ds)] @ ds @ replicate (28 - length ds) 0"

definition idl_packet :: "u32 \<Rightarrow> u32 \<Rightarrow> u8 \<Rightarrow> u8 list \<Rightarrow> u8 list" where
  "idl_packet chan addr c ds =
     (let crc = crc_bytes (idl_packet_body c ds) in
      [ham_byte chan, ham_byte 15, ham_byte 12, ham_byte 6]
      @ map (\<lambda>k. ham_byte (drop_bit (4 * k) addr AND 15)) [0..<6]
      @ idl_packet_body c ds @ [ucast crc, ucast (drop_bit 8 crc)])"

lemma service_packet_address_eq:
  assumes "\<And>k. k < n \<Longrightarrow> vbi_hamm8_inv ! unat (buffer ! (4 + k)) = take_bit 4 (drop_bit (4 * k) a)"
  shows "service_packet_address buffer n = take_bit (4 * n) a"
  using assms
proof (induction n)
  case (Suc n)
  have "take_bit (4 * n) a OR push_bit (4 * n) (take_bit 4 (drop_bit (4 * n) a)) = take_bit (4 * Suc n) a"
    by (rule bit_eqI) (auto simp: bit_simps)
  then show ?case using Suc by (simp add: service_packet_address_def)
qed (simp add: service_packet_address_def)

lemma idl_packet_nth:
  assumes "length ds \<le> 28"
  shows "length (idl_packet chan addr c ds) = 42"
    "idl_packet chan addr c ds ! 0 = ham_byte chan" "idl_packet chan addr c ds ! 1 = ham_byte 15"
    "idl_packet chan addr c ds ! 2 = ham_byte 12" "idl_packet chan addr c ds ! 3 = ham_byte 6"
    "k < 6 \<Longrightarrow> idl_packet chan addr c ds ! (4 + k) = ham_byte (drop_bit (4 * k) addr AND 15)"
    "idl_packet chan addr c ds ! 10 = c" "idl_packet chan addr c ds ! 11 = word_of_nat (length ds)"
    "drop 10 (idl_packet chan addr c ds) = idl_packet_body c ds
       @ [ucast (crc_bytes (idl_packet_body c ds)), ucast (drop_bit 8 (crc_bytes (idl_packet_body c ds)))]"
    "take (length ds) (drop 12 (idl_packet chan addr c ds)) = ds"
  using assms by (simp_all add: idl_packet_def idl_packet_body_def Let_def nth_append nth_Cons')

lemma crc_bytes_packet:
  "crc_bytes (bs @ [ucast (crc_bytes bs), ucast (drop_bit 8 (crc_bytes bs))]) = 0"
  using crc_append [OF crc_fold_16, of 0 bs] by (simp add: crc_bytes_def)

subsection \<open>Properties\<close>

lemma idl_packet_feed:
  assumes "format dx = IDL_FORMAT_A" "channel dx = uint chan" "address dx = uint addr" "chan < 16" "addr < 0x1000000"
    and "length ds \<le> 28"
  shows "vbi_idl_demux_feed cb hist (dx, u) (idl_packet chan addr c ds) =
    Some (idl_a_deliver cb hist dx u (idl_packet chan addr c ds) 12 7 0 c)"
proof -
  let ?p = "idl_packet chan addr c ds"
  note nth = idl_packet_nth [OF assms(6), where chan = chan and addr = addr and c = c]
  have spa: "service_packet_address ?p 6 = uint addr"
  proof -
    have "take_bit 32 (uint addr) = uint addr"
      using assms(5) by (simp add: word_less_def take_bit_int_eq_self)
    then have "vbi_hamm8_inv ! unat (?p ! (4 + k)) = take_bit 4 (drop_bit (4 * k) (uint addr))" if "k < 6" for k
      using that nth(6) [OF that] by (simp add: unsigned_drop_bit_eq)
    from service_packet_address_eq [of 6 ?p "uint addr", OF this]
    have "service_packet_address ?p 6 = take_bit 24 (uint addr)" by simp
    then show ?thesis using assms(5) by (simp add: word_less_def take_bit_int_eq_self)
  qed
  have crc: "crc_bytes (drop 10 ?p) = 0" unfolding nth(9) by (rule crc_bytes_packet)
  have c0: "channel dx OR 15 \<ge> 0" using assms(2) by (simp add: or_nonnegative_int_iff)
  have "idl_a_demux_feed cb hist dx u ?p 12 = idl_a_deliver cb hist dx u ?p 12 7 0 c"
    using spa crc assms(3) nth(1,5,7) by (simp add: idl_a_demux_feed_def Let_def)
  then show ?thesis
    using c0 assms nth(1-5) by (simp add: vbi_idl_demux_feed_def Let_def not_less)
qed


definition text_dx :: vbi_idl_demux where
  "text_dx = \<lparr>format = IDL_FORMAT_A, channel = 8, address = 0x123, ci = 7, ri = - 1, flags = VBI_IDL_DATA_LOST\<rparr>"


text \<open>Where the part of a packet the CRC protects begins: after the address and the repeat indicator.\<close>

definition protected_from :: "u8 list \<Rightarrow> int \<Rightarrow> nat" where
  "protected_from buffer ft =
     4 + nat (vbi_unham8 (ucast (buffer ! 3)) AND 7) + (if ft AND FT_HAVE_RI \<noteq> 0 then 1 else 0)"

lemma spa_update:
  "4 + n \<le> k \<Longrightarrow> service_packet_address (p[k := a]) n = service_packet_address p n"
  by (induction n) (simp_all add: service_packet_address_def)

lemma drop_burst:
  assumes "n \<le> k" "k + 1 < length p"
  shows "\<exists>pre post. drop n p = pre @ p ! k # p ! (k + 1) # post
    \<and> drop n (p[k := a, k + 1 := b]) = pre @ a # b # post"
proof (intro exI conjI)
  have k: "k < length p" using assms by simp
  have "drop k p = p ! k # p ! (k + 1) # drop (k + 2) p"
    using assms Cons_nth_drop_Suc [of k p] Cons_nth_drop_Suc [of "k + 1" p] by simp
  moreover have "drop k (p[k := a, k + 1 := b]) = a # b # drop (k + 2) p"
    using assms Cons_nth_drop_Suc [of k "p[k := a, k + 1 := b]"] Cons_nth_drop_Suc [of "k + 1" "p[k := a, k + 1 := b]"]
    by (simp add: nth_list_update)
  moreover have "drop n q = take (k - n) (drop n q) @ drop k q" for q :: "'a list"
    using append_take_drop_id [of "k - n" "drop n q"] assms(1) by simp
  moreover have "take (k - n) (drop n (p[k := a, k + 1 := b])) = take (k - n) (drop n p)"
    by (rule nth_equalityI) (use assms in auto)
  ultimately show "drop n p = take (k - n) (drop n p) @ p ! k # p ! (k + 1) # drop (k + 2) p"
    "drop n (p[k := a, k + 1 := b]) = take (k - n) (drop n p) @ a # b # drop (k + 2) p"
    by metis+
qed



text \<open>No format accesses memory outside the packet, so the demultiplexer always returns; its counters stay small.\<close>

definition idl_ok :: "vbi_idl_demux \<Rightarrow> bool" where
  "idl_ok dx \<longleftrightarrow> - 1 \<le> ci dx \<and> ci dx \<le> 256 \<and> - 1 \<le> ri dx \<and> ri dx \<le> 256"

lemma idl_ok_simps [simp]:
  "idl_ok (dx\<lparr>flags := f\<rparr>) = idl_ok dx" "idl_ok dx \<Longrightarrow> idl_ok (packet_lost dx)"
  "idl_ok dx \<Longrightarrow> idl_ok (dx\<lparr>ci := uint b + 1\<rparr>)" "idl_ok dx \<Longrightarrow> idl_ok (dx\<lparr>ri := uint b + 1\<rparr>)"
  "idl_ok dx \<Longrightarrow> idl_ok (dx\<lparr>ri := 0 + 1\<rparr>)" for b :: u8
proof -
  have "uint b < 256" using unsigned_less [of b] by simp
  then show "idl_ok dx \<Longrightarrow> idl_ok (dx\<lparr>ci := uint b + 1\<rparr>)" "idl_ok dx \<Longrightarrow> idl_ok (dx\<lparr>ri := uint b + 1\<rparr>)"
    by (simp_all add: idl_ok_def)
qed (simp_all add: idl_ok_def packet_lost_def)

definition idl_fine :: "bool \<times> vbi_idl_demux \<times> 'u \<Rightarrow> bool" where
  "idl_fine t = idl_ok (fst (snd t))"

lemma idl_fine_simps:
  "idl_fine (r, dx, u) = idl_ok dx" "idl_fine (case t of (r, u) \<Rightarrow> (r, dx, u)) = idl_ok dx"
  by (simp_all add: idl_fine_def split: prod.split)

lemma idl_fine_if: "idl_fine a \<Longrightarrow> idl_fine b \<Longrightarrow> idl_fine (if c then a else b)"
  by simp

lemma idl_ok_if: "idl_ok a \<Longrightarrow> idl_ok b \<Longrightarrow> idl_ok (if c then a else b)"
  by simp

lemma idl_deliver_ok: "idl_ok dx \<Longrightarrow> idl_fine (idl_a_deliver cb hist dx u buffer ft i r c)"
  unfolding idl_a_deliver_def Let_def prod.case_distrib [of idl_fine] case_prod_unfold
  by (intro idl_fine_if) (simp_all only: idl_fine_def fst_conv snd_conv idl_ok_simps idl_ok_if)

lemma idl_a_feed_ok: "idl_ok dx \<Longrightarrow> idl_fine (idl_a_demux_feed cb hist dx u buffer ft)"
  unfolding idl_a_demux_feed_def Let_def case_prod_unfold
  by (intro idl_fine_if idl_deliver_ok)
    (auto simp only: idl_fine_def fst_conv snd_conv idl_ok_simps if_distrib [of snd] split: if_split)

lemma idl_feed_total:
  "\<exists>r dx' u'. vbi_idl_demux_feed cb hist (dx, u) buffer = Some (r, dx', u') \<and> (idl_ok dx \<longrightarrow> idl_ok dx')"
proof -
  obtain r dx' u' where a: "idl_a_demux_feed cb hist dx u buffer (vbi_unham8 (ucast (buffer ! 2))) = (r, dx', u')"
    by (metis prod_cases3)
  show ?thesis
    using idl_a_feed_ok [of dx cb hist u buffer "vbi_unham8 (ucast (buffer ! 2))"] a
    by (auto simp: idl_fine_def vbi_idl_demux_feed_def Let_def split: idl_format.split)
qed

interpretation idl: total_demux "vbi_idl_demux_feed cb hist" "\<lambda>s. idl_ok (fst s)"
proof unfold_locales
  fix s :: "vbi_idl_demux \<times> 'a" and b r s'
  show "vbi_idl_demux_feed cb hist s b \<noteq> None"
    using idl_feed_total [of cb hist "fst s" "snd s" b] by auto
  assume "idl_ok (fst s)" "vbi_idl_demux_feed cb hist s b = Some (r, s')"
  then show "idl_ok (fst s')" using idl_feed_total [of cb hist "fst s" "snd s" b] by auto
qed

text \<open>Dummy bytes: the counts are not reset by other bytes, and the byte dropped is the eighth itself.\<close>

lemma copy_user_data_drops_data:
  "copy_user_data (\<lambda>t. 0) [0, 1, 0, 1, 0, 1, 0, 1, 0, 1, 0, 1, 0, 1, 0, 2] = [0, 1, 0, 1, 0, 1, 0, 1, 0, 1, 0, 1, 0, 1, 2]"
  by (simp add: Let_def)

end
