(* ===== verification/Xds_Demux.thy ===== *)
theory Xds_Demux
  imports Demux Hamm
begin

text \<open>The demultiplexer for Extended Data Service packets on NTSC line 284, xds_demux.c. Packets of different
  classes may interrupt each other, so the context has a buffer for each class and subclass. The array
  \<^verbatim>\<open>subpacket[7][24]\<close> is one list in memory order, \<^verbatim>\<open>curr_sp\<close> an index of it; \<^const>\<open>None\<close> as a result is an
  access outside the buffer of a subpacket.\<close>

unbundle bit_operations_syntax

subsection \<open>Data\<close>

record xds_subpacket =
  sp_buffer :: "u8 list"
  count :: nat
  checksum :: u32

record vbi_xds_packet =
  xds_class :: nat
  xds_subclass :: nat
  buffer_size :: nat
  buffer :: "u8 list"

record vbi_xds_demux =
  subpacket :: "xds_subpacket list"
  curr :: vbi_xds_packet
  curr_sp :: "nat option"

type_synonym 'u xds_cb = "vbi_xds_packet \<Rightarrow> 'u \<Rightarrow> bool \<times> 'u"

abbreviation (input) VBI_XDS_CLASS_MISC :: nat where "VBI_XDS_CLASS_MISC \<equiv> 3"
abbreviation (input) VBI_XDS_MAX_CLASSES :: nat where "VBI_XDS_MAX_CLASSES \<equiv> 7"
abbreviation (input) VBI_XDS_MAX_SUBCLASSES :: nat where "VBI_XDS_MAX_SUBCLASSES \<equiv> 24"

subsection \<open>Operations\<close>

definition vbi_xds_demux_reset :: "vbi_xds_demux \<Rightarrow> vbi_xds_demux" where
  "vbi_xds_demux_reset xd =
     xd\<lparr>subpacket := map (\<lambda>sp. sp\<lparr>count := 0\<rparr>) (subpacket xd), curr_sp := None\<rparr>"

definition update_sp :: "nat \<Rightarrow> (xds_subpacket \<Rightarrow> xds_subpacket) \<Rightarrow> vbi_xds_demux \<Rightarrow> vbi_xds_demux" where
  "update_sp k f xd = xd\<lparr>subpacket := (subpacket xd)[k := f (subpacket xd ! k)]\<rparr>"

text \<open>What follows the label \<^verbatim>\<open>discard\<close>.\<close>

definition discard :: "nat option \<Rightarrow> vbi_xds_demux \<Rightarrow> vbi_xds_demux" where
  "discard sp xd =
     (case sp of None \<Rightarrow> xd | Some k \<Rightarrow> update_sp k (\<lambda>s. s\<lparr>count := 0, checksum := 0\<rparr>) xd)\<lparr>curr_sp := None\<rparr>"

definition packet_header :: "vbi_xds_demux \<Rightarrow> int \<Rightarrow> int \<Rightarrow> vbi_xds_demux" where
  "packet_header xd c1 c2 =
     (let cls = nat (drop_bit 1 (c1 - 1));
          sub = nat c2;
          i = (if sub \<ge> 0x40 then sub + 0x10 - 0x40 else sub) in
      if cls > VBI_XDS_CLASS_MISC \<or> i > VBI_XDS_MAX_SUBCLASSES then discard (curr_sp xd) xd
      else
        let k = cls * VBI_XDS_MAX_SUBCLASSES + i;
            xd = xd\<lparr>curr_sp := Some k, curr := (curr xd)\<lparr>xds_class := cls, xds_subclass := sub\<rparr>\<rparr> in
        if c1 AND 1 \<noteq> 0 then update_sp k (\<lambda>s. s\<lparr>checksum := word_of_int (c1 + c2), count := 2\<rparr>) xd
        else if 0 = count (subpacket xd ! k) then discard (Some k) xd
        else xd)"

definition packet_terminator ::
  "'u xds_cb \<Rightarrow> vbi_xds_demux \<Rightarrow> 'u \<Rightarrow> int \<Rightarrow> int \<Rightarrow> (bool \<times> vbi_xds_demux \<times> 'u) option" where
  "packet_terminator cb xd u c1 c2 =
     (case curr_sp xd of
        None \<Rightarrow> Some (True, xd, u)
      | Some k \<Rightarrow>
          let xd = update_sp k (\<lambda>s. s\<lparr>checksum := checksum s + word_of_int (c1 + c2)\<rparr>) xd;
              sp = subpacket xd ! k in
          if checksum sp AND 0x7F \<noteq> 0 \<or> count sp \<le> 2 then Some (True, discard (Some k) xd, u)
          else
            let n = count sp - 2;
                buf = sp_buffer sp @ drop 32 (buffer (curr xd)) in
            if length buf \<le> n then None
            else
              let xd = xd\<lparr>curr := (curr xd)\<lparr>buffer_size := n, buffer := buf[n := 0]\<rparr>\<rparr>;
                  (r, u) = cb (curr xd) u
              in Some (r, discard (Some k) xd, u))"

definition packet_contents ::
  "vbi_xds_demux \<Rightarrow> 'u \<Rightarrow> int \<Rightarrow> int \<Rightarrow> (bool \<times> vbi_xds_demux \<times> 'u) option" where
  "packet_contents xd u c1 c2 =
     (case curr_sp xd of
        None \<Rightarrow> Some (True, xd, u)
      | Some k \<Rightarrow>
          let n = count (subpacket xd ! k) in
          if n \<ge> 32 + 2 then Some (True, discard (Some k) xd, u)
          else if n < 2 \<or> 32 \<le> n - 1 then None
          else Some (True, update_sp k (\<lambda>s. s\<lparr>
                 sp_buffer := (sp_buffer s)[n - 2 := word_of_int c1, n - 1 := word_of_int c2],
                 checksum := checksum s + word_of_int (c1 + c2),
                 count := n + 1 + (if 0 \<noteq> c2 then 1 else 0)\<rparr>) xd, u))"

definition vbi_xds_demux_feed ::
  "'u xds_cb \<Rightarrow> vbi_xds_demux \<times> 'u \<Rightarrow> u8 list \<Rightarrow> (bool \<times> vbi_xds_demux \<times> 'u) option" where
  "vbi_xds_demux_feed cb s buf =
     (let (xd, u) = s;
          c1 = vbi_unpar8 (ucast (buf ! 0));
          c2 = vbi_unpar8 (ucast (buf ! 1)) in
      if c1 OR c2 < 0 then Some (False, discard (curr_sp xd) xd, u)
      else if c1 = 0 then Some (True, xd, u)
      else if c1 \<le> 0x0E then Some (True, packet_header xd c1 c2, u)
      else if c1 = 0x0F then packet_terminator cb xd u c1 c2
      else if c1 \<le> 0x1F then Some (True, xd\<lparr>curr_sp := None\<rparr>, u)
      else packet_contents xd u c1 c2)"

definition vbi_xds_demux_feed_frame ::
  "'u xds_cb \<Rightarrow> vbi_xds_demux \<times> 'u \<Rightarrow> vbi_sliced list \<Rightarrow> (bool \<times> vbi_xds_demux \<times> 'u) option" where
  "vbi_xds_demux_feed_frame cb s sliced =
     feed_lines (\<lambda>x. (id x = VBI_SLICED_CAPTION_525 \<or> id x = VBI_SLICED_CAPTION_525_F2)
                     \<and> \<not> (284 \<noteq> line x \<and> 0 \<noteq> line x)) (vbi_xds_demux_feed cb) s sliced"

definition xds_demux_init :: "vbi_xds_demux \<Rightarrow> vbi_xds_demux" where
  "xds_demux_init xd = vbi_xds_demux_reset xd"

definition vbi_xds_demux_new :: "vbi_xds_demux option \<Rightarrow> vbi_xds_demux option" where
  "vbi_xds_demux_new mem = map_option xds_demux_init mem"

subsection \<open>The invariant\<close>

definition xds_mem :: "vbi_xds_demux \<Rightarrow> bool" where
  "xds_mem xd \<longleftrightarrow> length (subpacket xd) = VBI_XDS_MAX_CLASSES * VBI_XDS_MAX_SUBCLASSES
     \<and> (\<forall>sp\<in>set (subpacket xd). length (sp_buffer sp) = 32 \<and> count sp \<noteq> 1 \<and> count sp \<le> 34)
     \<and> length (buffer (curr xd)) = 36"

definition xds_ok :: "vbi_xds_demux \<Rightarrow> bool" where
  "xds_ok xd \<longleftrightarrow> xds_mem xd
     \<and> (\<forall>k. curr_sp xd = Some k \<longrightarrow> k < VBI_XDS_MAX_CLASSES * VBI_XDS_MAX_SUBCLASSES \<and> 2 \<le> count (subpacket xd ! k))"

lemma xds_mem_slot:
  "xds_mem xd \<Longrightarrow> k < 168 \<Longrightarrow> length (sp_buffer (subpacket xd ! k)) = 32 \<and> count (subpacket xd ! k) \<noteq> 1 \<and> count (subpacket xd ! k) \<le> 34"
  by (simp add: xds_mem_def)

lemma xds_ok_mem: "xds_ok xd \<Longrightarrow> xds_mem xd"
  by (simp add: xds_ok_def)

lemma xds_ok_curr: "xds_ok xd \<Longrightarrow> curr_sp xd = Some k \<Longrightarrow> k < 168 \<and> 2 \<le> count (subpacket xd ! k)"
  by (simp add: xds_ok_def)

lemma xds_mem_simps [simp]:
  "xds_mem (xd\<lparr>curr_sp := x\<rparr>) = xds_mem xd"
  "xds_mem (xd\<lparr>curr := (curr xd)\<lparr>xds_class := cls, xds_subclass := sub\<rparr>\<rparr>) = xds_mem xd"
  by (simp_all add: xds_mem_def)

lemma xds_mem_length: "xds_mem xd \<Longrightarrow> length (subpacket xd) = 168"
  by (simp add: xds_mem_def)

lemma update_sp_simps [simp]:
  "curr_sp (update_sp k f xd) = curr_sp xd" "curr (update_sp k f xd) = curr xd"
  "length (subpacket (update_sp k f xd)) = length (subpacket xd)"
  "j \<noteq> k \<Longrightarrow> subpacket (update_sp k f xd) ! j = subpacket xd ! j"
  "k < length (subpacket xd) \<Longrightarrow> subpacket (update_sp k f xd) ! k = f (subpacket xd ! k)"
  by (simp_all add: update_sp_def)

lemma xds_mem_update:
  assumes "xds_mem xd" "k < 168"
    and "length (sp_buffer (f (subpacket xd ! k))) = 32" "count (f (subpacket xd ! k)) \<noteq> 1" "count (f (subpacket xd ! k)) \<le> 34"
  shows "xds_mem (update_sp k f xd)"
  using assms set_update_subset_insert [of "subpacket xd" k "f (subpacket xd ! k)"]
  by (auto simp: xds_mem_def update_sp_def)

lemma discard_simps [simp]:
  "curr_sp (discard sp xd) = None" "discard None xd = xd\<lparr>curr_sp := None\<rparr>"
  "discard (Some k) xd = (update_sp k (\<lambda>s. s\<lparr>count := 0, checksum := 0\<rparr>) xd)\<lparr>curr_sp := None\<rparr>"
  by (simp_all add: discard_def)

lemma xds_mem_clear: "xds_mem xd \<Longrightarrow> k < 168 \<Longrightarrow> xds_mem (update_sp k (\<lambda>s. s\<lparr>count := 0, checksum := 0\<rparr>) xd)"
  using xds_mem_slot by (intro xds_mem_update) auto

lemma xds_ok_discard:
  "xds_mem xd \<Longrightarrow> (\<And>k. sp = Some k \<Longrightarrow> k < 168) \<Longrightarrow> xds_ok (discard sp xd)"
  by (cases sp) (simp_all add: xds_ok_def xds_mem_clear)

lemma xds_ok_header:
  assumes "xds_ok xd"
  shows "xds_ok (packet_header xd c1 c2)"
proof -
  define cls sub i where "cls = nat (drop_bit 1 (c1 - 1))" and "sub = nat c2"
    and "i = (if sub \<ge> 0x40 then sub + 0x10 - 0x40 else sub)"
  define k where "k = cls * 24 + i"
  define xd1 where "xd1 = xd\<lparr>curr_sp := Some k, curr := (curr xd)\<lparr>xds_class := cls, xds_subclass := sub\<rparr>\<rparr>"
  have m: "xds_mem xd1" "subpacket xd1 = subpacket xd" "curr_sp xd1 = Some k"
    using xds_ok_mem [OF assms] by (simp_all add: xd1_def xds_mem_def)
  show ?thesis
  proof (cases "cls > 3 \<or> i > 24")
    case True
    then have "packet_header xd c1 c2 = discard (curr_sp xd) xd"
      unfolding packet_header_def Let_def cls_def [symmetric] sub_def [symmetric] i_def [symmetric]
      by (simp del: discard_simps)
    then show ?thesis using xds_ok_discard [OF xds_ok_mem [OF assms]] xds_ok_curr [OF assms] by simp
  next
    case False
    then have k: "k < 168" by (simp add: k_def)
    have e: "packet_header xd c1 c2 =
      (if c1 AND 1 \<noteq> 0 then update_sp k (\<lambda>s. s\<lparr>checksum := word_of_int (c1 + c2), count := 2\<rparr>) xd1
       else if 0 = count (subpacket xd1 ! k) then discard (Some k) xd1 else xd1)"
      using False unfolding packet_header_def Let_def cls_def [symmetric] sub_def [symmetric] i_def [symmetric]
        k_def [symmetric] xd1_def [symmetric] by simp
    show ?thesis
      using m k xds_mem_slot [OF m(1) k] xds_mem_length [OF m(1)]
      by (auto simp: e xds_ok_def xds_mem_clear intro!: xds_mem_update)
  qed
qed

lemma xds_terminator_ok:
  assumes "xds_ok xd"
  shows "\<exists>r xd' u'. packet_terminator cb xd u c1 c2 = Some (r, xd', u') \<and> xds_ok xd'"
proof (cases "curr_sp xd")
  case None
  then show ?thesis using assms by (auto simp: packet_terminator_def)
next
  case (Some k)
  define xd1 where "xd1 = update_sp k (\<lambda>s. s\<lparr>checksum := checksum s + word_of_int (c1 + c2)\<rparr>) xd"
  have k: "k < 168" using xds_ok_curr [OF assms Some] by simp
  note m = xds_ok_mem [OF assms]
  have m1: "xds_mem xd1" unfolding xd1_def using xds_mem_slot [OF m k] by (intro xds_mem_update m k) auto
  define buf where "buf = sp_buffer (subpacket xd1 ! k) @ drop 32 (buffer (curr xd1))"
  have b: "length buf = 36" "count (subpacket xd1 ! k) - 2 < 36"
    using m1 xds_mem_slot [OF m1 k] by (auto simp: buf_def xds_mem_def)
  have m2: "xds_mem (xd1\<lparr>curr := (curr xd1)\<lparr>buffer_size := n, buffer := buf[n := 0]\<rparr>\<rparr>)" for n
    using m1 b by (simp add: xds_mem_def)
  have d: "xds_ok (discard (Some k) x)" if "xds_mem x" for x
    using xds_ok_discard [OF that, of "Some k"] k by simp
  show ?thesis
    unfolding packet_terminator_def Some option.case Let_def xd1_def [symmetric] buf_def [symmetric]
    using b d [OF m1] d [OF m2] by (auto simp del: discard_simps split: prod.split)
qed

lemma xds_contents_ok:
  assumes "xds_ok xd"
  shows "packet_contents xd u c1 c2 = None \<longleftrightarrow> (\<exists>k. curr_sp xd = Some k \<and> count (subpacket xd ! k) = 33)"
    and "packet_contents xd u c1 c2 = Some (r, xd', u') \<Longrightarrow> xds_ok xd'"
proof -
  have "(packet_contents xd u c1 c2 = None \<longleftrightarrow> (\<exists>k. curr_sp xd = Some k \<and> count (subpacket xd ! k) = 33))
    \<and> (\<forall>r xd' u'. packet_contents xd u c1 c2 = Some (r, xd', u') \<longrightarrow> xds_ok xd')"
  proof (cases "curr_sp xd")
    case None
    then show ?thesis using assms by (simp add: packet_contents_def)
  next
    case (Some k)
    have k: "k < 168" "2 \<le> count (subpacket xd ! k)" using xds_ok_curr [OF assms Some] by simp_all
    note m = xds_ok_mem [OF assms]
    have "xds_ok (update_sp k (\<lambda>s. s\<lparr>
         sp_buffer := (sp_buffer s)[count (subpacket xd ! k) - 2 := a, count (subpacket xd ! k) - 1 := b],
         checksum := checksum s + c, count := count (subpacket xd ! k) + 1 + d\<rparr>) xd)"
      if "count (subpacket xd ! k) < 33" "d \<le> 1" for a b c d
      using that k xds_mem_slot [OF m k(1)] xds_mem_length [OF m] Some
      by (auto simp: xds_ok_def intro!: xds_mem_update m k)
    note this [of 1] this [of 0]
    then show ?thesis
      using k xds_ok_discard [OF m, of "Some k"]
      by (auto simp: packet_contents_def Some Let_def simp del: discard_simps)
  qed
  then show "packet_contents xd u c1 c2 = None \<longleftrightarrow> (\<exists>k. curr_sp xd = Some k \<and> count (subpacket xd ! k) = 33)"
    "packet_contents xd u c1 c2 = Some (r, xd', u') \<Longrightarrow> xds_ok xd'" by blast+
qed

subsection \<open>Where the code leaves the buffer of a subpacket\<close>

lemma vbi_unpar8_eq: "vbi_unpar8 (ucast b) = (if odd_parity b then uint (b AND 127) else - 1)" for b :: u8
proof -
  have p: "inv_par 0 b AND 32 \<noteq> 0 \<longleftrightarrow> odd_parity b"
    using and_exp_eq_of_bool [of "inv_par 0 b" 5] by (simp add: inv_par_bit_5)
  have "uint (ucast b AND 127 :: u32) = uint (b AND 127)"
    by (rule bit_eqI) (auto simp: bit_simps dest: bit_imp_le_length)
  then show ?thesis by (simp add: vbi_unpar8_def p)
qed

lemma vbi_unpar8_nonneg: "0 \<le> vbi_unpar8 (ucast b) \<longleftrightarrow> odd_parity b" for b :: u8
  by (simp add: vbi_unpar8_eq)

text \<open>A pair of Caption bytes is in the range of packet contents.\<close>

definition contents_pair :: "u8 list \<Rightarrow> bool" where
  "contents_pair buf \<longleftrightarrow> odd_parity (buf ! 0) \<and> odd_parity (buf ! 1) \<and> 0x20 \<le> buf ! 0 AND 127"

lemma xds_feed_ok:
  assumes "xds_ok xd"
  shows "vbi_xds_demux_feed cb (xd, u) buf = None \<longleftrightarrow>
      contents_pair buf \<and> (\<exists>k. curr_sp xd = Some k \<and> count (subpacket xd ! k) = 33)"
    and "vbi_xds_demux_feed cb (xd, u) buf = Some (r, xd', u') \<Longrightarrow> xds_ok xd'"
proof -
  define c1 c2 where "c1 = vbi_unpar8 (ucast (buf ! 0))" and "c2 = vbi_unpar8 (ucast (buf ! 1))"
  have b: "contents_pair buf \<longleftrightarrow> \<not> c1 OR c2 < 0 \<and> 0x1F < c1"
    unfolding c1_def c2_def contents_pair_def not_less or_nonnegative_int_iff vbi_unpar8_nonneg
    by (auto simp: vbi_unpar8_eq word_le_def)
  have d: "xds_ok (discard (curr_sp xd) xd)"
    using xds_ok_discard [OF xds_ok_mem [OF assms]] xds_ok_curr [OF assms] by simp
  have n: "xds_ok (xd\<lparr>curr_sp := None\<rparr>)" using xds_ok_mem [OF assms] by (simp add: xds_ok_def)
  have t: "packet_terminator cb xd u a b \<noteq> None"
    "packet_terminator cb xd u a b = Some (r, xd', u') \<Longrightarrow> xds_ok xd'" for a b r xd' u'
    using xds_terminator_ok [OF assms, of cb u a b] by auto
  have f: "vbi_xds_demux_feed cb (xd, u) buf =
     (if c1 OR c2 < 0 then Some (False, discard (curr_sp xd) xd, u)
      else if c1 = 0 then Some (True, xd, u)
      else if c1 \<le> 0x0E then Some (True, packet_header xd c1 c2, u)
      else if c1 = 0x0F then packet_terminator cb xd u c1 c2
      else if c1 \<le> 0x1F then Some (True, xd\<lparr>curr_sp := None\<rparr>, u)
      else packet_contents xd u c1 c2)"
    unfolding vbi_xds_demux_feed_def Let_def prod.case c1_def c2_def by (rule refl)
  show "vbi_xds_demux_feed cb (xd, u) buf = None \<longleftrightarrow>
      contents_pair buf \<and> (\<exists>k. curr_sp xd = Some k \<and> count (subpacket xd ! k) = 33)"
    using t(1) xds_contents_ok(1) [OF assms, of u c1 c2] by (auto simp: f b simp del: not_None_eq)
  show "vbi_xds_demux_feed cb (xd, u) buf = Some (r, xd', u') \<Longrightarrow> xds_ok xd'"
    using t(2) xds_contents_ok(2) [OF assms, of u c1 c2] xds_ok_header [OF assms, of c1 c2] assms d n
    by (auto simp: f split: if_splits)
qed

interpretation xds: demux "vbi_xds_demux_feed cb" "\<lambda>s. xds_ok (fst s)"
proof unfold_locales
  fix s :: "vbi_xds_demux \<times> 'a" and b r s'
  assume "xds_ok (fst s)" "vbi_xds_demux_feed cb s b = Some (r, s')"
  then show "xds_ok (fst s')" using xds_feed_ok(2) [of "fst s" cb "snd s" b r "fst s'" "snd s'"] by simp
qed

definition xds_zero :: vbi_xds_demux where
  "xds_zero = \<lparr>subpacket = replicate 168 \<lparr>sp_buffer = replicate 32 0, count = 0, checksum = 0\<rparr>,
     curr = \<lparr>xds_class = 0, xds_subclass = 0, buffer_size = 0, buffer = replicate 36 0\<rparr>, curr_sp = None\<rparr>"

lemma xds_ok_zero: "xds_ok xds_zero"
  by (simp add: xds_ok_def xds_mem_def xds_zero_def)

text \<open>C23: In every state that the invariant allows, which every operation preserves, \<^verbatim>\<open>vbi_xds_demux_feed\<close>
  accesses memory outside the buffer of a subpacket exactly if the packet at hand has 31 bytes so far
  (its last pair had a zero byte) and two more content bytes arrive: the test for an overflow
  lets them pass, and the second byte is written past the 32 bytes of the buffer.\<close>

theorem xds_feed_overflow:
  assumes "xds_ok xd"
  shows "(vbi_xds_demux_feed cb (xd, u) buf = None \<longleftrightarrow>
      contents_pair buf \<and> (\<exists>k. curr_sp xd = Some k \<and> count (subpacket xd ! k) = 33))
    \<and> (\<forall>r xd' u'. vbi_xds_demux_feed cb (xd, u) buf = Some (r, xd', u') \<longrightarrow> xds_ok xd')"
  by (intro conjI allI impI) (rule xds_feed_ok(1) [OF assms], erule xds_feed_ok(2) [OF assms])

theorem xds_feed_overflow_witness:
  "vbi_xds_demux_feed (\<lambda>p u. (True, u)) (xds_zero, ()) [0x20, 0x20] \<noteq> None"
  using xds_feed_overflow [OF xds_ok_zero, of "\<lambda>p u. (True, u)" "()" "[0x20, 0x20]"]
  by (simp add: xds_zero_def)

subsection \<open>Packets as a transmitter sends them\<close>

type_synonym pair = "u8 \<times> u8"

fun xds_feeds ::
  "'u xds_cb \<Rightarrow> vbi_xds_demux \<times> 'u \<Rightarrow> pair list \<Rightarrow> (vbi_xds_demux \<times> 'u) option" where
  "xds_feeds cb s [] = Some s"
| "xds_feeds cb s ((a, b) # ps) =
     (case vbi_xds_demux_feed cb s [par_byte a, par_byte b] of None \<Rightarrow> None | Some (r, s) \<Rightarrow> xds_feeds cb s ps)"

lemma xds_feeds_append: "xds_feeds cb s (ps @ qs) = xds_feeds cb s ps \<bind> (\<lambda>s. xds_feeds cb s qs)"
  by (induction ps arbitrary: s) (auto split: option.split)

fun text_pairs :: "u8 list \<Rightarrow> pair list" where
  "text_pairs [] = []"
| "text_pairs [a] = [(a, 0)]"
| "text_pairs (a # b # ds) = (a, b) # text_pairs ds"

definition text_byte :: "u8 \<Rightarrow> bool" where
  "text_byte b \<longleftrightarrow> 0x20 \<le> b \<and> b < 0x80"

text \<open>The number of the buffer for a class and subclass, and the header that starts or continues a packet.\<close>

definition sp_index :: "nat \<Rightarrow> nat \<Rightarrow> nat" where
  "sp_index cls sub = cls * 24 + (if sub \<ge> 0x40 then sub - 0x30 else sub)"

definition header_pair :: "bool \<Rightarrow> nat \<Rightarrow> nat \<Rightarrow> pair" where
  "header_pair first cls sub = (word_of_nat (2 * cls + (if first then 1 else 2)), word_of_nat sub)"

definition xds_valid :: "nat \<Rightarrow> nat \<Rightarrow> bool" where
  "xds_valid cls sub \<longleftrightarrow> cls \<le> 3 \<and> (sub < 24 \<or> 0x40 \<le> sub \<and> sub < 0x48)"

definition sum_bytes :: "u8 list \<Rightarrow> u32" where
  "sum_bytes ds = sum_list (map ucast ds)"

definition end_pair :: "nat \<Rightarrow> nat \<Rightarrow> u8 list \<Rightarrow> pair" where
  "end_pair cls sub ds = (0x0F, ucast (- (word_of_nat (2 * cls + 1 + sub) + sum_bytes ds + 0x0F)) AND 0x7F)"

definition holds :: "vbi_xds_demux \<Rightarrow> nat \<Rightarrow> u8 list \<Rightarrow> u32 \<Rightarrow> bool" where
  "holds xd k bs s \<longleftrightarrow> count (subpacket xd ! k) = length bs + 2 \<and> take (length bs) (sp_buffer (subpacket xd ! k)) = bs
     \<and> checksum (subpacket xd ! k) = s"

definition on_text :: "(nat \<Rightarrow> nat \<Rightarrow> u8 list \<Rightarrow> 'u \<Rightarrow> bool \<times> 'u) \<Rightarrow> 'u xds_cb" where
  "on_text g p u = g (xds_class p) (xds_subclass p) (take (buffer_size p) (buffer p)) u"

lemma unpar_par: "a < 128 \<Longrightarrow> vbi_unpar8 (ucast (par_byte a)) = uint a"
  by (simp add: vbi_unpar8_eq) (simp add: and_127 take_bit_eq_self_unat word_less_nat_alt)

lemma feed_pair:
  assumes "a < 128" "b < 128"
  shows "vbi_xds_demux_feed cb (xd, u) [par_byte a, par_byte b] =
     (if a = 0 then Some (True, xd, u)
      else if a \<le> 0x0E then Some (True, packet_header xd (uint a) (uint b), u)
      else if a = 0x0F then packet_terminator cb xd u (uint a) (uint b)
      else if a \<le> 0x1F then Some (True, xd\<lparr>curr_sp := None\<rparr>, u)
      else packet_contents xd u (uint a) (uint b))"
proof -
  have "\<not> uint a OR uint b < 0" by (simp add: not_less or_nonnegative_int_iff)
  moreover have "uint a = 15 \<longleftrightarrow> a = 15" "uint a = 0 \<longleftrightarrow> a = 0"
    using word_uint_eq_iff [of a 15] word_uint_eq_iff [of a 0] by simp_all
  ultimately show ?thesis
    by (simp add: vbi_xds_demux_feed_def Let_def unpar_par [OF assms(1)] unpar_par [OF assms(2)] word_le_def)
qed

lemma header_pair_lt: "cls \<le> 3 \<Longrightarrow> sub < 128 \<Longrightarrow> fst (header_pair f cls sub) < 128 \<and> snd (header_pair f cls sub) < 128
    \<and> fst (header_pair f cls sub) \<noteq> 0 \<and> fst (header_pair f cls sub) \<le> 0x0E
    \<and> uint (fst (header_pair f cls sub)) = 2 * int cls + (if f then 1 else 2) \<and> uint (snd (header_pair f cls sub)) = int sub"
proof -
  assume a: "cls \<le> 3" "sub < 128"
  have u: "uint (word_of_nat n :: u8) = int n" if "n < 256" for n
    using that by (simp add: unsigned_of_nat take_bit_nat_eq_self)
  show ?thesis
    using a u [of sub] u [of "2 * cls + 1"] u [of "2 * cls + 2"]
    by (auto simp: header_pair_def word_less_def word_le_def word_uint_eq_iff
        simp del: of_nat_add of_nat_mult of_nat_Suc add_2_eq_Suc' add_Suc_right One_nat_def) auto
qed

lemma packet_header_valid:
  assumes "xds_valid cls sub" "a = header_pair f cls sub"
  shows "packet_header xd (uint (fst a)) (uint (snd a)) =
    (let k = sp_index cls sub;
         xd1 = xd\<lparr>curr_sp := Some k, curr := (curr xd)\<lparr>xds_class := cls, xds_subclass := sub\<rparr>\<rparr> in
     if f then update_sp k (\<lambda>s. s\<lparr>checksum := word_of_nat (2 * cls + 1 + sub), count := 2\<rparr>) xd1
     else if 0 = count (subpacket xd1 ! k) then discard (Some k) xd1 else xd1)"
proof -
  have v: "cls \<le> 3" "sub < 128" using assms(1) by (auto simp: xds_valid_def)
  note h = header_pair_lt [OF v, of f, folded assms(2)]
  have c: "nat (drop_bit 1 (uint (fst a) - 1)) = cls" "uint (fst a) AND 1 \<noteq> 0 \<longleftrightarrow> f"
    using h by (auto simp: drop_bit_eq_div and_one_eq)
  have s: "nat (uint (snd a)) = sub" using h by simp
  have w: "word_of_int (uint (fst a) + uint (snd a)) = (word_of_nat (2 * cls + 1 + sub) :: u32)" if f
    using h that by simp
  show ?thesis
    using assms(1) w unfolding packet_header_def c s Let_def sp_index_def
    by (auto simp: xds_valid_def simp del: discard_simps)
qed

lemma text_byteD: "text_byte a \<Longrightarrow> a < 128 \<and> a \<noteq> 0 \<and> \<not> a \<le> 0x0E \<and> a \<noteq> 0x0F \<and> \<not> a \<le> 0x1F"
  by (auto simp: text_byte_def word_le_nat_alt word_less_nat_alt word_unat_eq_iff)

lemma word_of_uint_u8 [simp]: "word_of_int (uint a) = a" "word_of_int (uint a) = (ucast a :: u32)" for a :: u8
  by simp_all

lemma feed_text_pair:
  assumes "xds_ok xd" "curr_sp xd = Some k" "holds xd k bs s" "length bs + 2 \<le> 32"
    and "text_byte a" "b < 128"
  defines "cs \<equiv> (if b = 0 then [a] else [a, b])"
  shows "\<exists>xd'. xds_feeds cb (xd, u) [(a, b)] = Some (xd', u) \<and> xds_ok xd' \<and> curr_sp xd' = Some k \<and> curr xd' = curr xd
    \<and> holds xd' k (bs @ cs) (s + sum_bytes cs) \<and> (\<forall>j. j \<noteq> k \<longrightarrow> subpacket xd' ! j = subpacket xd ! j)"
proof -
  have k: "k < 168" using xds_ok_curr [OF assms(1,2)] by simp
  define n where "n = count (subpacket xd ! k)"
  have n: "n = length bs + 2" using assms(3) by (simp add: n_def holds_def)
  define xd' where "xd' = update_sp k (\<lambda>s. s\<lparr>
      sp_buffer := (sp_buffer s)[n - 2 := word_of_int (uint a), n - 1 := word_of_int (uint b)],
      checksum := checksum s + word_of_int (uint a + uint b),
      count := n + 1 + (if 0 \<noteq> uint b then 1 else 0)\<rparr>) xd"
  have f: "vbi_xds_demux_feed cb (xd, u) [par_byte a, par_byte b] = Some (True, xd', u)"
    using text_byteD [OF assms(5)] n assms(2,4)
    by (simp add: feed_pair [OF _ assms(6)] packet_contents_def Let_def n_def [symmetric] xd'_def)
  have ok: "xds_ok xd'" using xds_feed_ok(2) [OF assms(1) f] .
  have b0: "0 \<noteq> uint b \<longleftrightarrow> b \<noteq> 0" using word_uint_eq_iff [of b 0] by auto
  note m = xds_ok_mem [OF assms(1)]
  have l: "length (subpacket xd) = 168" "length (sp_buffer (subpacket xd ! k)) = 32"
    using xds_mem_length [OF m] xds_mem_slot [OF m k] by auto
  have t: "take (length bs + 2) ((sp_buffer (subpacket xd ! k))[length bs := a, length bs + 1 := b]) = bs @ [a, b]"
    using l assms(3,4) by (auto simp: holds_def take_update_swap take_Suc_conv_app_nth list_update_append
        nth_list_update numeral_2_eq_2)
  have h: "holds xd' k (bs @ cs) (s + sum_bytes cs)"
  proof (cases "b = 0")
    case True
    then show ?thesis
      using assms(3) n k l(1) arg_cong [OF t, of "take (length bs + 1)"]
      by (simp add: holds_def xd'_def cs_def sum_bytes_def)
  next
    case False
    then show ?thesis
      using assms(3) n k l(1) b0 t by (simp add: holds_def xd'_def cs_def sum_bytes_def ac_simps)
  qed
  show ?thesis using f ok h assms(2) by (auto simp: xd'_def)
qed

lemma feed_text:
  assumes "list_all text_byte ds" "xds_ok xd" "curr_sp xd = Some k" "holds xd k bs s" "even (length bs)"
    and "length bs + length ds \<le> 32"
  shows "\<exists>xd'. xds_feeds cb (xd, u) (text_pairs ds) = Some (xd', u) \<and> xds_ok xd' \<and> curr_sp xd' = Some k
    \<and> curr xd' = curr xd \<and> holds xd' k (bs @ ds) (s + sum_bytes ds) \<and> (\<forall>j. j \<noteq> k \<longrightarrow> subpacket xd' ! j = subpacket xd ! j)"
  using assms
proof (induction ds arbitrary: xd bs s rule: text_pairs.induct)
  case 1
  then show ?case by (auto simp: sum_bytes_def)
next
  case (2 a)
  have "length bs + 2 \<le> 32" using 2(5,6) by (auto elim!: evenE)
  then show ?case
    using feed_text_pair [OF 2(2-4), of a 0 cb u] 2(1) by auto
next
  case (3 a b ds)
  have ab: "text_byte a" "b < 128" "b \<noteq> 0" using 3(2) text_byteD [of b] by auto
  obtain xd1 where one: "xds_feeds cb (xd, u) [(a, b)] = Some (xd1, u)" "xds_ok xd1" "curr_sp xd1 = Some k"
    "curr xd1 = curr xd" "holds xd1 k (bs @ [a, b]) (s + sum_bytes [a, b])" "\<forall>j. j \<noteq> k \<longrightarrow> subpacket xd1 ! j = subpacket xd ! j"
    using feed_text_pair [OF 3(3-5) _ ab(1,2), of cb u] ab(3) 3(7) by auto
  obtain xd2 where two: "xds_feeds cb (xd1, u) (text_pairs ds) = Some (xd2, u)" "xds_ok xd2" "curr_sp xd2 = Some k"
    "curr xd2 = curr xd1" "holds xd2 k ((bs @ [a, b]) @ ds) ((s + sum_bytes [a, b]) + sum_bytes ds)"
    "\<forall>j. j \<noteq> k \<longrightarrow> subpacket xd2 ! j = subpacket xd1 ! j"
    using 3(1) [OF _ one(2,3,5)] 3(2,6,7) by auto
  have "xds_feeds cb (xd, u) (text_pairs (a # b # ds)) = Some (xd2, u)"
    using one(1) two(1) xds_feeds_append [of cb "(xd, u)" "[(a, b)]" "text_pairs ds"] by simp
  moreover have "sum_bytes (a # b # ds) = sum_bytes [a, b] + sum_bytes ds" by (simp add: sum_bytes_def add.assoc)
  ultimately show ?case using one two by (auto simp: add.assoc)
qed

lemma feed_header:
  assumes "xds_ok xd" "xds_valid cls sub" "k = sp_index cls sub" "first \<or> holds xd k bs s"
  shows "\<exists>xd'. xds_feeds cb (xd, u) [header_pair first cls sub] = Some (xd', u) \<and> xds_ok xd' \<and> curr_sp xd' = Some k
    \<and> xds_class (curr xd') = cls \<and> xds_subclass (curr xd') = sub
    \<and> (if first then holds xd' k [] (word_of_nat (2 * cls + 1 + sub)) else holds xd' k bs s)
    \<and> (\<forall>j. j \<noteq> k \<longrightarrow> subpacket xd' ! j = subpacket xd ! j)"
proof -
  define a where "a = header_pair first cls sub"
  have v: "cls \<le> 3" "sub < 128" "k < 168" using assms(2,3) by (auto simp: xds_valid_def sp_index_def)
  note h = header_pair_lt [OF v(1,2), of first, folded a_def]
  define xd' where "xd' = packet_header xd (uint (fst a)) (uint (snd a))"
  have f: "vbi_xds_demux_feed cb (xd, u) [par_byte (fst a), par_byte (snd a)] = Some (True, xd', u)"
    using h by (simp add: feed_pair xd'_def)
  have ok: "xds_ok xd'" using xds_feed_ok(2) [OF assms(1) f] .
  have "length (subpacket xd) = 168" using xds_mem_length [OF xds_ok_mem [OF assms(1)]] .
  then have "curr_sp xd' = Some k \<and> xds_class (curr xd') = cls \<and> xds_subclass (curr xd') = sub
    \<and> (if first then holds xd' k [] (word_of_nat (2 * cls + 1 + sub)) else holds xd' k bs s)
    \<and> (\<forall>j. j \<noteq> k \<longrightarrow> subpacket xd' ! j = subpacket xd ! j)"
    using assms(4) v(3) unfolding xd'_def packet_header_valid [OF assms(2) a_def] Let_def assms(3) [symmetric]
    by (auto simp: holds_def)
  moreover have "xds_feeds cb (xd, u) [header_pair first cls sub] = Some (xd', u)"
    using f by (cases a) (simp add: a_def [symmetric])
  ultimately show ?thesis using ok by blast
qed

lemma checksum_zero: "(x + 0x0F + ucast (ucast (- (x + 0x0F)) AND 0x7F :: u8)) AND 0x7F = 0" for x :: u32
proof -
  have "ucast (ucast y AND 0x7F :: u8) = take_bit 7 y" for y :: u32
    unfolding and_127 by (rule bit_word_eqI) (auto simp: bit_simps)
  moreover have "take_bit 7 (z + take_bit 7 (- z)) = 0" for z :: u32
    using take_bit_word_add [of 7 z "take_bit 7 (- z)"] take_bit_word_add [of 7 z "- z"] by simp
  note this [of "x + 0x0F"]
  ultimately show ?thesis by (simp add: and_127)
qed

lemma feed_end:
  assumes "xds_ok xd" "curr_sp xd = Some k" "holds xd k ds (word_of_nat (2 * cls + 1 + sub) + sum_bytes ds)"
    and "xds_class (curr xd) = cls" "xds_subclass (curr xd) = sub" "ds \<noteq> []" "length ds \<le> 32"
  shows "\<exists>xd'. xds_feeds (on_text g) (xd, u) [end_pair cls sub ds] = Some (xd', snd (g cls sub ds u)) \<and> xds_ok xd'
    \<and> (\<forall>j. j \<noteq> k \<longrightarrow> subpacket xd' ! j = subpacket xd ! j)"
proof -
  define b where "b = snd (end_pair cls sub ds)"
  have "b < 128"
    using take_bit_nat_less_exp [of 7 "unat (ucast (- (word_of_nat (2 * cls + 1 + sub) + sum_bytes ds + 0x0F)) :: u8)"]
    by (simp add: b_def end_pair_def and_127 word_less_nat_alt unsigned_take_bit_eq del: take_bit_nat_less_exp)
  have k: "k < 168" using xds_ok_curr [OF assms(1,2)] by simp
  note m = xds_ok_mem [OF assms(1)]
  define xd1 where "xd1 = update_sp k (\<lambda>s. s\<lparr>checksum := checksum s + word_of_int (uint (0x0F :: u8) + uint b)\<rparr>) xd"
  have s1: "checksum (subpacket xd1 ! k) AND 0x7F = 0"
    using checksum_zero [of "word_of_nat (2 * cls + 1 + sub) + sum_bytes ds"] assms(3) k xds_mem_length [OF m]
    by (simp add: xd1_def holds_def b_def end_pair_def add.assoc)
  have m1: "xds_mem xd1" "curr xd1 = curr xd" unfolding xd1_def
    using xds_mem_slot [OF m k] by (auto intro!: xds_mem_update m k)
  have c1: "count (subpacket xd1 ! k) = length ds + 2" "take (length ds) (sp_buffer (subpacket xd1 ! k)) = ds"
    using assms(3) k xds_mem_length [OF m] by (simp_all add: xd1_def holds_def)
  define buf where "buf = sp_buffer (subpacket xd1 ! k) @ drop 32 (buffer (curr xd1))"
  have buf: "length buf = 36" "take (length ds) buf = ds"
    using m1 xds_mem_slot [OF m1(1) k] c1 assms(7) by (simp_all add: buf_def xds_mem_def)
  define xd2 where "xd2 = xd1\<lparr>curr := (curr xd1)\<lparr>buffer_size := length ds, buffer := buf[length ds := 0]\<rparr>\<rparr>"
  have cb: "on_text g (curr xd2) u = g cls sub ds u"
    using buf assms(4,5) by (simp add: on_text_def xd2_def m1)
  have f: "vbi_xds_demux_feed (on_text g) (xd, u) [par_byte 0x0F, par_byte b] =
      Some (fst (g cls sub ds u), discard (Some k) xd2, snd (g cls sub ds u))"
  proof -
    have "packet_terminator (on_text g) xd u (uint (0x0F :: u8)) (uint b) =
        Some (fst (g cls sub ds u), discard (Some k) xd2, snd (g cls sub ds u))"
      unfolding packet_terminator_def assms(2) option.case Let_def xd1_def [symmetric] buf_def [symmetric]
      using s1 c1 buf assms(6,7) cb
      by (simp add: xd2_def [symmetric] split_beta del: discard_simps)
    then show ?thesis using \<open>b < 128\<close> by (simp add: feed_pair del: discard_simps)
  qed
  have ok: "xds_ok (discard (Some k) xd2)" using xds_feed_ok(2) [OF assms(1) f] .
  have "subpacket (discard (Some k) xd2) ! j = subpacket xd ! j" if "j \<noteq> k" for j
    using that by (simp add: xd2_def xd1_def update_sp_def)
  moreover have "xds_feeds (on_text g) (xd, u) [end_pair cls sub ds] =
      Some (discard (Some k) xd2, snd (g cls sub ds u))"
    using f by (simp add: end_pair_def b_def del: discard_simps)
  ultimately show ?thesis using ok by blast
qed

definition xds_packet :: "nat \<Rightarrow> nat \<Rightarrow> u8 list \<Rightarrow> pair list" where
  "xds_packet cls sub ds = [header_pair True cls sub] @ text_pairs ds @ [end_pair cls sub ds]"

definition xds_text :: "u8 list \<Rightarrow> bool" where
  "xds_text ds \<longleftrightarrow> list_all text_byte ds \<and> ds \<noteq> [] \<and> length ds \<le> 32"

text \<open>The rest of a packet of which \<open>bs\<close> arrived, and what a sequence of pairs does to a state.\<close>

lemma feed_rest:
  assumes "xds_ok xd" "curr_sp xd = Some k" "holds xd k bs (word_of_nat (2 * cls + 1 + sub) + sum_bytes bs)"
    and "xds_class (curr xd) = cls" "xds_subclass (curr xd) = sub" "even (length bs)" "xds_text (bs @ ds)"
  shows "\<exists>xd'. xds_feeds (on_text g) (xd, u) (text_pairs ds @ [end_pair cls sub (bs @ ds)]) =
      Some (xd', snd (g cls sub (bs @ ds) u)) \<and> xds_ok xd' \<and> (\<forall>j. j \<noteq> k \<longrightarrow> subpacket xd' ! j = subpacket xd ! j)"
proof -
  have t: "list_all text_byte ds" "length bs + length ds \<le> 32" "bs @ ds \<noteq> []"
    using assms(7) by (simp_all add: xds_text_def)
  obtain xd1 where one: "xds_feeds (on_text g) (xd, u) (text_pairs ds) = Some (xd1, u)" "xds_ok xd1"
    "curr_sp xd1 = Some k" "curr xd1 = curr xd"
    "holds xd1 k (bs @ ds) ((word_of_nat (2 * cls + 1 + sub) + sum_bytes bs) + sum_bytes ds)"
    "\<forall>j. j \<noteq> k \<longrightarrow> subpacket xd1 ! j = subpacket xd ! j"
    using feed_text [OF t(1) assms(1-3,6) t(2), of "on_text g" u] by auto
  have "(word_of_nat (2 * cls + 1 + sub) + sum_bytes bs) + sum_bytes ds
      = word_of_nat (2 * cls + 1 + sub) + sum_bytes (bs @ ds)"
    by (simp add: sum_bytes_def add.assoc)
  note holds1 = one(5) [unfolded this]
  obtain xd2 where "xds_feeds (on_text g) (xd1, u) [end_pair cls sub (bs @ ds)] =
      Some (xd2, snd (g cls sub (bs @ ds) u))" "xds_ok xd2" "\<forall>j. j \<noteq> k \<longrightarrow> subpacket xd2 ! j = subpacket xd1 ! j"
    using feed_end [OF one(2,3) holds1 _ _ t(3), of g u] assms(4,5) one(4) t(2) by auto
  then show ?thesis using one(1,6) unfolding xds_feeds_append by auto
qed

lemma feed_packet:
  assumes "xds_ok xd" "xds_valid cls sub" "xds_text ds"
  shows "\<exists>xd'. xds_feeds (on_text g) (xd, u) (xds_packet cls sub ds) = Some (xd', snd (g cls sub ds u)) \<and> xds_ok xd'
    \<and> (\<forall>j. j \<noteq> sp_index cls sub \<longrightarrow> subpacket xd' ! j = subpacket xd ! j)"
proof -
  obtain xd1 where one: "xds_feeds (on_text g) (xd, u) [header_pair True cls sub] = Some (xd1, u)" "xds_ok xd1"
    "curr_sp xd1 = Some (sp_index cls sub)" "xds_class (curr xd1) = cls" "xds_subclass (curr xd1) = sub"
    "holds xd1 (sp_index cls sub) [] (word_of_nat (2 * cls + 1 + sub))"
    "\<forall>j. j \<noteq> sp_index cls sub \<longrightarrow> subpacket xd1 ! j = subpacket xd ! j"
    using feed_header [OF assms(1,2) refl, of True "[]" 0 "on_text g" u] by auto
  have "\<exists>xd'. xds_feeds (on_text g) (xd1, u) (text_pairs ds @ [end_pair cls sub ds]) =
      Some (xd', snd (g cls sub ds u)) \<and> xds_ok xd' \<and> (\<forall>j. j \<noteq> sp_index cls sub \<longrightarrow> subpacket xd' ! j = subpacket xd1 ! j)"
    using feed_rest [OF one(2,3) _ one(4,5), of "[]" ds g u] one(6) assms(3) by (simp add: sum_bytes_def)
  then show ?thesis using one(1,7) unfolding xds_packet_def xds_feeds_append by auto
qed

text \<open>C24: A packet that another packet interrupts: the pairs of the first \<open>d1\<close> bytes of a packet, a complete packet
  of another class or subclass, and, after a header that continues it, the rest of the first packet. In
  every state of the invariant the callback gets the interrupting packet and then the interrupted one, each
  with its class, subclass and text, as text of 1 to 32 characters; no parity, checksum or continuity error occurs.\<close>

theorem xds_interrupted_packet:
  assumes "xds_ok xd" "xds_valid cls sub" "xds_valid cls' sub'" "sp_index cls sub \<noteq> sp_index cls' sub'"
    and "xds_text (d1 @ d2)" "even (length d1)" "xds_text ds'"
  shows "\<exists>xd'. xds_feeds (on_text g) (xd, u)
      ([header_pair True cls sub] @ text_pairs d1 @ xds_packet cls' sub' ds'
       @ [header_pair False cls sub] @ text_pairs d2 @ [end_pair cls sub (d1 @ d2)]) =
    Some (xd', snd (g cls sub (d1 @ d2) (snd (g cls' sub' ds' u)))) \<and> xds_ok xd'"
proof -
  let ?k = "sp_index cls sub" and ?cb = "on_text g" and ?u = "snd (g cls' sub' ds' u)"
  let ?s = "word_of_nat (2 * cls + 1 + sub) + sum_bytes d1"
  obtain xd1 where one: "xds_feeds ?cb (xd, u) [header_pair True cls sub] = Some (xd1, u)" "xds_ok xd1"
    "curr_sp xd1 = Some ?k" "holds xd1 ?k [] (word_of_nat (2 * cls + 1 + sub))"
    using feed_header [OF assms(1,2) refl, of True "[]" 0 ?cb u] by auto
  obtain xd2 where two: "xds_feeds ?cb (xd1, u) (text_pairs d1) = Some (xd2, u)" "xds_ok xd2" "holds xd2 ?k d1 ?s"
    using feed_text [of d1 xd1 ?k "[]" _ ?cb u] one assms(5) by (auto simp: xds_text_def)
  obtain xd3 where three: "xds_feeds ?cb (xd2, u) (xds_packet cls' sub' ds') = Some (xd3, ?u)" "xds_ok xd3"
    "holds xd3 ?k d1 ?s"
    using feed_packet [OF two(2) assms(3,7), of g u] two(3) assms(4) by (auto simp: holds_def)
  obtain xd4 where four: "xds_feeds ?cb (xd3, ?u) [header_pair False cls sub] = Some (xd4, ?u)" "xds_ok xd4"
    "curr_sp xd4 = Some ?k" "xds_class (curr xd4) = cls" "xds_subclass (curr xd4) = sub" "holds xd4 ?k d1 ?s"
    using feed_header [OF three(2) assms(2) refl, of False d1 ?s ?cb ?u] three(3) by auto
  obtain xd5 where five: "xds_feeds ?cb (xd4, ?u) (text_pairs d2 @ [end_pair cls sub (d1 @ d2)]) =
      Some (xd5, snd (g cls sub (d1 @ d2) ?u))" "xds_ok xd5"
    using feed_rest [OF four(2,3,6,4,5) assms(6,5), of g ?u] by auto
  show ?thesis
    using one(1) two(1) three(1) four(1) five unfolding xds_feeds_append by auto
qed

theorem xds_interrupted_packet_witness:
  "\<exists>xd'. xds_feeds (on_text (\<lambda>c s t u. (True, (c, s, t) # u))) (xds_zero, [])
      ([header_pair True 0 3] @ [(0x4E, 0x65)] @ xds_packet 2 1 [0x5A]
       @ [header_pair False 0 3] @ [(0x77, 0x73)] @ [end_pair 0 3 [0x4E, 0x65, 0x77, 0x73]]) =
    Some (xd', [(0, 3, [0x4E, 0x65, 0x77, 0x73]), (2, 1, [0x5A])]) \<and> xds_ok xd'"
  using xds_interrupted_packet [OF xds_ok_zero, of 0 3 2 1 "[0x4E, 0x65]" "[0x77, 0x73]" "[0x5A]"
      "\<lambda>c s t u. (True, (c, s, t) # u)" "[]"]
  by (simp add: xds_valid_def sp_index_def xds_text_def text_byte_def)

text \<open>The subclass one past the last is taken for the first subclass of the next class.\<close>

lemma xds_header_aliases: "curr_sp (packet_header xds_zero 1 0x18) = curr_sp (packet_header xds_zero 3 0)"
  by (simp add: packet_header_def Let_def xds_zero_def drop_bit_eq_div)

end
