(* ===== verification/Vps.thy ===== *)
theory Vps
  imports Prelude
begin

text \<open>Program identification in VPS packets and DVB PDC descriptors, vps.c, and the record it fills from pdc.h.
  A packet is the list of its 13 bytes, a descriptor the list of its 5 bytes; all numbers are 32 bit words
  as in the code, and enumerations have their values. The functions that cannot fail return their result, the
  others an option with \<^const>\<open>None\<close> for \<^verbatim>\<open>FALSE\<close>.\<close>

unbundle bit_operations_syntax

subsection \<open>Data\<close>

record vbi_program_id =
  channel :: u32
  cni_type :: u32
  cni :: u32
  pil :: u32
  luf :: u32
  mi :: u32
  pid_prf :: u32
  pcs_audio :: u32
  pty :: u32
  tape_delayed :: u32

abbreviation (input) VBI_PID_CHANNEL_LCI_0 :: u32 where "VBI_PID_CHANNEL_LCI_0 \<equiv> 0"
abbreviation (input) VBI_PID_CHANNEL_VPS :: u32 where "VBI_PID_CHANNEL_VPS \<equiv> 4"
abbreviation (input) VBI_PID_CHANNEL_PDC_DESCRIPTOR :: u32 where "VBI_PID_CHANNEL_PDC_DESCRIPTOR \<equiv> 5"
abbreviation (input) VBI_CNI_TYPE_VPS :: u32 where "VBI_CNI_TYPE_VPS \<equiv> 1"
abbreviation (input) VBI_CNI_TYPE_8302 :: u32 where "VBI_CNI_TYPE_8302 \<equiv> 3"

text \<open>The record as \<^verbatim>\<open>CLEAR\<close> leaves it.\<close>

definition clear_pid :: vbi_program_id where
  "clear_pid = \<lparr>channel = 0, cni_type = 0, cni = 0, pil = 0, luf = 0, mi = 0, pid_prf = 0, pcs_audio = 0, pty = 0,
     tape_delayed = 0\<rparr>"

abbreviation (input) byte :: "u8 list \<Rightarrow> nat \<Rightarrow> u32" where
  "byte buffer i \<equiv> ucast (buffer ! i)"

subsection \<open>Decoding\<close>

definition vbi_decode_vps_cni :: "u8 list \<Rightarrow> u32" where
  "vbi_decode_vps_cni buffer =
     (let cni_value = push_bit 10 (byte buffer 10 AND 0x03) + push_bit 2 (byte buffer 11 AND 0xC0)
                      + (byte buffer 8 AND 0xC0) + (byte buffer 11 AND 0x3F) in
      if 0x0DC3 = cni_value then if byte buffer 2 AND 0x10 \<noteq> 0 then 0x0DC1 else 0x0DC2
      else cni_value)"

definition vbi_decode_vps_pdc :: "u8 list \<Rightarrow> vbi_program_id" where
  "vbi_decode_vps_pdc buffer =
     clear_pid\<lparr>channel := VBI_PID_CHANNEL_VPS, cni_type := VBI_CNI_TYPE_VPS, cni := vbi_decode_vps_cni buffer,
       pil := push_bit 14 (byte buffer 8 AND 0x3F) + push_bit 6 (byte buffer 9) + drop_bit 2 (byte buffer 10),
       mi := 1, pcs_audio := drop_bit 6 (byte buffer 2), pty := byte buffer 12\<rparr>"

definition vbi_decode_dvb_pdc_descriptor :: "u8 list \<Rightarrow> vbi_program_id option" where
  "vbi_decode_dvb_pdc_descriptor buffer =
     (if 0x69 \<noteq> buffer ! 0 \<or> 3 \<noteq> buffer ! 1 then None
      else Some (clear_pid\<lparr>channel := VBI_PID_CHANNEL_PDC_DESCRIPTOR,
             pil := push_bit 16 (byte buffer 2 AND 0x0F) + push_bit 8 (byte buffer 3) + byte buffer 4, mi := 1\<rparr>))"

subsection \<open>Encoding\<close>

definition vbi_encode_vps_cni :: "u8 list \<Rightarrow> u32 \<Rightarrow> u8 list option" where
  "vbi_encode_vps_cni buffer c =
     (if c > 0x0FFF then None
      else Some (buffer[8 := ucast ((byte buffer 8 AND 0x3F) OR (c AND 0xC0)),
                        10 := ucast ((byte buffer 10 AND 0xFC) OR drop_bit 10 c),
                        11 := ucast ((c AND 0x3F) OR (drop_bit 2 c AND 0xC0))]))"

definition vbi_encode_vps_pdc :: "u8 list \<Rightarrow> vbi_program_id \<Rightarrow> u8 list option" where
  "vbi_encode_vps_pdc buffer pid =
     (if pty pid > 0xFF then None
      else if pcs_audio pid > 3 then None
      else if pil pid > 0xFFFFF then None
      else case vbi_encode_vps_cni buffer (cni pid) of
        None \<Rightarrow> None
      | Some b \<Rightarrow>
          Some (b[2 := ucast ((byte b 2 AND 0x3F) OR push_bit 6 (pcs_audio pid)),
                  8 := ucast ((byte b 8 AND 0xC0) OR (drop_bit 14 (pil pid) AND 0x3F)),
                  9 := ucast (drop_bit 6 (pil pid)),
                  10 := ucast ((byte b 10 AND 0x03) OR push_bit 2 (pil pid)),
                  12 := ucast (pty pid)]))"

definition vbi_encode_dvb_pdc_descriptor :: "u8 list \<Rightarrow> vbi_program_id \<Rightarrow> u8 list option" where
  "vbi_encode_dvb_pdc_descriptor buffer pid =
     (if pil pid > 0xFFFFF then None
      else Some (buffer[0 := 0x69, 1 := 3, 2 := ucast (0xF0 OR drop_bit 16 (pil pid)),
                        3 := ucast (drop_bit 8 (pil pid)), 4 := ucast (pil pid)]))"

subsection \<open>Properties\<close>

lemma plus4_eq_or:
  fixes a b c d :: u32
  assumes "a AND b = 0" "(a OR b) AND c = 0" "((a OR b) OR c) AND d = 0"
  shows "a + b + c + d = ((a OR b) OR c) OR d"
  using assms by (simp add: disjunctive_add_eq_or)

lemma plus3_eq_or:
  fixes a b c :: u32
  assumes "a AND b = 0" "(a OR b) AND c = 0"
  shows "a + b + c = (a OR b) OR c"
  using assms by (simp add: disjunctive_add_eq_or)

definition pid_ok :: "vbi_program_id \<Rightarrow> bool" where
  "pid_ok pid \<longleftrightarrow> pty pid \<le> 0xFF \<and> pcs_audio pid \<le> 3 \<and> pil pid \<le> 0xFFFFF \<and> cni pid \<le> 0xFFF"

lemma cni_value_bits:
  "push_bit 10 (ucast x AND 0x03) + push_bit 2 (ucast y AND 0xC0) + (ucast z AND 0xC0) + (ucast y AND 0x3F) =
     ((push_bit 10 (ucast x AND 0x03) OR push_bit 2 (ucast y AND 0xC0)) OR (ucast z AND 0xC0)) OR (ucast y AND 0x3F :: u32)"
  for x y z :: u8
  by (rule plus4_eq_or; simp add: u32_eq_bits all_lt_32 bit_simps)

lemma pil_value_bits:
  "push_bit 14 (ucast x AND 0x3F) + push_bit 6 (ucast y) + drop_bit 2 (ucast z) =
     (push_bit 14 (ucast x AND 0x3F) OR push_bit 6 (ucast y)) OR drop_bit 2 (ucast z :: u32)"
  for x y z :: u8
  by (rule plus3_eq_or; simp add: u32_eq_bits all_lt_32 bit_simps not_bit_u8)

lemma high_bits_0:
  "w \<le> 0xFFF \<Longrightarrow> 12 \<le> n \<Longrightarrow> \<not> bit w n" "w \<le> 0xFFFFF \<Longrightarrow> 20 \<le> n \<Longrightarrow> \<not> bit w n"
  "w \<le> 0xFF \<Longrightarrow> 8 \<le> n \<Longrightarrow> \<not> bit w n" "w \<le> 3 \<Longrightarrow> 2 \<le> n \<Longrightarrow> \<not> bit w n" for w :: u32
  by (rule not_bit_unat_less [where m = 12] not_bit_unat_less [where m = 20] not_bit_unat_less [where m = 8]
      not_bit_unat_less [where m = 2]; simp add: word_le_nat_alt)+

lemma cni_roundtrip_bits:
  fixes c x y :: u32
  assumes "c \<le> 0xFFF"
  shows "push_bit 10 (ucast (ucast ((x AND 0xFC) OR drop_bit 10 c) :: u8) AND 0x03)
      + push_bit 2 (ucast (ucast ((c AND 0x3F) OR (drop_bit 2 c AND 0xC0)) :: u8) AND 0xC0)
      + (ucast (ucast ((y AND 0x3F) OR (c AND 0xC0)) :: u8) AND 0xC0)
      + (ucast (ucast ((c AND 0x3F) OR (drop_bit 2 c AND 0xC0)) :: u8) AND 0x3F) = c"
  unfolding cni_value_bits using high_bits_0(1) [OF assms]
  by (simp add: u32_eq_bits all_lt_32 bit_simps)

lemma pil_roundtrip_bits:
  fixes p x y :: u32
  assumes "p \<le> 0xFFFFF"
  shows "push_bit 14 (ucast (ucast ((x AND 0xC0) OR (drop_bit 14 p AND 0x3F)) :: u8) AND 0x3F)
      + push_bit 6 (ucast (ucast (drop_bit 6 p) :: u8))
      + drop_bit 2 (ucast (ucast ((y AND 0x03) OR push_bit 2 p) :: u8)) = p"
  unfolding pil_value_bits using high_bits_0(2) [OF assms]
  by (simp add: u32_eq_bits all_lt_32 bit_simps)

lemma vps_mask_bits:
  fixes x y :: u32
  assumes "y \<le> 3"
  shows "drop_bit 6 (ucast (ucast ((x AND 0x3F) OR push_bit 6 y) :: u8)) = y"
    and "ucast (ucast ((x AND 0x3F) OR push_bit 6 y) :: u8) AND (0x3F :: u32) = x AND 0x3F"
  using high_bits_0(4) [OF assms] by (simp_all add: u32_eq_bits all_lt_32 bit_simps)

lemma vps_and_bits:
  fixes x y :: u32
  shows "ucast (ucast ((x AND 0x03) OR push_bit 2 y) :: u8) AND (0x03 :: u32) = x AND 0x03"
    and "ucast (ucast ((x AND 0xC0) OR (y AND 0x3F)) :: u8) AND (0xC0 :: u32) = x AND 0xC0"
  by (simp_all add: u32_eq_bits all_lt_32 bit_simps)

lemma u8_u32_le: "x \<le> 0xFF \<Longrightarrow> ucast (ucast x :: u8) = x" for x :: u32
  using high_bits_0(3) [of x] by (simp add: u32_eq_bits all_lt_32 bit_simps)

definition pid_cni :: "vbi_program_id \<Rightarrow> u8 list \<Rightarrow> u32" where
  "pid_cni pid buffer =
     (if cni pid = 0x0DC3 then if byte buffer 2 AND 0x10 \<noteq> 0 then 0x0DC1 else 0x0DC2 else cni pid)"

lemma and_10_from_3F: "x AND 0x3F = y AND 0x3F \<Longrightarrow> x AND 0x10 = y AND 0x10" for x y :: u32
proof -
  assume a: "x AND 0x3F = y AND 0x3F"
  have "z AND 0x10 = (z AND 0x3F) AND 0x10" for z :: u32 by (simp only: and.assoc) simp
  then show ?thesis using a by metis
qed

lemma vps_encode_decode:
  assumes "length buffer = 13" "pid_ok pid"
  shows "\<exists>b. vbi_encode_vps_pdc buffer pid = Some b \<and> length b = 13
    \<and> vbi_decode_vps_pdc b = clear_pid\<lparr>channel := VBI_PID_CHANNEL_VPS, cni_type := VBI_CNI_TYPE_VPS,
        cni := pid_cni pid buffer, pil := pil pid, mi := 1, pcs_audio := pcs_audio pid, pty := pty pid\<rparr>
    \<and> (\<forall>i. i \<notin> {2, 8, 9, 10, 11, 12} \<longrightarrow> b ! i = buffer ! i) \<and> byte b 2 AND 0x3F = byte buffer 2 AND 0x3F"
proof -
  have ok: "pty pid \<le> 0xFF" "pcs_audio pid \<le> 3" "pil pid \<le> 0xFFFFF" "cni pid \<le> 0xFFF"
    using assms(2) by (simp_all add: pid_ok_def)
  obtain b where b: "vbi_encode_vps_pdc buffer pid = Some b" and len: "length b = 13"
    and nth: "b ! 2 = ucast ((byte buffer 2 AND 0x3F) OR push_bit 6 (pcs_audio pid))"
      "b ! 8 = ucast ((ucast (ucast ((byte buffer 8 AND 0x3F) OR (cni pid AND 0xC0)) :: u8) AND 0xC0)
                 OR (drop_bit 14 (pil pid) AND 0x3F))"
      "b ! 9 = ucast (drop_bit 6 (pil pid))"
      "b ! 10 = ucast ((ucast (ucast ((byte buffer 10 AND 0xFC) OR drop_bit 10 (cni pid)) :: u8) AND 0x03)
                 OR push_bit 2 (pil pid))"
      "b ! 11 = ucast ((cni pid AND 0x3F) OR (drop_bit 2 (cni pid) AND 0xC0))"
      "b ! 12 = ucast (pty pid)" "\<forall>i. i \<notin> {2, 8, 9, 10, 11, 12} \<longrightarrow> b ! i = buffer ! i"
    using ok assms(1) by (auto simp: vbi_encode_vps_pdc_def vbi_encode_vps_cni_def not_less)
  have p2: "byte b 2 AND 0x3F = byte buffer 2 AND 0x3F" unfolding nth(1) by (rule vps_mask_bits(2) [OF ok(2)])
  have c: "vbi_decode_vps_cni b = pid_cni pid buffer"
    unfolding vbi_decode_vps_cni_def and_10_from_3F [OF p2] nth(2,4,5) vps_and_bits cni_roundtrip_bits [OF ok(4)]
      Let_def pid_cni_def
    by (simp only: eq_commute [of "0x0DC3" "cni pid"])
  have p: "push_bit 14 (byte b 8 AND 0x3F) + push_bit 6 (byte b 9) + drop_bit 2 (byte b 10) = pil pid"
    unfolding nth(2,3,4) by (rule pil_roundtrip_bits [OF ok(3)])
  show ?thesis
    using b len nth(7) p2 c p ok(1,2)
    by (simp add: vbi_decode_vps_pdc_def nth(1,6) vps_mask_bits(1) u8_u32_le)
qed

text \<open>C25: \<^verbatim>\<open>vbi_encode_vps_pdc\<close> accepts exactly the program identifications the fields of a VPS packet can hold, changes
  no other part of the packet, and decoding the packet gives them back, except that the code \<^verbatim>\<open>0xDC3\<close> becomes
  the code of ARD or ZDF according to bit 4 of byte 2 of the packet.\<close>

theorem vps_pdc_roundtrip:
  assumes "length buffer = 13"
  shows "(vbi_encode_vps_pdc buffer pid = None \<longleftrightarrow> \<not> pid_ok pid)
    \<and> (\<forall>b. vbi_encode_vps_pdc buffer pid = Some b \<longrightarrow> length b = 13
    \<and> vbi_decode_vps_pdc b = clear_pid\<lparr>channel := VBI_PID_CHANNEL_VPS, cni_type := VBI_CNI_TYPE_VPS,
        cni := pid_cni pid buffer, pil := pil pid, mi := 1, pcs_audio := pcs_audio pid, pty := pty pid\<rparr>
    \<and> (\<forall>i. i \<notin> {2, 8, 9, 10, 11, 12} \<longrightarrow> b ! i = buffer ! i) \<and> byte b 2 AND 0x3F = byte buffer 2 AND 0x3F)"
proof (cases "pid_ok pid")
  case True
  then show ?thesis using vps_encode_decode [OF assms True] by auto
next
  case False
  then have "vbi_encode_vps_pdc buffer pid = None"
    by (auto simp: pid_ok_def vbi_encode_vps_pdc_def vbi_encode_vps_cni_def not_le)
  with False show ?thesis by simp
qed

definition zdf_pid :: vbi_program_id where
  "zdf_pid = clear_pid\<lparr>cni := 0x0DC3, pil := 0x90A14, pcs_audio := 2, pty := 0x21\<rparr>"

theorem vps_pdc_roundtrip_witness:
  "\<exists>b. vbi_encode_vps_pdc (replicate 13 0) zdf_pid = Some b \<and> cni (vbi_decode_vps_pdc b) = 0x0DC2
    \<and> pil (vbi_decode_vps_pdc b) = 0x90A14"
proof -
  have "pid_ok zdf_pid" by (simp add: pid_ok_def zdf_pid_def clear_pid_def)
  with vps_pdc_roundtrip [of "replicate 13 0" zdf_pid]
  obtain b where b: "vbi_encode_vps_pdc (replicate 13 0) zdf_pid = Some b" by auto
  with vps_pdc_roundtrip [of "replicate 13 0" zdf_pid] show ?thesis
    by (simp add: pid_cni_def zdf_pid_def)
qed

text \<open>C26: A DVB PDC descriptor is written for exactly the program identification labels of 20 bits; whatever the buffer
  held, decoding it gives the label back. A descriptor with another tag or length is rejected.\<close>

theorem dvb_pdc_descriptor_roundtrip:
  assumes "length buffer = 5"
  shows "(vbi_encode_dvb_pdc_descriptor buffer pid = None \<longleftrightarrow> pil pid > 0xFFFFF)
    \<and> (\<forall>b. vbi_encode_dvb_pdc_descriptor buffer pid = Some b \<longrightarrow> length b = 5
      \<and> vbi_decode_dvb_pdc_descriptor b =
          Some (clear_pid\<lparr>channel := VBI_PID_CHANNEL_PDC_DESCRIPTOR, pil := pil pid, mi := 1\<rparr>))
    \<and> (vbi_decode_dvb_pdc_descriptor buffer = None \<longleftrightarrow> \<not> (buffer ! 0 = 0x69 \<and> buffer ! 1 = 3))"
proof -
  have e: "push_bit 16 (ucast x AND 0x0F) + push_bit 8 (ucast y) + ucast z
      = (push_bit 16 (ucast x AND 0x0F) OR push_bit 8 (ucast y)) OR (ucast z :: u32)" for x y z :: u8
    by (rule plus3_eq_or; simp add: u32_eq_bits all_lt_32 bit_simps not_bit_u8)
  have "push_bit 16 (ucast (ucast (0xF0 OR drop_bit 16 p) :: u8) AND 0x0F) + push_bit 8 (ucast (ucast (drop_bit 8 p) :: u8))
      + ucast (ucast p :: u8) = p" if "p \<le> 0xFFFFF" for p :: u32
    unfolding e using high_bits_0(2) [OF that] by (simp add: u32_eq_bits all_lt_32 bit_simps)
  then show ?thesis
    using assms by (auto simp: vbi_encode_dvb_pdc_descriptor_def vbi_decode_dvb_pdc_descriptor_def not_less)
qed

theorem dvb_pdc_descriptor_roundtrip_witness:
  "\<exists>b. vbi_encode_dvb_pdc_descriptor [0, 0, 0, 0, 0] zdf_pid = Some b \<and> length b = 5
    \<and> vbi_decode_dvb_pdc_descriptor b = Some (clear_pid\<lparr>channel := 5, pil := 0x90A14, mi := 1\<rparr>)"
proof -
  have p: "pil zdf_pid = 0x90A14" by (simp add: zdf_pid_def)
  with dvb_pdc_descriptor_roundtrip [of "[0, 0, 0, 0, 0]" zdf_pid]
  obtain b where b: "vbi_encode_dvb_pdc_descriptor [0, 0, 0, 0, 0] zdf_pid = Some b" by auto
  with dvb_pdc_descriptor_roundtrip [of "[0, 0, 0, 0, 0]" zdf_pid] p show ?thesis by simp
qed

end
