(* ===== verification/Packet_830.thy ===== *)
theory Packet_830
  imports Vps Hamm Bcd
begin

text \<open>Teletext packet 8/30, packet-830.c: the network identifiers, the time of format 1 and the program
  identification of format 2. The range of \<^verbatim>\<open>time_t\<close>, which depends on the system, is the parameter \<open>tr\<close>
  (\<^verbatim>\<open>TIME_MIN\<close> and \<^verbatim>\<open>TIME_MAX\<close>); results are options, \<^const>\<open>None\<close> for \<^verbatim>\<open>FALSE\<close>.\<close>

unbundle bit_operations_syntax

subsection \<open>Format 1\<close>

definition vbi_decode_teletext_8301_cni :: "u8 list \<Rightarrow> u32" where
  "vbi_decode_teletext_8301_cni buffer = vbi_rev16p (drop 9 buffer)"

definition bcd2bin :: "int \<Rightarrow> int" where
  "bcd2bin bcd = snd (fold (\<lambda>f (bcd, bin). (drop_bit 4 bcd, bin + (bcd AND 15) * f)) [1, 10, 100, 1000, 10000] (bcd, 0))"

definition vbi_decode_teletext_8301_local_time :: "int \<times> int \<Rightarrow> u8 list \<Rightarrow> (int \<times> int) option" where
  "vbi_decode_teletext_8301_local_time tr buffer =
     (let bcd = push_bit 16 (uint (buffer ! 12) AND 15) + push_bit 8 (uint (buffer ! 13)) + uint (buffer ! 14) - 0x11111 in
      if \<not> vbi_is_bcd (word_of_int bcd) then None
      else
        let mjd = bcd2bin bcd;
            bcd = push_bit 16 (uint (buffer ! 15)) + push_bit 8 (uint (buffer ! 16)) + uint (buffer ! 17) - 0x111111 in
        if \<not> vbi_is_bcd (word_of_int bcd) then None
        else
          let utc = (bcd AND 15) + (drop_bit 4 bcd AND 15) * 10 in
          if utc > 60 then None
          else
            let field = (drop_bit 8 bcd AND 15) + (drop_bit 12 bcd AND 15) * 10 in
            if field \<ge> 60 then None
            else
              let utc = utc + field * 60;
                  field = (drop_bit 16 bcd AND 15) + drop_bit 20 bcd * 10 in
              if field \<ge> 24 then None
              else
                let utc = utc + field * 3600;
                    offset = (uint (buffer ! 11) AND 0x3E) * (15 * 60);
                    offset = (if uint (buffer ! 11) AND 0x40 \<noteq> 0 then - offset else offset);
                    t = (mjd - 40587) * 86400 + utc in
                if t < fst tr \<or> t > snd tr then None
                else Some (t, offset))"

subsection \<open>Format 2\<close>

definition cni_of_bytes :: "u32 \<Rightarrow> u32 \<Rightarrow> u32 \<Rightarrow> u32 \<Rightarrow> u32" where
  "cni_of_bytes b7 b8 b10 b11 =
     push_bit 12 (b7 AND 0x0F) + push_bit 10 (b10 AND 0x03) + push_bit 2 (b11 AND 0xC0) + (b8 AND 0xC0) + (b11 AND 0x3F)"

definition vbi_decode_teletext_8302_cni :: "u8 list \<Rightarrow> u32 option" where
  "vbi_decode_teletext_8302_cni buffer =
     (let b7 = vbi_unham16p (drop 10 buffer); b8 = vbi_unham16p (drop 12 buffer);
          b10 = vbi_unham16p (drop 16 buffer); b11 = vbi_unham16p (drop 18 buffer) in
      if b7 OR b8 OR b10 OR b11 < 0 then None
      else Some (cni_of_bytes (vbi_rev8 (word_of_int b7)) (vbi_rev8 (word_of_int b8))
                   (vbi_rev8 (word_of_int b10)) (vbi_rev8 (word_of_int b11))))"

definition vbi_decode_teletext_8302_pdc :: "u8 list \<Rightarrow> vbi_program_id option" where
  "vbi_decode_teletext_8302_pdc buffer =
     (let error = vbi_unham8 (ucast (buffer ! 9));
          b6 = drop_bit 4 (vbi_rev8 (word_of_int error));
          t = map (\<lambda>i. vbi_unham16p (drop (i * 2 - 4) buffer)) [7..<13];
          error = fold (\<lambda>t error. error OR t) t error;
          b = map (\<lambda>t. vbi_rev8 (word_of_int t)) t;
          b7 = b ! 0; b8 = b ! 1; b9 = b ! 2; b10 = b ! 3; b11 = b ! 4; b12 = b ! 5 in
      if error < 0 then None
      else Some (clear_pid\<lparr>
        channel := VBI_PID_CHANNEL_LCI_0 + (drop_bit 2 b6 AND 3),
        cni_type := VBI_CNI_TYPE_8302,
        cni := cni_of_bytes b7 b8 b10 b11,
        pil := push_bit 14 (b8 AND 0x3F) + push_bit 6 b9 + drop_bit 2 b10,
        luf := drop_bit 1 b6 AND 1, mi := drop_bit 5 b7 AND 1, pid_prf := b6 AND 1,
        pcs_audio := drop_bit 6 b7 AND 3, pty := b12\<rparr>))"

subsection \<open>The time\<close>

lemma int_and_15: "k AND 15 = k mod 16" for k :: int
  using take_bit_eq_mask [of 4 k] by (simp add: mask_eq_exp_minus_1 take_bit_eq_mod)

lemma digit_step: "0 \<le> d \<Longrightarrow> d < 16 \<Longrightarrow> (d + 16 * y) mod 16 = d \<and> (d + 16 * y) div 16 = y" for d y :: int
  by simp

definition bcd_int :: "nat list \<Rightarrow> int" where
  "bcd_int ds = foldr (\<lambda>d y. int d + 16 * y) ds 0"

lemma bcd_int_simps [simp]: "bcd_int [] = 0" "bcd_int (d # ds) = int d + 16 * bcd_int ds"
  by (simp_all add: bcd_int_def)

lemma bcd_int_range: "list_all (\<lambda>d. d \<le> 9) ds \<Longrightarrow> 0 \<le> bcd_int ds \<and> bcd_int ds < 16 ^ length ds"
  by (induction ds) auto

lemma nat_bcd_int_digit:
  "list_all (\<lambda>d. d \<le> 9) ds \<Longrightarrow> nat (bcd_int ds) div 16 ^ i mod 16 \<le> 9"
proof (induction ds arbitrary: i)
  case (Cons d ds)
  have n: "nat (bcd_int (d # ds)) = d + 16 * nat (bcd_int ds)"
    using bcd_int_range [of ds] Cons(2) by (simp add: nat_add_distrib nat_mult_distrib)
  show ?case
  proof (cases i)
    case (Suc j)
    have "(d + 16 * nat (bcd_int ds)) div 16 ^ Suc j = (d + 16 * nat (bcd_int ds)) div 16 div 16 ^ j"
      by (simp add: div_mult2_eq)
    then show ?thesis using Cons unfolding n Suc by simp
  qed (use Cons(2) n in simp)
qed simp

lemma vbi_is_bcd_int:
  assumes "list_all (\<lambda>d. d \<le> 9) ds" "length ds \<le> 7"
  shows "vbi_is_bcd (word_of_int (bcd_int ds))"
proof -
  have "(16 :: int) ^ length ds \<le> 16 ^ 7" using assms(2) by (intro power_increasing) auto
  then have "bcd_int ds < 2 ^ 32" using bcd_int_range [OF assms(1)] by simp
  then have "unat (word_of_int (bcd_int ds) :: u32) = nat (bcd_int ds)"
    using bcd_int_range [OF assms(1)] by (simp add: unsigned_of_int take_bit_int_eq_self)
  then show ?thesis
    using nat_bcd_int_digit [OF assms(1)] by (simp add: vbi_is_bcd_iff digit_def)
qed

lemma bcd_int_and: "list_all (\<lambda>d. d \<le> 9) (d # ds) \<Longrightarrow> bcd_int (d # ds) AND 15 = int d"
  by (simp add: int_and_15)

lemma bcd_int_drop: "list_all (\<lambda>d. d \<le> 9) ds \<Longrightarrow> drop_bit (4 * k) (bcd_int ds) = bcd_int (drop k ds)"
proof (induction k)
  case (Suc k)
  have "drop_bit 4 (bcd_int es) = bcd_int (tl es)" if "list_all (\<lambda>d. d \<le> 9) es" for es
    using that by (cases es) (simp_all add: drop_bit_eq_div)
  moreover have "list_all (\<lambda>d. d \<le> 9) (drop k ds)" using Suc(2) by (auto simp: list_all_iff dest: in_set_dropD)
  ultimately have "drop_bit 4 (drop_bit (4 * k) (bcd_int ds)) = bcd_int (tl (drop k ds))" using Suc by simp
  then show ?case by (simp add: drop_bit_drop_bit add.commute tl_drop drop_Suc)
qed simp

lemmas bcd_int_drop_1 = bcd_int_drop [where k = 1, simplified]
lemmas bcd_int_drop_2 = bcd_int_drop [where k = 2, simplified]
lemmas bcd_int_drop_3 = bcd_int_drop [where k = 3, simplified]
lemmas bcd_int_drop_4 = bcd_int_drop [where k = 4, simplified]
lemmas bcd_int_drop_5 = bcd_int_drop [where k = 5, simplified]

lemma bcd2bin_int:
  assumes "list_all (\<lambda>d. d \<le> 9) [a, b, c, d, e]"
  shows "bcd2bin (bcd_int [a, b, c, d, e]) = int a + 10 * int b + 100 * int c + 1000 * int d + 10000 * int e"
  using assms by (simp add: bcd2bin_def bcd_int_drop_1 bcd_int_and del: bcd_int_simps)

text \<open>A packet with a date and a time, every decimal digit incremented by one.\<close>

definition dec_digit :: "nat \<Rightarrow> nat \<Rightarrow> nat" where
  "dec_digit n i = n div 10 ^ i mod 10"

definition local_time_packet :: "nat \<Rightarrow> nat \<Rightarrow> nat \<Rightarrow> nat \<Rightarrow> u8 list \<Rightarrow> bool" where
  "local_time_packet mjd h m s buffer \<longleftrightarrow>
     uint (buffer ! 12) AND 15 = int (dec_digit mjd 4 + 1)
     \<and> uint (buffer ! 13) = 16 * int (dec_digit mjd 3 + 1) + int (dec_digit mjd 2 + 1)
     \<and> uint (buffer ! 14) = 16 * int (dec_digit mjd 1 + 1) + int (dec_digit mjd 0 + 1)
     \<and> uint (buffer ! 15) = 16 * int (dec_digit h 1 + 1) + int (dec_digit h 0 + 1)
     \<and> uint (buffer ! 16) = 16 * int (dec_digit m 1 + 1) + int (dec_digit m 0 + 1)
     \<and> uint (buffer ! 17) = 16 * int (dec_digit s 1 + 1) + int (dec_digit s 0 + 1)"

definition local_time_offset :: "u8 \<Rightarrow> int" where
  "local_time_offset b = (if bit b 6 then - 1 else 1) * (uint b div 2 mod 32) * 1800"

lemma dec_digit_le [simp]: "dec_digit n i \<le> 9"
  by (simp add: dec_digit_def less_Suc_eq_le [symmetric])

lemma dec_digits_2: "n < 100 \<Longrightarrow> dec_digit n 0 + 10 * dec_digit n 1 = n"
  by (simp add: dec_digit_def)

lemma dec_digits_5:
  assumes "n < 100000"
  shows "dec_digit n 0 + 10 * dec_digit n 1 + 100 * dec_digit n 2 + 1000 * dec_digit n 3 + 10000 * dec_digit n 4 = n"
proof -
  have "n = n mod 10 + 10 * (n div 10)" "n div 10 = n div 10 mod 10 + 10 * (n div 100)"
    "n div 100 = n div 100 mod 10 + 10 * (n div 1000)" "n div 1000 = n div 1000 mod 10 + 10 * (n div 10000)"
    using mod_mult_div_eq [of n 10] mod_mult_div_eq [of "n div 10" 10] mod_mult_div_eq [of "n div 100" 10]
      mod_mult_div_eq [of "n div 1000" 10] by (simp_all add: div_mult2_eq [symmetric])
  moreover have "n div 10000 mod 10 = n div 10000" using assms by simp
  ultimately have "n mod 10 + 10 * (n div 10 mod 10) + 100 * (n div 100 mod 10) + 1000 * (n div 1000 mod 10)
      + 10000 * (n div 10000 mod 10) = n" by linarith
  then show ?thesis by (simp add: dec_digit_def)
qed

lemma offset_bits:
  "uint b AND 0x3E = 2 * (uint b div 2 mod 32)" "uint b AND 0x40 \<noteq> 0 \<longleftrightarrow> bit b 6" for b :: u8
proof -
  have "b AND 0x3E = push_bit 1 (take_bit 5 (drop_bit 1 b))"
    unfolding u8_eq_bits all_lt_8 by (simp add: bit_simps del: push_bit_Suc) (simp add: numeral_eq_Suc)
  then have "uint (b AND 0x3E) = uint (push_bit 1 (take_bit 5 (drop_bit 1 b)))" by (rule arg_cong)
  moreover have "uint (push_bit 1 (take_bit 5 w)) = 2 * uint (take_bit 5 w)" for w :: u8
  proof -
    have "take_bit 5 (uint w) < 32" using take_bit_int_less_exp [of 5 "uint w"] by simp
    then have "take_bit 8 (push_bit 1 (take_bit 5 (uint w))) = push_bit 1 (take_bit 5 (uint w))"
      by (intro take_bit_int_eq_self) (simp_all add: push_bit_eq_mult)
    then show ?thesis by (simp only: unsigned_push_bit_eq unsigned_take_bit_eq) (simp add: push_bit_eq_mult)
  qed
  moreover have "uint b < 256" using unsigned_less [of b] by simp
  then have "take_bit 8 (uint b) = uint b" by (simp add: take_bit_int_eq_self)
  then have "uint (take_bit 5 (drop_bit 1 b)) = take_bit 5 (drop_bit 1 (uint b))"
    by (simp add: unsigned_take_bit_eq unsigned_drop_bit_eq)
  ultimately have "uint (b AND 0x3E) = 2 * take_bit 5 (drop_bit 1 (uint b))" by simp
  moreover have "uint (b AND 0x3E) = uint b AND 0x3E" by (simp add: unsigned_and_eq)
  ultimately show "uint b AND 0x3E = 2 * (uint b div 2 mod 32)"
    by (simp add: take_bit_eq_mod drop_bit_eq_div)
  have "uint b AND 0x40 = uint (b AND 2 ^ 6)" by (simp add: unsigned_and_eq)
  then show "uint b AND 0x40 \<noteq> 0 \<longleftrightarrow> bit b 6"
    unfolding and_exp_eq_of_bool by simp
qed

text \<open>C27: the time in a packet 8/30 format 1. A packet that carries a modified Julian date and a time of day (a leap
  second included) as digits incremented by one decodes to the seconds since 1970-01-01, day 40587, when they are in the
  range of \<^verbatim>\<open>time_t\<close>, and to the signed offset from UTC in units of half an hour.\<close>

theorem teletext_8301_local_time:
  assumes "mjd < 100000" "h < 24" "m < 60" "s \<le> 60" "local_time_packet mjd h m s buffer"
    and "t = (int mjd - 40587) * 86400 + int h * 3600 + int m * 60 + int s" "fst tr \<le> t" "t \<le> snd tr"
  shows "vbi_decode_teletext_8301_local_time tr buffer = Some (t, local_time_offset (buffer ! 11))"
proof -
  let ?D = "[dec_digit mjd 0, dec_digit mjd 1, dec_digit mjd 2, dec_digit mjd 3, dec_digit mjd 4]"
  let ?T = "[dec_digit s 0, dec_digit s 1, dec_digit m 0, dec_digit m 1, dec_digit h 0, dec_digit h 1]"
  have d: "push_bit 16 (uint (buffer ! 12) AND 15) + push_bit 8 (uint (buffer ! 13)) + uint (buffer ! 14) - 0x11111 = bcd_int ?D"
    and c: "push_bit 16 (uint (buffer ! 15)) + push_bit 8 (uint (buffer ! 16)) + uint (buffer ! 17) - 0x111111 = bcd_int ?T"
    using assms(5) by (simp_all add: local_time_packet_def push_bit_eq_mult)
  have ok: "vbi_is_bcd (word_of_int (bcd_int ?D))" "vbi_is_bcd (word_of_int (bcd_int ?T))"
    by (rule vbi_is_bcd_int; simp)+
  have mjd: "bcd2bin (bcd_int ?D) = int mjd"
    using dec_digits_5 [OF assms(1)] by (subst bcd2bin_int) simp_all
  note two = dec_digits_2 [of s] dec_digits_2 [of m] dec_digits_2 [of h]
  have f: "(bcd_int ?T AND 15) + (drop_bit 4 (bcd_int ?T) AND 15) * 10 = int s"
    "(drop_bit 8 (bcd_int ?T) AND 15) + (drop_bit 12 (bcd_int ?T) AND 15) * 10 = int m"
    "(drop_bit 16 (bcd_int ?T) AND 15) + drop_bit 20 (bcd_int ?T) * 10 = int h"
    using two assms(2-4)
    by (simp_all add: bcd_int_drop_1 bcd_int_drop_2 bcd_int_drop_3 bcd_int_drop_4 bcd_int_drop_5 bcd_int_and
        del: bcd_int_simps(2)) simp
  have o: "(if uint (buffer ! 11) AND 0x40 \<noteq> 0 then - ((uint (buffer ! 11) AND 0x3E) * (15 * 60))
      else (uint (buffer ! 11) AND 0x3E) * (15 * 60)) = local_time_offset (buffer ! 11)"
    by (simp add: offset_bits local_time_offset_def)
  show ?thesis
    unfolding vbi_decode_teletext_8301_local_time_def Let_def d c mjd f o
    using ok assms(2-4,6-8) by simp
qed

lemma word_bits_u8 [simp]: "uint (word_of_nat n :: u8) = int n" if "n < 256"
  using that by (simp add: unsigned_of_nat take_bit_nat_eq_self)

definition summer_packet :: "u8 list" where
  "summer_packet = replicate 11 0x15 @ [0x05, 0x06, 0x16, 0x18, 0x24, 0x56, 0x71] @ replicate 24 0"

theorem teletext_8301_local_time_witness:
  "vbi_decode_teletext_8301_local_time (- (2 ^ 63), 2 ^ 63 - 1) summer_packet = Some (857137560, 3600)"
proof -
  have "local_time_packet 50507 13 45 60 summer_packet"
    by (simp add: local_time_packet_def summer_packet_def dec_digit_def nth_append)
  moreover have "summer_packet ! 11 = 0x05" by (simp add: summer_packet_def nth_append)
  moreover have "local_time_offset 5 = 3600" by (simp add: local_time_offset_def bit_numeral_rec(1))
  ultimately show ?thesis
    using teletext_8301_local_time [of 50507 13 45 60 summer_packet 857137560 "(- (2 ^ 63), 2 ^ 63 - 1)"]
    by simp
qed

subsection \<open>The program identification\<close>

text \<open>The bytes 6 to 12 that carry a program identification, in the numbering of the standard.\<close>

definition pid_8302_ok :: "vbi_program_id \<Rightarrow> bool" where
  "pid_8302_ok pid \<longleftrightarrow> channel pid \<le> 3 \<and> luf pid \<le> 1 \<and> mi pid \<le> 1 \<and> pid_prf pid \<le> 1 \<and> pcs_audio pid \<le> 3
     \<and> pil pid \<le> 0xFFFFF \<and> cni pid \<le> 0xFFFF \<and> pty pid \<le> 0xFF"

definition byte_6 :: "vbi_program_id \<Rightarrow> u32" where
  "byte_6 pid = (push_bit 2 (channel pid) OR push_bit 1 (luf pid)) OR pid_prf pid"

definition bytes_7_to_12 :: "vbi_program_id \<Rightarrow> u32 list" where
  "bytes_7_to_12 pid =
     [(push_bit 6 (pcs_audio pid) OR push_bit 5 (mi pid)) OR drop_bit 12 (cni pid),
      (cni pid AND 0xC0) OR drop_bit 14 (pil pid),
      drop_bit 6 (pil pid) AND 0xFF,
      (push_bit 2 (pil pid) AND 0xFC) OR (drop_bit 10 (cni pid) AND 0x03),
      (cni pid AND 0x3F) OR (drop_bit 2 (cni pid) AND 0xC0),
      pty pid]"

text \<open>A Hamming coded digit as it may be received: with at most one bit wrong.\<close>

definition received :: "u8 \<Rightarrow> u32 \<Rightarrow> bool" where
  "received b d \<longleftrightarrow> b = ham_byte d \<or> (\<exists>k<8. b = flip8 k (ham_byte d))"

definition format_2_packet :: "vbi_program_id \<Rightarrow> u8 list \<Rightarrow> bool" where
  "format_2_packet pid buffer \<longleftrightarrow> length buffer = 42
     \<and> received (buffer ! 9) (drop_bit 4 (vbi_rev8 (byte_6 pid)))
     \<and> (\<forall>i<6. received (buffer ! (10 + 2 * i)) (vbi_rev8 (bytes_7_to_12 pid ! i) AND 15)
           \<and> received (buffer ! (11 + 2 * i)) (drop_bit 4 (vbi_rev8 (bytes_7_to_12 pid ! i)) AND 15))"

lemma unham_received: "received b d \<Longrightarrow> d < 16 \<Longrightarrow> vbi_hamm8_inv ! unat b = uint d"
  using ham8.dec_flip [of d] ham8.dec_enc [of d] by (auto simp: received_def ham_byte_def)

lemma bit_vbi_rev8: "bit (vbi_rev8 c) n \<longleftrightarrow> n < 8 \<and> bit c (7 - n)"
  using bit_vbi_bit_reverse [of n "ucast c"] not_bit_u8 [of n]
  by (cases "n < 8") (auto simp: vbi_rev8_def bit_unsigned_iff)

lemma nibble_lt: "x AND 15 < 16" for x :: u32
proof -
  have "x AND 15 = take_bit 4 x" by (simp add: take_bit_eq_mask mask_eq_exp_minus_1)
  then show ?thesis
    using take_bit_nat_less_exp [of 4 "unat x"] by (simp add: word_less_nat_alt unsigned_take_bit_eq del: take_bit_nat_less_exp)
qed

lemma unham16p_received:
  assumes "received (p ! 0) (t AND 15)" "received (p ! 1) (drop_bit 4 t AND 15)" "take_bit 8 t = t"
  shows "vbi_unham16p p = uint t"
proof -
  have a: "x AND 15 = take_bit 4 x" for x :: u32 by (simp add: take_bit_eq_mask mask_eq_exp_minus_1)
  have "vbi_unham16p p = uint (take_bit 4 t) OR push_bit 4 (uint (take_bit 4 (drop_bit 4 t)))"
    using unham_received [OF assms(1) nibble_lt] unham_received [OF assms(2) nibble_lt]
    by (simp add: vbi_unham16p_def a)
  also have "\<dots> = uint (take_bit 8 t)"
    by (rule bit_eqI) (auto simp: bit_simps unsigned_take_bit_eq unsigned_drop_bit_eq)
  finally show ?thesis by (simp only: assms(3))
qed

lemma plus5_eq_or:
  fixes a b c d e :: u32
  assumes "a AND b = 0" "(a OR b) AND c = 0" "((a OR b) OR c) AND d = 0" "(((a OR b) OR c) OR d) AND e = 0"
  shows "a + b + c + d + e = (((a OR b) OR c) OR d) OR e"
  using assms by (simp add: disjunctive_add_eq_or)

lemma cni_of_bytes_or:
  "cni_of_bytes b7 b8 b10 b11 =
     (((push_bit 12 (b7 AND 0x0F) OR push_bit 10 (b10 AND 0x03)) OR push_bit 2 (b11 AND 0xC0)) OR (b8 AND 0xC0))
       OR (b11 AND 0x3F)"
  unfolding cni_of_bytes_def by (rule plus5_eq_or; simp add: u32_eq_bits all_lt_32 bit_simps)

lemma high_bits_1:
  "w \<le> 0xFFFF \<Longrightarrow> 16 \<le> n \<Longrightarrow> \<not> bit w n" "w \<le> 1 \<Longrightarrow> 1 \<le> n \<Longrightarrow> \<not> bit w n" for w :: u32
  by (rule not_bit_unat_less [where m = 16] not_bit_unat_less [where m = 1]; simp add: word_le_nat_alt)+

lemma pid_8302_bits:
  assumes "pid_8302_ok pid"
  shows "2 \<le> n \<Longrightarrow> \<not> bit (channel pid) n" "1 \<le> n \<Longrightarrow> \<not> bit (luf pid) n" "1 \<le> n \<Longrightarrow> \<not> bit (mi pid) n"
    "1 \<le> n \<Longrightarrow> \<not> bit (pid_prf pid) n" "2 \<le> n \<Longrightarrow> \<not> bit (pcs_audio pid) n" "20 \<le> n \<Longrightarrow> \<not> bit (pil pid) n"
    "16 \<le> n \<Longrightarrow> \<not> bit (cni pid) n" "8 \<le> n \<Longrightarrow> \<not> bit (pty pid) n"
  using assms high_bits_0 high_bits_1 by (auto simp: pid_8302_ok_def)

lemma bytes_7_to_12_lt:
  assumes "pid_8302_ok pid" "i < 6"
  shows "take_bit 8 (bytes_7_to_12 pid ! i) = bytes_7_to_12 pid ! i"
proof -
  have "i \<in> {0, 1, 2, 3, 4, 5}" using assms(2) by auto
  then show ?thesis
    using pid_8302_bits [OF assms(1)]
    by (auto simp: bytes_7_to_12_def u32_eq_bits all_lt_32 bit_simps)
qed

lemma pid_fields:
  assumes "pid_8302_ok pid"
  defines "b6 \<equiv> byte_6 pid" and "b \<equiv> bytes_7_to_12 pid"
  shows "cni_of_bytes (b ! 0) (b ! 1) (b ! 3) (b ! 4) = cni pid"
    and "push_bit 14 (b ! 1 AND 0x3F) + push_bit 6 (b ! 2) + drop_bit 2 (b ! 3) = pil pid"
    and "drop_bit 2 b6 AND 3 = channel pid" "drop_bit 1 b6 AND 1 = luf pid" "b6 AND 1 = pid_prf pid"
    and "drop_bit 5 (b ! 0) AND 1 = mi pid" "drop_bit 6 (b ! 0) AND 3 = pcs_audio pid" "b ! 5 = pty pid"
proof -
  note bits = pid_8302_bits [OF assms(1)]
  have n: "b ! 0 = (push_bit 6 (pcs_audio pid) OR push_bit 5 (mi pid)) OR drop_bit 12 (cni pid)"
    "b ! 1 = (cni pid AND 0xC0) OR drop_bit 14 (pil pid)" "b ! 2 = drop_bit 6 (pil pid) AND 0xFF"
    "b ! 3 = (push_bit 2 (pil pid) AND 0xFC) OR (drop_bit 10 (cni pid) AND 0x03)"
    "b ! 4 = (cni pid AND 0x3F) OR (drop_bit 2 (cni pid) AND 0xC0)" "b ! 5 = pty pid"
    by (simp_all add: b_def bytes_7_to_12_def)
  show "cni_of_bytes (b ! 0) (b ! 1) (b ! 3) (b ! 4) = cni pid"
    unfolding n cni_of_bytes_or using bits by (simp add: u32_eq_bits all_lt_32 bit_simps)
  have p: "push_bit 14 (b ! 1 AND 0x3F) + push_bit 6 (b ! 2) + drop_bit 2 (b ! 3)
      = (push_bit 14 (b ! 1 AND 0x3F) OR push_bit 6 (b ! 2)) OR drop_bit 2 (b ! 3)"
    unfolding n by (rule plus3_eq_or) (simp_all add: u32_eq_bits all_lt_32 bit_simps)
  show "push_bit 14 (b ! 1 AND 0x3F) + push_bit 6 (b ! 2) + drop_bit 2 (b ! 3) = pil pid"
    unfolding p unfolding n using bits by (simp add: u32_eq_bits all_lt_32 bit_simps)
  show "drop_bit 5 (b ! 0) AND 1 = mi pid" "drop_bit 6 (b ! 0) AND 3 = pcs_audio pid" "b ! 5 = pty pid"
    unfolding n using bits by (simp_all add: u32_eq_bits all_lt_32 bit_simps)
  show "drop_bit 2 b6 AND 3 = channel pid" "drop_bit 1 b6 AND 1 = luf pid" "b6 AND 1 = pid_prf pid"
    unfolding b6_def byte_6_def using bits by (simp_all add: u32_eq_bits all_lt_32 bit_simps del: push_bit_Suc)
qed

lemma rev8_nibbles:
  assumes "take_bit 8 b = b"
  shows "vbi_rev8 (word_of_int (uint (vbi_rev8 b))) = b" "take_bit 8 (vbi_rev8 b) = vbi_rev8 b"
proof -
  show "vbi_rev8 (word_of_int (uint (vbi_rev8 b))) = b" by (simp add: vbi_rev8_rev8 and_255 assms)
  show "take_bit 8 (vbi_rev8 b) = vbi_rev8 b" by (rule bit_word_eqI) (auto simp: bit_simps bit_vbi_rev8)
qed

lemma byte_6_received:
  assumes "pid_8302_ok pid"
  shows "drop_bit 4 (vbi_rev8 (byte_6 pid)) < 16"
    "drop_bit 4 (vbi_rev8 (word_of_int (uint (drop_bit 4 (vbi_rev8 (byte_6 pid)))))) = byte_6 pid"
proof -
  have b: "\<not> bit (byte_6 pid) n" if "4 \<le> n" for n
    using pid_8302_bits [OF assms] that by (auto simp: byte_6_def bit_simps simp del: push_bit_Suc)
  have "drop_bit 4 (vbi_rev8 (byte_6 pid)) AND 15 = drop_bit 4 (vbi_rev8 (byte_6 pid))"
    by (simp add: u32_eq_bits all_lt_32 bit_simps bit_vbi_rev8)
  then show "drop_bit 4 (vbi_rev8 (byte_6 pid)) < 16" using nibble_lt by metis
  show "drop_bit 4 (vbi_rev8 (word_of_int (uint (drop_bit 4 (vbi_rev8 (byte_6 pid)))))) = byte_6 pid"
    using b by (simp add: u32_eq_bits all_lt_32 bit_simps bit_vbi_rev8)
qed

text \<open>C28: A packet 8/30 format 2 that carries a program identification whose fields fit decodes to exactly these
  fields, also if every one of its 13 Hamming coded digits arrives with one bit wrong; and its network
  identifier alone decodes to the same number.\<close>

theorem teletext_8302_roundtrip:
  assumes "pid_8302_ok pid" "format_2_packet pid buffer"
  shows "vbi_decode_teletext_8302_pdc buffer = Some (pid\<lparr>cni_type := VBI_CNI_TYPE_8302, tape_delayed := 0\<rparr>)
    \<and> vbi_decode_teletext_8302_cni buffer = Some (cni pid)"
proof -
  let ?b = "bytes_7_to_12 pid"
  have t: "vbi_unham16p (drop (10 + 2 * i) buffer) = uint (vbi_rev8 (?b ! i))" if "i < 6" for i
  proof (rule unham16p_received)
    show "take_bit 8 (vbi_rev8 (?b ! i)) = vbi_rev8 (?b ! i)"
      using rev8_nibbles(2) bytes_7_to_12_lt [OF assms(1) that] by blast
  qed (use assms(2) that in \<open>simp_all add: format_2_packet_def add.commute\<close>)
  have r: "vbi_rev8 (word_of_int (uint (vbi_rev8 (?b ! i)))) = ?b ! i" if "i < 6" for i
    using rev8_nibbles(1) [OF bytes_7_to_12_lt [OF assms(1) that]] .
  have e: "vbi_hamm8_inv ! unat (buffer ! 9) = uint (drop_bit 4 (vbi_rev8 (byte_6 pid)))"
    using unham_received assms(2) byte_6_received(1) [OF assms(1)] by (simp add: format_2_packet_def)
  have u: "0 \<le> uint w" for w :: u32 by simp
  note tt = t [of 0, simplified] t [of 1, simplified] t [of 2, simplified] t [of 3, simplified]
    t [of 4, simplified] t [of 5, simplified]
  note rr = r [of 0, simplified] r [of 1, simplified] r [of 2, simplified] r [of 3, simplified]
    r [of 4, simplified] r [of 5, simplified]
  have upt: "[7..<13] = [7, 8, 9, 10, 11, 12 :: nat]" by (simp add: upt_rec)
  have "vbi_decode_teletext_8302_cni buffer = Some (cni_of_bytes (?b ! 0) (?b ! 1) (?b ! 3) (?b ! 4))"
    unfolding vbi_decode_teletext_8302_cni_def Let_def
    using tt rr by (simp add: not_less or_nonnegative_int_iff)
  moreover have "vbi_decode_teletext_8302_pdc buffer = Some (pid\<lparr>cni_type := VBI_CNI_TYPE_8302, tape_delayed := 0\<rparr>)"
    unfolding vbi_decode_teletext_8302_pdc_def Let_def upt
    using tt rr pid_fields [OF assms(1)] byte_6_received(2) [OF assms(1)] e
    by (simp add: not_less or_nonnegative_int_iff clear_pid_def)
  ultimately show ?thesis using pid_fields(1) [OF assms(1)] by simp
qed

definition cni_pid :: vbi_program_id where
  "cni_pid = clear_pid\<lparr>cni := 0x8000\<rparr>"

definition cni_buffer :: "u8 list" where
  "cni_buffer = (replicate 42 0x15)[9 := 0x14, 11 := 0x02]"

lemma ham_byte_0_1: "ham_byte 0 = 0x15" "ham_byte 1 = 0x02"
  by code_simp+

lemma vbi_rev8_0_8: "vbi_rev8 0 = 0" "vbi_rev8 8 = 0x10"
  by code_simp+

theorem teletext_8302_roundtrip_witness:
  "vbi_decode_teletext_8302_pdc cni_buffer = Some (cni_pid\<lparr>cni_type := 3\<rparr>)
    \<and> vbi_decode_teletext_8302_cni cni_buffer = Some 0x8000"
proof -
  have ok: "pid_8302_ok cni_pid" by (simp add: pid_8302_ok_def cni_pid_def clear_pid_def)
  have b: "byte_6 cni_pid = 0" "bytes_7_to_12 cni_pid = [8, 0, 0, 0, 0, 0]"
    by (simp_all add: byte_6_def bytes_7_to_12_def cni_pid_def clear_pid_def)
  have six: "i \<in> {0, 1, 2, 3, 4, 5}" if "i < 6" for i :: nat using that by auto
  have "received 0x14 0" unfolding received_def ham_byte_0_1
    by (intro disjI2 exI [of _ 0]) (simp add: flip8_def)
  moreover have "received 0x15 0" "received 0x02 1" by (simp_all add: received_def ham_byte_0_1)
  ultimately have "format_2_packet cni_pid cni_buffer"
    unfolding format_2_packet_def b by (auto simp: vbi_rev8_0_8 cni_buffer_def dest!: six)
  from teletext_8302_roundtrip [OF ok this] show ?thesis by (simp add: cni_pid_def clear_pid_def)
qed

end
