(* ===== verification/Calendar.thy ===== *)
theory Calendar
  imports Prelude
begin

text \<open>The calendar functions of the C library that do not depend on a time zone, as POSIX defines them:
  \<^verbatim>\<open>gmtime_r\<close> and \<^verbatim>\<open>timegm\<close> on the Gregorian calendar, with seconds since 1970-01-01 00:00 UTC as unbounded
  integers. \<^verbatim>\<open>struct tm\<close> holds the members the code uses; \<^const>\<open>None\<close> is the null pointer.\<close>

record tm =
  tm_sec :: int
  tm_min :: int
  tm_hour :: int
  tm_mday :: int
  tm_mon :: int
  tm_year :: int
  tm_isdst :: int

definition clear_tm :: tm where
  "clear_tm = \<lparr>tm_sec = 0, tm_min = 0, tm_hour = 0, tm_mday = 0, tm_mon = 0, tm_year = 0, tm_isdst = 0\<rparr>"

definition leap :: "int \<Rightarrow> bool" where
  "leap y \<longleftrightarrow> y mod 4 = 0 \<and> (y mod 100 \<noteq> 0 \<or> y mod 400 = 0)"

definition month_lengths :: "bool \<Rightarrow> int list" where
  "month_lengths l = [31, if l then 29 else 28, 31, 30, 31, 30, 31, 31, 30, 31, 30, 31]"

text \<open>Days before the first day of a year, counted from the year 1; and of the epoch 1970.\<close>

definition days_before_year :: "int \<Rightarrow> int" where
  "days_before_year y = 365 * (y - 1) + (y - 1) div 4 - (y - 1) div 100 + (y - 1) div 400"

definition epoch_days :: int where
  "epoch_days = 719162"

definition timegm :: "tm \<Rightarrow> int" where
  "timegm t =
     (let y = tm_year t + 1900 + tm_mon t div 12; m = tm_mon t mod 12;
          days = days_before_year y + sum_list (take (nat m) (month_lengths (leap y))) + tm_mday t - 1 - epoch_days
      in ((days * 24 + tm_hour t) * 60 + tm_min t) * 60 + tm_sec t)"

definition year_of :: "int \<Rightarrow> int" where
  "year_of d = (let y = 400 * d div 146097 + 1 in if days_before_year (y + 1) \<le> d then y + 1 else y)"

fun month_of :: "int list \<Rightarrow> int \<Rightarrow> int \<times> int" where
  "month_of [] d = (0, d)"
| "month_of (l # ls) d = (if d < l then (0, d) else let (m, r) = month_of ls (d - l) in (m + 1, r))"

definition gmtime :: "int \<Rightarrow> tm option" where
  "gmtime t =
     (let d = t div 86400 + epoch_days; s = t mod 86400; y = year_of d;
          (m, r) = month_of (month_lengths (leap y)) (d - days_before_year y) in
      if y - 1900 < - (2 ^ 31) \<or> y - 1900 > 2 ^ 31 - 1 then None
      else Some \<lparr>tm_sec = s mod 60, tm_min = s div 60 mod 60, tm_hour = s div 3600, tm_mday = r + 1, tm_mon = m,
             tm_year = y - 1900, tm_isdst = 0\<rparr>)"

lemma div_pred: "0 < k \<Longrightarrow> y div k = (y - 1) div k + (if k dvd y then 1 else 0)" for y k :: int
proof -
  assume k: "0 < k"
  have e: "y - 1 = k * (y div k) + (y mod k - 1)" using mult_div_mod_eq [of k y] by simp
  show ?thesis
  proof (cases "k dvd y")
    case True
    then have "y - 1 = k * (y div k - 1) + (k - 1)" using e by (simp add: right_diff_distrib dvd_imp_mod_0)
    from int_div_pos_eq [OF this] k True show ?thesis by simp
  next
    case False
    then have "y mod k \<noteq> 0" by (simp add: dvd_eq_mod_eq_0)
    then have "0 < y mod k" using pos_mod_sign [OF k, of y] by linarith
    then have "0 \<le> y mod k - 1" "y mod k - 1 < k" using pos_mod_bound [OF k, of y] by linarith+
    from int_div_pos_eq [OF e this] False show ?thesis by simp
  qed
qed

lemma leap_dvd: "leap y \<longleftrightarrow> 4 dvd y \<and> (\<not> 100 dvd y \<or> 400 dvd y)"
  by (simp only: leap_def dvd_eq_mod_eq_0)

lemma days_before_year_Suc: "days_before_year (y + 1) = days_before_year y + (if leap y then 366 else 365)"
proof -
  have imp: "400 dvd y \<Longrightarrow> 100 dvd y" "100 dvd y \<Longrightarrow> 4 dvd y" by (rule dvd_trans [rotated], assumption, simp)+
  define p q r where "p = (y - 1) div 4" and "q = (y - 1) div 100" and "r = (y - 1) div 400"
  have d: "y div 4 = p + (if 4 dvd y then 1 else 0)" "y div 100 = q + (if 100 dvd y then 1 else 0)"
    "y div 400 = r + (if 400 dvd y then 1 else 0)"
    unfolding p_def q_def r_def by (rule div_pred; simp)+
  have "days_before_year (y + 1) = 365 * y + y div 4 - y div 100 + y div 400"
    by (simp only: days_before_year_def add_diff_cancel_right')
  moreover have "days_before_year y = 365 * (y - 1) + p - q + r"
    by (simp only: days_before_year_def p_def q_def r_def)
  ultimately show ?thesis
    unfolding leap_dvd d using imp by (cases "4 dvd y"; cases "100 dvd y"; cases "400 dvd y"; simp)
qed

lemma days_before_year_mono: "x \<le> y \<Longrightarrow> days_before_year x \<le> days_before_year y"
proof (induction y rule: int_ge_induct)
  case (step i)
  then show ?case using days_before_year_Suc [of i] by (simp split: if_splits)
qed simp

lemma year_of_bounds: "days_before_year (year_of d) \<le> d \<and> d < days_before_year (year_of d + 1)"
proof -
  define n where "n = 400 * d div 146097"
  have n: "146097 * n \<le> 400 * d" "400 * d < 146097 * n + 146097"
    using div_mult_mod_eq [of "400 * d" 146097] pos_mod_bound [of 146097 "400 * d"] pos_mod_sign [of 146097 "400 * d"]
    unfolding n_def by linarith+
  have b: "400 * days_before_year (k + 1) < 146097 * k + 400" "146097 * k < 400 * days_before_year (k + 1) + 800" for k
    using div_mult_mod_eq [of k 4] div_mult_mod_eq [of k 100] div_mult_mod_eq [of k 400]
      pos_mod_bound [of 4 k] pos_mod_sign [of 4 k] pos_mod_bound [of 100 k] pos_mod_sign [of 100 k]
      pos_mod_bound [of 400 k] pos_mod_sign [of 400 k]
    unfolding days_before_year_def by simp_all
  have lo: "days_before_year (n + 1) \<le> d" using b(1) [of n] n by linarith
  have hi: "d < days_before_year (n + 3)"
  proof -
    have "days_before_year (n + 3) = days_before_year ((n + 1) + 1) + (if leap ((n + 1) + 1) then 366 else 365)"
      using days_before_year_Suc [of "n + 2"] by (simp add: add.assoc)
    then show ?thesis using b(2) [of "n + 1"] n by (auto split: if_splits)
  qed
  have e: "n + 1 + 1 + 1 = n + 3" by simp
  show ?thesis
  proof (cases "days_before_year (n + 1 + 1) \<le> d")
    case True
    then show ?thesis using hi unfolding year_of_def n_def [symmetric] Let_def if_P [OF True] e by blast
  next
    case False
    then show ?thesis using lo unfolding year_of_def n_def [symmetric] Let_def if_not_P [OF False] by simp
  qed
qed

lemma year_of_unique:
  assumes "days_before_year y \<le> d" "d < days_before_year (y + 1)"
  shows "year_of d = y"
  using year_of_bounds [of d] assms days_before_year_mono [of "y + 1" "year_of d"]
    days_before_year_mono [of "year_of d + 1" y] by linarith

lemma month_of_spec:
  "0 \<le> d \<Longrightarrow> d < sum_list ls \<Longrightarrow> month_of ls d = (m, r) \<Longrightarrow>
     0 \<le> m \<and> m < int (length ls) \<and> 0 \<le> r \<and> r < ls ! nat m \<and> sum_list (take (nat m) ls) + r = d"
proof (induction ls d arbitrary: m r rule: month_of.induct)
  case (2 l ls d)
  obtain m' r' where m': "month_of ls (d - l) = (m', r')" by (rule prod.exhaust)
  show ?case
  proof (cases "d < l")
    case False
    then have "0 \<le> m' \<and> m' < int (length ls) \<and> 0 \<le> r' \<and> r' < ls ! nat m' \<and> sum_list (take (nat m') ls) + r' = d - l"
      using 2(1) [OF False _ _ m'] 2(2,3) by simp
    moreover have "m = m' + 1" "r = r'" using 2(4) False m' by auto
    ultimately show ?thesis by (simp add: nat_add_distrib)
  qed (use 2 in auto)
qed simp

lemma month_of_take:
  "m < length ls \<Longrightarrow> 0 \<le> r \<Longrightarrow> r < ls ! m \<Longrightarrow> list_all (\<lambda>l. 0 \<le> l) ls \<Longrightarrow>
     month_of ls (sum_list (take m ls) + r) = (int m, r)"
proof (induction ls arbitrary: m)
  case (Cons l ls)
  show ?case
  proof (cases m)
    case (Suc k)
    have "0 \<le> sum_list (take k ls)" using Cons(5) by (auto simp: list_all_iff intro!: sum_list_nonneg dest: in_set_takeD)
    then show ?thesis using Cons Suc by (simp add: add.assoc)
  qed (use Cons in simp)
qed simp

lemma sum_month_lengths: "sum_list (month_lengths l) = (if l then 366 else 365)"
  by (simp add: month_lengths_def)

definition valid_tm :: "tm \<Rightarrow> bool" where
  "valid_tm t \<longleftrightarrow> 0 \<le> tm_sec t \<and> tm_sec t < 60 \<and> 0 \<le> tm_min t \<and> tm_min t < 60 \<and> 0 \<le> tm_hour t \<and> tm_hour t < 24
     \<and> 0 \<le> tm_mon t \<and> tm_mon t < 12 \<and> 1 \<le> tm_mday t
     \<and> tm_mday t \<le> month_lengths (leap (tm_year t + 1900)) ! nat (tm_mon t)
     \<and> - (2 ^ 31) \<le> tm_year t \<and> tm_year t \<le> 2 ^ 31 - 1 \<and> tm_isdst t = 0"

lemma day_seconds:
  fixes d h m s :: int
  assumes "0 \<le> h" "h < 24" "0 \<le> m" "m < 60" "0 \<le> s" "s < 60"
  defines "t \<equiv> ((d * 24 + h) * 60 + m) * 60 + s"
  shows "t div 86400 = d" "t mod 86400 div 3600 = h" "t mod 86400 div 60 mod 60 = m" "t mod 86400 mod 60 = s"
proof -
  define x where "x = h * 3600 + m * 60 + s"
  have t: "t = 86400 * d + x" by (simp add: t_def x_def algebra_simps)
  have x: "0 \<le> x" "x < 86400" using assms by (simp_all add: x_def)
  show "t div 86400 = d" using int_div_pos_eq [OF t x] .
  have m: "t mod 86400 = x" using int_mod_pos_eq [OF t x] .
  have "x = 3600 * h + (m * 60 + s)" "0 \<le> m * 60 + s" "m * 60 + s < 3600"
    using assms by (simp_all add: x_def)
  from int_div_pos_eq [OF this] show "t mod 86400 div 3600 = h" by (simp only: m)
  have y: "x = 60 * (h * 60 + m) + s" by (simp add: x_def)
  have q: "x div 60 = h * 60 + m" "x mod 60 = s"
    using int_div_pos_eq [OF y assms(5,6)] int_mod_pos_eq [OF y assms(5,6)] by simp_all
  show "t mod 86400 mod 60 = s" using q(2) by (simp only: m)
  have "h * 60 + m = 60 * h + m" by simp
  from int_mod_pos_eq [OF this assms(3,4)] show "t mod 86400 div 60 mod 60 = m" by (simp only: m q(1))
qed

lemma month_lengths_nonneg: "list_all (\<lambda>l. 0 \<le> l) (month_lengths l)" "length (month_lengths l) = 12"
  by (simp_all add: month_lengths_def)

lemma take_month_lengths:
  assumes "k < 12"
  shows "0 \<le> sum_list (take k (month_lengths l))"
    "sum_list (take k (month_lengths l)) + month_lengths l ! k \<le> sum_list (month_lengths l)"
proof -
  let ?ls = "month_lengths l"
  have nn: "0 \<le> sum_list xs" if "set xs \<subseteq> set ?ls" for xs
    using month_lengths_nonneg(1) [of l] that by (intro sum_list_nonneg) (auto simp: list_all_iff)
  show "0 \<le> sum_list (take k ?ls)" by (rule nn) (rule set_take_subset)
  have "?ls = take k ?ls @ ?ls ! k # drop (Suc k) ?ls"
    using assms month_lengths_nonneg(2) by (intro id_take_nth_drop) simp
  then have "sum_list ?ls = sum_list (take k ?ls) + (?ls ! k + sum_list (drop (Suc k) ?ls))"
    by (metis sum_list.Cons sum_list.append)
  then show "sum_list (take k ?ls) + ?ls ! k \<le> sum_list ?ls"
    using nn [OF set_drop_subset, of "Suc k"] by simp
qed

lemma gmtime_timegm:
  assumes "valid_tm t"
  shows "gmtime (timegm t) = Some t"
proof -
  define y where "y = tm_year t + 1900"
  define k where "k = nat (tm_mon t)"
  let ?ls = "month_lengths (leap y)"
  define D where "D = days_before_year y + sum_list (take k ?ls) + tm_mday t - 1 - epoch_days"
  note v = assms [unfolded valid_tm_def]
  have k: "k < 12" "tm_mon t = int k" "tm_mon t div 12 = 0" "tm_mon t mod 12 = tm_mon t" using v by (auto simp: k_def)
  have t: "timegm t = ((D * 24 + tm_hour t) * 60 + tm_min t) * 60 + tm_sec t"
    by (simp add: timegm_def k Let_def D_def y_def)
  have r: "0 \<le> tm_mday t - 1" "tm_mday t - 1 < ?ls ! k" using v by (simp_all add: k_def y_def)
  note day = day_seconds [of "tm_hour t" "tm_min t" "tm_sec t" D, folded t]
  have d: "timegm t div 86400 + epoch_days = days_before_year y + (sum_list (take k ?ls) + (tm_mday t - 1))"
    using day(1) v by (simp add: D_def)
  have "year_of (timegm t div 86400 + epoch_days) = y"
    unfolding d using take_month_lengths [OF k(1), of "leap y"] r days_before_year_Suc [of y]
    by (intro year_of_unique) (simp_all add: sum_month_lengths split: if_splits)
  moreover have "month_of ?ls (sum_list (take k ?ls) + (tm_mday t - 1)) = (int k, tm_mday t - 1)"
    using month_of_take [of k ?ls] r k(1) month_lengths_nonneg by simp
  ultimately show ?thesis
    using v day(2-4) unfolding gmtime_def Let_def
    by (simp add: d k(2) y_def)
qed

lemma timegm_gmtime:
  assumes "gmtime s = Some t"
  shows "timegm t = s \<and> valid_tm t"
proof -
  define d where "d = s div 86400 + epoch_days"
  define y where "y = year_of d"
  obtain m r where mr: "month_of (month_lengths (leap y)) (d - days_before_year y) = (m, r)" by (rule prod.exhaust)
  have t: "t = \<lparr>tm_sec = s mod 86400 mod 60, tm_min = s mod 86400 div 60 mod 60, tm_hour = s mod 86400 div 3600,
      tm_mday = r + 1, tm_mon = m, tm_year = y - 1900, tm_isdst = 0\<rparr>"
    and range: "- (2 ^ 31) \<le> y - 1900" "y - 1900 \<le> 2 ^ 31 - 1"
    using assms by (auto simp: gmtime_def Let_def d_def [symmetric] y_def [symmetric] mr split: if_splits)
  have y: "days_before_year y \<le> d" "d < days_before_year y + (if leap y then 366 else 365)"
    using year_of_bounds [of d] days_before_year_Suc [of y] by (simp_all add: y_def)
  have mon: "0 \<le> m" "m < 12" "0 \<le> r" "r < month_lengths (leap y) ! nat m"
    "sum_list (take (nat m) (month_lengths (leap y))) + r = d - days_before_year y"
    using month_of_spec [OF _ _ mr] y month_lengths_nonneg(2) by (simp_all add: sum_month_lengths)
  define x where "x = s mod 86400"
  have x: "0 \<le> x" "x < 86400" by (simp_all add: x_def)
  have f: "0 \<le> x mod 60" "x mod 60 < 60" "0 \<le> x div 60 mod 60" "x div 60 mod 60 < 60" "0 \<le> x div 3600" "x div 3600 < 24"
    using x by simp_all
  have e: "(x div 3600 * 60 + x div 60 mod 60) * 60 + x mod 60 = x"
  proof -
    have "x div 3600 = x div 60 div 60" using zdiv_zmult2_eq [of 60 x 60] by simp
    then have "x div 3600 * 60 + x div 60 mod 60 = x div 60" by simp
    then show ?thesis by simp
  qed
  have "timegm t = ((d - epoch_days) * 24 + x div 3600) * 3600 + (x div 60 mod 60) * 60 + x mod 60"
    using mon by (simp add: timegm_def t Let_def x_def [symmetric])
  also have "\<dots> = (d - epoch_days) * 86400 + x" using e by (simp add: algebra_simps)
  also have "\<dots> = s" by (simp add: d_def x_def)
  finally have "timegm t = s" .
  moreover have "valid_tm t"
    using mon f range by (simp add: valid_tm_def t x_def [symmetric])
  ultimately show ?thesis ..
qed

lemma gmtime_year_1970: "gmtime s = Some t \<Longrightarrow> 0 \<le> s \<Longrightarrow> 1970 \<le> tm_year t + 1900"
proof -
  assume t: "gmtime s = Some t" and s: "0 \<le> s"
  define d where "d = s div 86400 + epoch_days"
  have y: "tm_year t + 1900 = year_of d"
    using t by (auto simp: gmtime_def Let_def d_def [symmetric] split: prod.splits if_splits)
  have "epoch_days \<le> d" using s by (simp add: d_def)
  moreover have "days_before_year 1970 = epoch_days" by code_simp
  moreover have "d < days_before_year 1970" if "year_of d < 1970"
    using year_of_bounds [of d] days_before_year_mono [of "year_of d + 1" 1970] that by linarith
  ultimately show ?thesis unfolding y by linarith
qed

lemma month_day_leap:
  assumes "k < 12" "d \<le> month_lengths True ! k"
  shows "d \<le> month_lengths l ! k \<longleftrightarrow> k \<noteq> 1 \<or> d \<le> 28 \<or> l"
proof -
  have "list_all (\<lambda>k. k \<noteq> 1 \<longrightarrow> month_lengths False ! k = month_lengths True ! k) [0..<12]" by code_simp
  then have "k \<noteq> 1 \<Longrightarrow> month_lengths False ! k = month_lengths True ! k" using assms(1) by (simp add: list_all_iff)
  moreover have "month_lengths False ! 1 = 28" by (simp add: month_lengths_def)
  ultimately show ?thesis using assms(2) by (cases l; cases "k = 1") auto
qed

end
