(* ===== verification/Pdc.thy ===== *)
theory Pdc
  imports Calendar
begin

text \<open>Program Identification Labels, pdc.c: parsing, conversion to a time, and the time window in which a label
  may be broadcast. What the code needs of the C library beyond the calendar is a parameter, the record
  \<open>clib\<close>: the range of \<^verbatim>\<open>time_t\<close>, the current time, \<^verbatim>\<open>localtime_r\<close> and \<^verbatim>\<open>mktime\<close>, which depend on the
  environment variable \<^verbatim>\<open>TZ\<close> and the time zone database, and whether \<^verbatim>\<open>setenv\<close> and \<^verbatim>\<open>strdup\<close> succeed. The value
  of \<^verbatim>\<open>TZ\<close> is the state \<open>env\<close> of the functions that set it. A \<^verbatim>\<open>time_t\<close> is an unbounded integer, \<open>- 1\<close> means
  failure as in the code.\<close>

unbundle bit_operations_syntax

subsection \<open>Labels\<close>

definition VBI_PIL :: "u32 \<Rightarrow> u32 \<Rightarrow> u32 \<Rightarrow> u32 \<Rightarrow> u32" where
  "VBI_PIL month day hour minute = push_bit 15 day OR push_bit 11 month OR push_bit 6 hour OR minute"

definition VBI_PIL_MONTH :: "u32 \<Rightarrow> u32" where "VBI_PIL_MONTH pil = drop_bit 11 pil AND 15"
definition VBI_PIL_DAY :: "u32 \<Rightarrow> u32" where "VBI_PIL_DAY pil = drop_bit 15 pil AND 31"
definition VBI_PIL_HOUR :: "u32 \<Rightarrow> u32" where "VBI_PIL_HOUR pil = drop_bit 6 pil AND 31"
definition VBI_PIL_MINUTE :: "u32 \<Rightarrow> u32" where "VBI_PIL_MINUTE pil = pil AND 63"

definition VBI_PIL_TIMER_CONTROL :: u32 where "VBI_PIL_TIMER_CONTROL = VBI_PIL 15 0 31 63"
definition VBI_PIL_INHIBIT_TERMINATE :: u32 where "VBI_PIL_INHIBIT_TERMINATE = VBI_PIL 15 0 30 63"
definition VBI_PIL_INTERRUPTION :: u32 where "VBI_PIL_INTERRUPTION = VBI_PIL 15 0 29 63"
definition VBI_PIL_CONTINUE :: u32 where "VBI_PIL_CONTINUE = VBI_PIL 15 0 28 63"
definition VBI_PIL_NSPV :: u32 where "VBI_PIL_NSPV = VBI_PIL 15 15 31 63"
definition VBI_PIL_END :: u32 where "VBI_PIL_END = VBI_PIL 15 15 31 63"

definition month_days :: "u32 list" where
  "month_days = [31, 29, 31, 30, 31, 30, 31, 31, 30, 31, 30, 31]"

definition vbi_pil_is_valid_date :: "u32 \<Rightarrow> bool" where
  "vbi_pil_is_valid_date pil \<longleftrightarrow>
     VBI_PIL_MONTH pil - 1 < 12 \<and> VBI_PIL_DAY pil - 1 < month_days ! unat (VBI_PIL_MONTH pil - 1)
     \<and> VBI_PIL_HOUR pil < 24 \<and> VBI_PIL_MINUTE pil < 60"

subsection \<open>Parsing\<close>

definition isspace :: "char \<Rightarrow> bool" where
  "isspace c \<longleftrightarrow> (of_char c :: nat) = 32 \<or> 9 \<le> (of_char c :: nat) \<and> (of_char c :: nat) \<le> 13"

definition isdigit :: "char \<Rightarrow> bool" where
  "isdigit c \<longleftrightarrow> 48 \<le> (of_char c :: nat) \<and> (of_char c :: nat) \<le> 57"

definition tolower :: "char \<Rightarrow> nat" where
  "tolower c = (let n = of_char c in if 65 \<le> n \<and> n \<le> 90 then n + 32 else n)"

definition isalnum :: "char \<Rightarrow> bool" where
  "isalnum c \<longleftrightarrow> isdigit c \<or> 97 \<le> tolower c \<and> tolower c \<le> 122"

text \<open>The character at an offset, NUL at the end of the string.\<close>

definition char_at :: "string \<Rightarrow> nat \<Rightarrow> char" where
  "char_at s i = (if i < length s then s ! i else CHR 0x00)"

fun keyword_lookup :: "string \<Rightarrow> (string \<times> u32) list \<Rightarrow> (u32 \<times> string) option" where
  "keyword_lookup s [] = None"
| "keyword_lookup s ((key, v) # table) =
     (if map tolower (take (length key) s) = map tolower key \<and> \<not> isalnum (char_at s (length key))
      then Some (v, drop (length key) s) else keyword_lookup s table)"

definition pil_symbols :: "(string \<times> u32) list" where
  "pil_symbols = [(''cont'', VBI_PIL_CONTINUE), (''continue'', VBI_PIL_CONTINUE), (''end'', VBI_PIL_END),
     (''inhibit'', VBI_PIL_INHIBIT_TERMINATE), (''int'', VBI_PIL_INTERRUPTION),
     (''interruption'', VBI_PIL_INTERRUPTION), (''nspv'', VBI_PIL_NSPV), (''rit'', VBI_PIL_INHIBIT_TERMINATE),
     (''terminate'', VBI_PIL_INHIBIT_TERMINATE), (''tc'', VBI_PIL_TIMER_CONTROL), (''timer'', VBI_PIL_TIMER_CONTROL)]"

text \<open>The loop over the fields; \<open>vs\<close> are the values of the fields so far.\<close>

function pil_fields :: "nat \<Rightarrow> nat \<Rightarrow> nat \<Rightarrow> string \<Rightarrow> nat list \<Rightarrow> (nat \<times> string \<times> nat list) option" where
  "pil_fields i n_fields sep_mask s vs =
     (if i < n_fields then
        if \<not> isdigit (char_at s 0) then if i = 2 \<and> sep_mask = 0 then Some (2, s, vs) else None
        else if \<not> isdigit (char_at s 1) then None
        else
          let v = (of_char (char_at s 0) - 48) * 10 + of_char (char_at s 1) - 48;
              s' = drop 2 s;
              c = char_at s' 0;
              hour_sep = (i < n_fields - 1 \<and> i = 0 \<and> c = CHR '':'');
              sep = (i < n_fields - 1 \<and> i < 3 \<and> ''-T:'' ! i = c)
          in pil_fields (i + 1) (if hour_sep then 2 else n_fields)
               (if hour_sep then sep_mask OR 4 else if sep then sep_mask OR 2 ^ i else sep_mask)
               (if hour_sep \<or> sep then drop 1 s' else s') (vs @ [v])
      else Some (n_fields, s, vs))"
  by pat_completeness auto
termination by (relation "measure (\<lambda>(i, n_fields, sep_mask, s, vs). n_fields - i)") auto

declare pil_fields.simps [simp del]

definition pil_from_string :: "string \<Rightarrow> (u32 \<times> string) option" where
  "pil_from_string inout_s =
     (let s = dropWhile isspace inout_s in
      if \<not> isdigit (char_at s 0) then keyword_lookup s pil_symbols
      else case pil_fields 0 4 0 s [] of
        None \<Rightarrow> None
      | Some (n_fields, s, vs) \<Rightarrow>
          let v = (if n_fields < 4 then [0, 0, vs ! 0, vs ! 1] else vs) in
          if v ! 0 > 15 \<or> v ! 1 OR v ! 2 > 31 \<or> v ! 3 > 63 then None
          else Some (VBI_PIL (word_of_nat (v ! 0)) (word_of_nat (v ! 1)) (word_of_nat (v ! 2)) (word_of_nat (v ! 3)), s))"

subsection \<open>The C library and the time zone\<close>

datatype pdc_errno = No_error | EOVERFLOW | VBI_ERR_INVALID_PIL | VBI_ERR_NO_TIME

record clib =
  TIME_MIN :: int
  TIME_MAX :: int
  now :: "int option"
  strdup_ok :: bool
  setenv_ok :: "string \<Rightarrow> bool"
  localtime :: "string option \<Rightarrow> int \<Rightarrow> tm option"
  mktime :: "string option \<Rightarrow> tm \<Rightarrow> int"

abbreviation (input) INT_MIN :: int where "INT_MIN \<equiv> - (2 ^ 31)"
abbreviation (input) INT_MAX :: int where "INT_MAX \<equiv> 2 ^ 31 - 1"

definition tm_mon_mday_from_pil :: "tm \<Rightarrow> u32 \<Rightarrow> bool \<times> tm" where
  "tm_mon_mday_from_pil t pil =
     (let month0 = VBI_PIL_MONTH pil - 1;
          set = (\<lambda>t. (True, t\<lparr>tm_mon := sint month0, tm_mday := sint (VBI_PIL_DAY pil)\<rparr>)) in
      if month0 \<ge> word_of_int (tm_mon t) + 6 then
        if tm_year t \<le> INT_MIN then (False, t) else set (t\<lparr>tm_year := tm_year t - 1\<rparr>)
      else if month0 + 6 < word_of_int (tm_mon t) then
        if tm_year t \<ge> INT_MAX then (False, t) else set (t\<lparr>tm_year := tm_year t + 1\<rparr>)
      else set t)"

definition is_leap_year :: "u32 \<Rightarrow> bool" where
  "is_leap_year year =
     (if 0 \<noteq> year mod 4 then False else if 0 = year mod 400 then True else 0 \<noteq> year mod 100)"

definition tm_leap_day_check :: "tm \<Rightarrow> bool" where
  "tm_leap_day_check t \<longleftrightarrow> 1 \<noteq> tm_mon t \<or> tm_mday t \<le> 28 \<or> is_leap_year (word_of_int (tm_year t + 1900))"

text \<open>The functions that change and restore \<^verbatim>\<open>TZ\<close> return the new value of \<^verbatim>\<open>TZ\<close> last.\<close>

definition restore_tz :: "clib \<Rightarrow> string option \<Rightarrow> string option \<Rightarrow> string option \<Rightarrow> bool \<times> string option" where
  "restore_tz lib env old_tz tz =
     (case tz of
        None \<Rightarrow> (True, env)
      | Some _ \<Rightarrow>
          (case old_tz of
             None \<Rightarrow> (True, None)
           | Some s \<Rightarrow> if setenv_ok lib s then (True, Some s) else (False, env)))"

definition change_tz :: "clib \<Rightarrow> string option \<Rightarrow> string \<Rightarrow> bool \<times> string option \<times> string option" where
  "change_tz lib env tz =
     (if env \<noteq> None \<and> \<not> strdup_ok lib then (False, None, env)
      else if \<not> setenv_ok lib tz then (False, None, env)
      else (True, env, Some tz))"

definition localtime_tz ::
  "clib \<Rightarrow> string option \<Rightarrow> int \<Rightarrow> string option \<Rightarrow> (tm \<times> string option) option \<times> string option" where
  "localtime_tz lib env t tz =
     (let (ok, old_tz, env) = (case tz of None \<Rightarrow> (True, None, env) | Some z \<Rightarrow> change_tz lib env z);
          failed = (None, snd (restore_tz lib env old_tz tz)) in
      if \<not> ok then (None, env)
      else
        case (if t = - 1 then now lib else Some t) of
          None \<Rightarrow> failed
        | Some t \<Rightarrow> (case localtime lib env t of None \<Rightarrow> failed | Some tm \<Rightarrow> (Some (tm, old_tz), env)))"

definition vbi_mktime :: "clib \<Rightarrow> string option \<Rightarrow> tm \<Rightarrow> int" where
  "vbi_mktime lib env t =
     (let result = mktime lib env t in
      if result \<le> TIME_MIN lib \<or> result \<ge> TIME_MAX lib then - 1 else result)"

definition vbi_timegm :: "clib \<Rightarrow> tm \<Rightarrow> int" where
  "vbi_timegm lib t =
     (let result = timegm t in
      if - 1 = result then - 1
      else if result \<le> TIME_MIN lib \<or> result \<ge> TIME_MAX lib then - 1 else result)"

subsection \<open>Label to time\<close>

text \<open>The result is the time and the value of \<^verbatim>\<open>errno\<close>.\<close>

definition valid_pil_lto_to_time :: "clib \<Rightarrow> u32 \<Rightarrow> int \<Rightarrow> int \<Rightarrow> int \<times> pdc_errno" where
  "valid_pil_lto_to_time lib pil start seconds_east =
     (case (if start = - 1 then now lib else Some start) of
        None \<Rightarrow> (- 1, VBI_ERR_NO_TIME)
      | Some start \<Rightarrow>
          if (if seconds_east < 0 then start < - seconds_east else start > TIME_MAX lib - seconds_east)
          then (- 1, EOVERFLOW)
          else
            case gmtime (start + seconds_east) of
              None \<Rightarrow> (- 1, EOVERFLOW)
            | Some t \<Rightarrow>
                let (ok, t) = tm_mon_mday_from_pil t pil in
                if \<not> ok then (- 1, EOVERFLOW)
                else if \<not> tm_leap_day_check t then (- 1, VBI_ERR_INVALID_PIL)
                else
                  let t = t\<lparr>tm_hour := sint (VBI_PIL_HOUR pil), tm_min := sint (VBI_PIL_MINUTE pil), tm_sec := 0\<rparr>;
                      start = vbi_timegm lib t in
                  if start = - 1 then (- 1, EOVERFLOW)
                  else if (if seconds_east > 0 then start < seconds_east else start > TIME_MAX lib + seconds_east)
                  then (- 1, EOVERFLOW)
                  else (start - seconds_east, No_error))"

definition vbi_pil_lto_to_time :: "clib \<Rightarrow> u32 \<Rightarrow> int \<Rightarrow> int \<Rightarrow> int" where
  "vbi_pil_lto_to_time lib pil start seconds_east =
     (if \<not> vbi_pil_is_valid_date pil then - 1 else fst (valid_pil_lto_to_time lib pil start seconds_east))"

definition vbi_pil_to_time :: "clib \<Rightarrow> string option \<Rightarrow> u32 \<Rightarrow> int \<Rightarrow> string option \<Rightarrow> int \<times> string option" where
  "vbi_pil_to_time lib env pil start tz =
     (if \<not> vbi_pil_is_valid_date pil then (- 1, env)
      else if tz = Some ''UTC'' then (fst (valid_pil_lto_to_time lib pil start 0), env)
      else
        case localtime_tz lib env start tz of
          (None, env) \<Rightarrow> (- 1, env)
        | (Some (t, old_tz), env) \<Rightarrow>
            let failed = (- 1, snd (restore_tz lib env old_tz tz));
                (ok, t) = tm_mon_mday_from_pil t pil in
            if \<not> ok then failed
            else if \<not> tm_leap_day_check t then failed
            else
              let t = t\<lparr>tm_hour := sint (VBI_PIL_HOUR pil), tm_min := sint (VBI_PIL_MINUTE pil), tm_sec := 0,
                         tm_isdst := - 1\<rparr>;
                  result = vbi_mktime lib env t in
              if result = - 1 then failed
              else let (ok, env) = restore_tz lib env old_tz tz in (if \<not> ok then - 1 else result, env))"

subsection \<open>Validity windows\<close>

definition pty_utc_validity_window :: "clib \<Rightarrow> int \<Rightarrow> (int \<times> int) option" where
  "pty_utc_validity_window lib time =
     (case gmtime time of
        None \<Rightarrow> None
      | Some t \<Rightarrow>
          let seconds_since_midnight = tm_hour t * 3600 + tm_min t * 60 + tm_sec t;
              duration = 4 * 7 * 24 * 60 * 60 + (24 + 4) * 60 * 60 - seconds_since_midnight in
          if time > TIME_MAX lib - duration then None else Some (time, time + duration))"

definition vbi_pty_validity_window ::
  "clib \<Rightarrow> string option \<Rightarrow> int \<Rightarrow> string option \<Rightarrow> (int \<times> int) option \<times> string option" where
  "vbi_pty_validity_window lib env last_transm tz =
     (if tz = Some ''UTC'' then (pty_utc_validity_window lib last_transm, env)
      else
        case localtime_tz lib env last_transm tz of
          (None, env) \<Rightarrow> (None, env)
        | (Some (t, old_tz), env) \<Rightarrow>
            let t = t\<lparr>tm_mday := tm_mday t + (4 * 7 + 1), tm_hour := 4, tm_min := 0, tm_sec := 0, tm_isdst := - 1\<rparr>;
                stop = vbi_mktime lib env t;
                (ok, env) = restore_tz lib env old_tz tz in
            if stop = - 1 then (None, env)
            else if \<not> ok then (None, env)
            else (Some (last_transm, stop), env))"

definition valid_pil_lto_validity_window :: "clib \<Rightarrow> u32 \<Rightarrow> int \<Rightarrow> int \<Rightarrow> (int \<times> int) option" where
  "valid_pil_lto_validity_window lib pil start seconds_east =
     (let (t, errno) = valid_pil_lto_to_time lib (pil AND VBI_PIL 15 31 0 0) start seconds_east in
      if t = - 1 then
        if errno = VBI_ERR_INVALID_PIL then Some (TIME_MIN lib, TIME_MAX lib) else None
      else if t > TIME_MAX lib - 28 * 60 * 60 then None
      else if VBI_PIL_HOUR pil < 4 then
        if t < 4 * 60 * 60 then None else Some (t - 4 * 60 * 60, t + 28 * 60 * 60)
      else Some (t, t + 28 * 60 * 60))"

definition vbi_pil_lto_validity_window :: "clib \<Rightarrow> u32 \<Rightarrow> int \<Rightarrow> int \<Rightarrow> (int \<times> int) option" where
  "vbi_pil_lto_validity_window lib pil start seconds_east =
     (let month = VBI_PIL_MONTH pil in
      if 0 = month then None
      else if month \<le> 12 then
        if VBI_PIL_DAY pil - 1 \<ge> month_days ! unat (month - 1) then Some (TIME_MIN lib, TIME_MAX lib)
        else valid_pil_lto_validity_window lib pil start seconds_east
      else if month \<le> 14 then Some (TIME_MIN lib, TIME_MAX lib)
      else if pil \<in> {VBI_PIL_TIMER_CONTROL, VBI_PIL_INHIBIT_TERMINATE, VBI_PIL_INTERRUPTION, VBI_PIL_CONTINUE}
      then Some (TIME_MIN lib, TIME_MAX lib)
      else if pil = VBI_PIL_NSPV then pty_utc_validity_window lib start
      else None)"

definition valid_pil_validity_window ::
  "clib \<Rightarrow> string option \<Rightarrow> u32 \<Rightarrow> int \<Rightarrow> string option \<Rightarrow> (int \<times> int) option \<times> string option" where
  "valid_pil_validity_window lib env pil start tz =
     (if tz = Some ''UTC'' then (valid_pil_lto_validity_window lib pil start 0, env)
      else
        case localtime_tz lib env start tz of
          (None, env) \<Rightarrow> (None, env)
        | (Some (t, old_tz), env) \<Rightarrow>
            let (restored, env') = restore_tz lib env old_tz tz;
                failed = (None, env');
                (ok, t) = tm_mon_mday_from_pil t pil in
            if \<not> ok then failed
            else if \<not> tm_leap_day_check t then
              if \<not> restored then failed else (Some (TIME_MIN lib, TIME_MAX lib), env')
            else
              let t = t\<lparr>tm_hour := 0, tm_min := 0, tm_sec := 0, tm_isdst := - 1\<rparr>;
                  t2 = t;
                  t = (if VBI_PIL_HOUR pil < 4 then t\<lparr>tm_mday := tm_mday t - 1, tm_hour := 20\<rparr> else t);
                  start = vbi_mktime lib env t in
              if start = - 1 then failed
              else
                let t2 = t2\<lparr>tm_mday := tm_mday t2 + 1, tm_hour := 4\<rparr>;
                    stop = vbi_mktime lib env t2 in
                if stop = - 1 then failed
                else if \<not> restored then failed
                else (Some (start, stop), env'))"

definition vbi_pil_validity_window ::
  "clib \<Rightarrow> string option \<Rightarrow> u32 \<Rightarrow> int \<Rightarrow> string option \<Rightarrow> (int \<times> int) option \<times> string option" where
  "vbi_pil_validity_window lib env pil start tz =
     (let month = VBI_PIL_MONTH pil; indefinite = (Some (TIME_MIN lib, TIME_MAX lib), env) in
      if 0 = month then (None, env)
      else if month \<le> 12 then
        if VBI_PIL_DAY pil - 1 \<ge> month_days ! unat (month - 1) then indefinite
        else valid_pil_validity_window lib env pil start tz
      else if month \<le> 14 then indefinite
      else if pil \<in> {VBI_PIL_TIMER_CONTROL, VBI_PIL_INHIBIT_TERMINATE, VBI_PIL_INTERRUPTION, VBI_PIL_CONTINUE}
      then indefinite
      else if pil = VBI_PIL_NSPV then vbi_pty_validity_window lib env start tz
      else (None, env))"

subsection \<open>Fields of a label\<close>

lemma unat_and_mask: "unat (w AND mask n) = unat w mod 2 ^ n" for w :: u32
  unfolding take_bit_eq_mask [symmetric] unsigned_take_bit_eq by (rule take_bit_eq_mod)

lemma pil_field_less:
  "unat (VBI_PIL_MONTH pil) < 16" "unat (VBI_PIL_DAY pil) < 32" "unat (VBI_PIL_HOUR pil) < 32" "unat (VBI_PIL_MINUTE pil) < 64"
  using unat_and_mask [of "drop_bit 11 pil" 4] unat_and_mask [of "drop_bit 15 pil" 5] unat_and_mask [of "drop_bit 6 pil" 5]
    unat_and_mask [of pil 6]
  by (simp_all add: VBI_PIL_MONTH_def VBI_PIL_DAY_def VBI_PIL_HOUR_def VBI_PIL_MINUTE_def mask_eq_exp_minus_1)

lemma sint_eq_unat: "unat w < 2 ^ 31 \<Longrightarrow> sint w = int (unat w)" for w :: u32
proof -
  assume "unat w < 2 ^ 31"
  then have "int (unat w) < int (2 ^ 31)" by (simp only: of_nat_less_iff)
  then have "uint w < 2 ^ 31" by (simp only: of_nat_unat of_nat_power of_nat_numeral)
  moreover have "0 \<le> uint w" by simp
  ultimately have "signed_take_bit 31 (uint w) = uint w" by (intro signed_take_bit_int_eq_self) linarith+
  then show ?thesis by (simp add: sint_uint)
qed

lemma sint_field [simp]:
  "sint (VBI_PIL_DAY pil) = int (unat (VBI_PIL_DAY pil))" "sint (VBI_PIL_HOUR pil) = int (unat (VBI_PIL_HOUR pil))"
  "sint (VBI_PIL_MINUTE pil) = int (unat (VBI_PIL_MINUTE pil))"
  using pil_field_less [of pil] by (intro sint_eq_unat; simp)+

lemma unat_minus_1: "w \<noteq> 0 \<Longrightarrow> unat (w - 1) = unat w - 1" for w :: u32
proof -
  assume "w \<noteq> 0"
  then obtain k where k: "unat w = Suc k" by (cases "unat w") (auto simp: unat_eq_0)
  have "w = word_of_nat (unat w)" by simp
  then have "w = word_of_nat (Suc k)" unfolding k .
  moreover have "unat w < 2 ^ 32" using unsigned_less [of w] by simp
  ultimately show ?thesis using k by (simp add: unsigned_of_nat take_bit_nat_eq_self)
qed

lemma minus_1_less: "unat (w - 1) < n \<longleftrightarrow> w \<noteq> 0 \<and> unat w \<le> n" if "n < 2 ^ 32 - 1" for w :: u32
proof (cases "w = 0")
  case True
  have "unat (- 1 :: u32) = 2 ^ 32 - 1" by (simp add: unsigned_minus_1_eq_mask mask_eq_exp_minus_1)
  then show ?thesis using that True by simp
next
  case False
  then have "0 < unat w" by (metis gr0I unat_eq_0)
  then show ?thesis using unat_minus_1 [OF False] False by auto
qed

lemma month_days_nth: "k < 12 \<Longrightarrow> unat (month_days ! k) = nat (month_lengths True ! k)"
proof -
  have "list_all (\<lambda>k. unat (month_days ! k) = nat (month_lengths True ! k)) [0..<12]" by code_simp
  then show "k < 12 \<Longrightarrow> unat (month_days ! k) = nat (month_lengths True ! k)" by (simp add: list_all_iff)
qed

lemma month_lengths_le: "k < 12 \<Longrightarrow> 0 < month_lengths l ! k \<and> month_lengths l ! k \<le> 31"
proof -
  have "list_all (\<lambda>k. 0 < month_lengths l ! k \<and> month_lengths l ! k \<le> 31) [0..<12]"
    by (simp add: month_lengths_def upt_rec)
  then show "k < 12 \<Longrightarrow> 0 < month_lengths l ! k \<and> month_lengths l ! k \<le> 31" by (simp add: list_all_iff)
qed

text \<open>The fields of a valid label as numbers.\<close>

lemma valid_date_fields:
  "vbi_pil_is_valid_date pil \<longleftrightarrow>
     1 \<le> unat (VBI_PIL_MONTH pil) \<and> unat (VBI_PIL_MONTH pil) \<le> 12 \<and> 1 \<le> unat (VBI_PIL_DAY pil)
     \<and> int (unat (VBI_PIL_DAY pil)) \<le> month_lengths True ! (unat (VBI_PIL_MONTH pil) - 1)
     \<and> unat (VBI_PIL_HOUR pil) < 24 \<and> unat (VBI_PIL_MINUTE pil) < 60"
proof -
  let ?m = "VBI_PIL_MONTH pil" and ?d = "VBI_PIL_DAY pil"
  have m: "?m - 1 < 12 \<longleftrightarrow> 1 \<le> unat ?m \<and> unat ?m \<le> 12"
    using minus_1_less [of 12 ?m] by (auto simp: word_less_nat_alt unat_eq_0 [symmetric])
  have hm: "VBI_PIL_HOUR pil < 24 \<longleftrightarrow> unat (VBI_PIL_HOUR pil) < 24" "VBI_PIL_MINUTE pil < 60 \<longleftrightarrow> unat (VBI_PIL_MINUTE pil) < 60"
    by (simp_all add: word_less_nat_alt)
  have d: "?d - 1 < month_days ! unat (?m - 1) \<longleftrightarrow> 1 \<le> unat ?d \<and> int (unat ?d) \<le> month_lengths True ! (unat ?m - 1)"
    if "1 \<le> unat ?m" "unat ?m \<le> 12"
  proof -
    have e: "unat (?m - 1) = unat ?m - 1" using that by (intro unat_minus_1) auto
    define n where "n = unat (month_days ! (unat ?m - 1))"
    have k: "unat ?m - 1 < 12" using that by simp
    have n: "int n = month_lengths True ! (unat ?m - 1)" "n \<le> 31"
      unfolding n_def using month_days_nth [OF k] month_lengths_le [OF k, of True] by (simp_all add: nat_le_iff)
    have "?d - 1 < month_days ! unat (?m - 1) \<longleftrightarrow> unat (?d - 1) < n" by (simp add: word_less_nat_alt e n_def)
    also have "\<dots> \<longleftrightarrow> 1 \<le> unat ?d \<and> unat ?d \<le> n"
      using minus_1_less [of n ?d] n(2) by (auto simp: unat_eq_0 [symmetric])
    finally show ?thesis unfolding n(1) [symmetric] of_nat_le_iff .
  qed
  show ?thesis unfolding vbi_pil_is_valid_date_def m hm using d by blast
qed

lemma is_leap_year_leap: "0 \<le> y \<Longrightarrow> y < 2 ^ 32 \<Longrightarrow> is_leap_year (word_of_int y) \<longleftrightarrow> leap y"
proof -
  assume "0 \<le> y" "y < 2 ^ 32"
  then have "uint (word_of_int y :: u32) = y" by (simp add: unsigned_of_int take_bit_int_eq_self)
  then have "word_of_int y mod 4 = (0 :: u32) \<longleftrightarrow> y mod 4 = 0" "word_of_int y mod 400 = (0 :: u32) \<longleftrightarrow> y mod 400 = 0"
    "word_of_int y mod 100 = (0 :: u32) \<longleftrightarrow> y mod 100 = 0"
    by (simp_all add: word_uint_eq_iff uint_mod)
  then show ?thesis by (auto simp: is_leap_year_def leap_def)
qed

text \<open>The year of the label relative to the year of the start time, as a number.\<close>

definition pil_year_offset :: "int \<Rightarrow> int \<Rightarrow> int" where
  "pil_year_offset m0 mon = (if mon + 6 \<le> m0 then - 1 else if m0 + 6 < mon then 1 else 0)"

lemma tm_mon_mday_eq:
  assumes "vbi_pil_is_valid_date pil" "0 \<le> tm_mon t" "tm_mon t < 12"
  defines "m0 \<equiv> int (unat (VBI_PIL_MONTH pil)) - 1"
  defines "d \<equiv> pil_year_offset m0 (tm_mon t)"
  shows "tm_mon_mday_from_pil t pil =
    (if d = - 1 \<and> tm_year t \<le> INT_MIN \<or> d = 1 \<and> tm_year t \<ge> INT_MAX then (False, t)
     else (True, t\<lparr>tm_mon := m0, tm_mday := int (unat (VBI_PIL_DAY pil)), tm_year := tm_year t + d\<rparr>))"
proof -
  let ?m = "VBI_PIL_MONTH pil"
  define n where "n = unat ?m - 1"
  define k where "k = nat (tm_mon t)"
  have k: "tm_mon t = int k" "k < 12" using assms(2,3) by (simp_all add: k_def)
  have m: "1 \<le> unat ?m" "unat ?m \<le> 12" using assms(1) by (simp_all add: valid_date_fields)
  have n: "m0 = int n" unfolding m0_def n_def using m by (simp add: of_nat_diff del: of_nat_unat)
  have "?m \<noteq> 0" using m by auto
  from unat_minus_1 [OF this] have e: "unat (?m - 1) = n" by (simp add: n_def)
  have s: "sint (?m - 1) = int n" using e m by (simp add: sint_eq_unat n_def)
  have u: "unat (word_of_int (int k) + 6 :: u32) = k + 6" "unat (word_of_int (int k) :: u32) = k"
    "unat (?m - 1 + 6) = n + 6"
    using k(2) e m by (simp_all add: unat_word_ariths unsigned_of_nat take_bit_nat_eq_self n_def)
  have c: "word_of_int (tm_mon t) + 6 \<le> ?m - 1 \<longleftrightarrow> k + 6 \<le> n" "?m - 1 + 6 < word_of_int (tm_mon t) \<longleftrightarrow> n + 6 < k"
    using u e by (simp_all add: k word_le_nat_alt word_less_nat_alt)
  have d: "d = (if k + 6 \<le> n then - 1 else if n + 6 < k then 1 else 0)"
    unfolding d_def pil_year_offset_def n k by simp
  have rhs: "tm_mon_mday_from_pil t pil = (if k + 6 \<le> n then
        if tm_year t \<le> INT_MIN then (False, t) else (True, t\<lparr>tm_year := tm_year t - 1, tm_mon := int n, tm_mday := int (unat (VBI_PIL_DAY pil))\<rparr>)
      else if n + 6 < k then
        if tm_year t \<ge> INT_MAX then (False, t) else (True, t\<lparr>tm_year := tm_year t + 1, tm_mon := int n, tm_mday := int (unat (VBI_PIL_DAY pil))\<rparr>)
      else (True, t\<lparr>tm_mon := int n, tm_mday := int (unat (VBI_PIL_DAY pil))\<rparr>))"
    unfolding tm_mon_mday_from_pil_def Let_def c s sint_field ..
  show ?thesis unfolding rhs n d by (cases "k + 6 \<le> n"; cases "n + 6 < k") (simp_all del: of_nat_unat)
qed

lemma pil_year_offset_bounds:
  assumes "0 \<le> m0" "m0 < 12" "0 \<le> mon" "mon < 12"
  shows "- 6 \<le> 12 * pil_year_offset m0 mon + m0 - mon" "12 * pil_year_offset m0 mon + m0 - mon \<le> 5"
    "- 1 \<le> pil_year_offset m0 mon" "pil_year_offset m0 mon \<le> 1"
  using assms by (simp_all add: pil_year_offset_def)

lemma pil_year_offset_unique:
  assumes "0 \<le> m0" "m0 < 12" "0 \<le> mon" "mon < 12" "- 6 \<le> 12 * d + m0 - mon" "12 * d + m0 - mon \<le> 5"
  shows "pil_year_offset m0 mon = d"
  using assms by (simp add: pil_year_offset_def)

lemma tm_mon_mday_spec:
  assumes v: "vbi_pil_is_valid_date pil" "0 \<le> tm_mon t" "tm_mon t < 12" "INT_MIN \<le> tm_year t" "tm_year t \<le> INT_MAX"
    and e: "tm_mon_mday_from_pil t pil = (True, t')"
  shows "\<exists>d. t' = t\<lparr>tm_mon := int (unat (VBI_PIL_MONTH pil)) - 1, tm_mday := int (unat (VBI_PIL_DAY pil)),
        tm_year := tm_year t + d\<rparr>
    \<and> - 6 \<le> 12 * d + (int (unat (VBI_PIL_MONTH pil)) - 1) - tm_mon t
    \<and> 12 * d + (int (unat (VBI_PIL_MONTH pil)) - 1) - tm_mon t \<le> 5
    \<and> - 1 \<le> d \<and> d \<le> 1 \<and> INT_MIN \<le> tm_year t + d \<and> tm_year t + d \<le> INT_MAX"
proof -
  define m0 where "m0 = int (unat (VBI_PIL_MONTH pil)) - 1"
  define d where "d = pil_year_offset m0 (tm_mon t)"
  have m: "0 \<le> m0" "m0 < 12" using v(1) unfolding m0_def valid_date_fields by (simp_all del: of_nat_unat)
  note b = pil_year_offset_bounds [OF m v(2,3), folded d_def]
  from e tm_mon_mday_eq [OF v(1-3)] have "\<not> (d = - 1 \<and> tm_year t \<le> INT_MIN \<or> d = 1 \<and> tm_year t \<ge> INT_MAX)"
    "t' = t\<lparr>tm_mon := m0, tm_mday := int (unat (VBI_PIL_DAY pil)), tm_year := tm_year t + d\<rparr>"
    unfolding m0_def [symmetric] d_def [symmetric] by (auto split: if_splits)
  then show ?thesis unfolding m0_def [symmetric] using b v(4,5) by (intro exI [of _ d]) auto
qed

text \<open>A time that the conversion accepts; \<open>t0\<close> is the local time at \<open>start\<close>.\<close>

lemma valid_pil_lto_spec:
  assumes valid: "vbi_pil_is_valid_date pil" and start: "start \<noteq> - 1" "0 \<le> start + seconds_east"
    and r: "valid_pil_lto_to_time lib pil start seconds_east = (r, e)" "r \<noteq> - 1"
  shows "\<exists>t0 t. gmtime (start + seconds_east) = Some t0 \<and> valid_tm t \<and> timegm t = r + seconds_east
    \<and> tm_mon_mday_from_pil t0 pil = (True, t0\<lparr>tm_mon := tm_mon t, tm_mday := tm_mday t, tm_year := tm_year t\<rparr>)
    \<and> t = \<lparr>tm_sec = 0, tm_min = int (unat (VBI_PIL_MINUTE pil)), tm_hour = int (unat (VBI_PIL_HOUR pil)),
           tm_mday = int (unat (VBI_PIL_DAY pil)), tm_mon = int (unat (VBI_PIL_MONTH pil)) - 1, tm_year = tm_year t,
           tm_isdst = 0\<rparr>
    \<and> - 6 \<le> 12 * tm_year t + tm_mon t - (12 * tm_year t0 + tm_mon t0)
    \<and> 12 * tm_year t + tm_mon t - (12 * tm_year t0 + tm_mon t0) \<le> 5"
proof -
  note F = valid [unfolded valid_date_fields]
  obtain t0 where t0: "gmtime (start + seconds_east) = Some t0"
    using r unfolding valid_pil_lto_to_time_def by (cases "gmtime (start + seconds_east)") (auto simp: start split: if_splits)
  from timegm_gmtime [OF t0] have T0: "timegm t0 = start + seconds_east" "valid_tm t0" by simp_all
  obtain ok t1 where t1: "tm_mon_mday_from_pil t0 pil = (ok, t1)" by (rule prod.exhaust)
  define t where "t = t1\<lparr>tm_hour := sint (VBI_PIL_HOUR pil), tm_min := sint (VBI_PIL_MINUTE pil), tm_sec := 0\<rparr>"
  have c: "ok" "tm_leap_day_check t1" and g: "vbi_timegm lib t \<noteq> - 1" "r = vbi_timegm lib t - seconds_east"
    using r start(1) unfolding valid_pil_lto_to_time_def
    by (auto simp: t0 t1 Let_def t_def [symmetric] simp del: sint_field split: if_splits)
  have tg: "timegm t = r + seconds_east" using g by (auto simp: vbi_timegm_def Let_def split: if_splits)
  note v0 = T0(2) [unfolded valid_tm_def]
  from tm_mon_mday_spec [OF valid, of t0 t1] v0 t1 c(1) obtain d where
    d: "t1 = t0\<lparr>tm_mon := int (unat (VBI_PIL_MONTH pil)) - 1, tm_mday := int (unat (VBI_PIL_DAY pil)), tm_year := tm_year t0 + d\<rparr>"
    and db: "- 6 \<le> 12 * d + (int (unat (VBI_PIL_MONTH pil)) - 1) - tm_mon t0"
      "12 * d + (int (unat (VBI_PIL_MONTH pil)) - 1) - tm_mon t0 \<le> 5"
      "- 1 \<le> d" "d \<le> 1" "INT_MIN \<le> tm_year t0 + d" "tm_year t0 + d \<le> INT_MAX" by auto
  have y0: "1970 \<le> tm_year t0 + 1900" by (rule gmtime_year_1970 [OF t0 start(2)])
  have te: "t = \<lparr>tm_sec = 0, tm_min = int (unat (VBI_PIL_MINUTE pil)), tm_hour = int (unat (VBI_PIL_HOUR pil)),
      tm_mday = int (unat (VBI_PIL_DAY pil)), tm_mon = int (unat (VBI_PIL_MONTH pil)) - 1, tm_year = tm_year t0 + d, tm_isdst = 0\<rparr>"
    unfolding t_def d sint_field using v0 by (cases t0) simp
  have "is_leap_year (word_of_int (tm_year t1 + 1900)) \<longleftrightarrow> leap (tm_year t1 + 1900)"
    using y0 db v0 by (intro is_leap_year_leap) (simp_all add: d)
  then have "valid_tm t"
    using c(2) F db(5,6) month_day_leap [of "unat (VBI_PIL_MONTH pil) - 1" "int (unat (VBI_PIL_DAY pil))"]
    unfolding valid_tm_def te by (auto simp: tm_leap_day_check_def d nat_diff_distrib simp del: of_nat_unat)
  then show ?thesis
    using t0 tg te t1 c(1) db by (intro exI [of _ t0] exI [of _ t]) (auto simp: d)
qed

text \<open>A label made of fields within their range has these fields.\<close>

lemma u32_and_mask: "unat w < 2 ^ n \<Longrightarrow> w AND mask n = w" for w :: u32
  by (rule word_unat_eq_iff [THEN iffD2]) (simp add: unat_and_mask)

lemma VBI_PIL_masked:
  defines "pil m d h i \<equiv> VBI_PIL (m AND 15) (d AND 31) (h AND 31) (i AND 63)"
  shows "VBI_PIL_MONTH (pil m d h i) = m AND 15" "VBI_PIL_DAY (pil m d h i) = d AND 31"
    "VBI_PIL_HOUR (pil m d h i) = h AND 31" "VBI_PIL_MINUTE (pil m d h i) = i AND 63"
  unfolding pil_def VBI_PIL_def VBI_PIL_MONTH_def VBI_PIL_DAY_def VBI_PIL_HOUR_def VBI_PIL_MINUTE_def
  by (simp_all add: u32_eq_bits all_lt_32 bit_simps del: push_bit_Suc)

lemma VBI_PIL_fields:
  assumes "unat m < 16" "unat d < 32" "unat h < 32" "unat i < 64"
  shows "VBI_PIL_MONTH (VBI_PIL m d h i) = m" "VBI_PIL_DAY (VBI_PIL m d h i) = d"
    "VBI_PIL_HOUR (VBI_PIL m d h i) = h" "VBI_PIL_MINUTE (VBI_PIL m d h i) = i"
proof -
  have e: "m AND 15 = m" "d AND 31 = d" "h AND 31 = h" "i AND 63 = i"
    using u32_and_mask [of m 4] u32_and_mask [of d 5] u32_and_mask [of h 5] u32_and_mask [of i 6] assms
    by (simp_all add: mask_eq_exp_minus_1)
  from VBI_PIL_masked [of m d h i, unfolded e]
  show "VBI_PIL_MONTH (VBI_PIL m d h i) = m" "VBI_PIL_DAY (VBI_PIL m d h i) = d"
    "VBI_PIL_HOUR (VBI_PIL m d h i) = h" "VBI_PIL_MINUTE (VBI_PIL m d h i) = i" .
qed

lemma VBI_PIL_date_only:
  "VBI_PIL_MONTH (pil AND VBI_PIL 15 31 0 0) = VBI_PIL_MONTH pil" "VBI_PIL_DAY (pil AND VBI_PIL 15 31 0 0) = VBI_PIL_DAY pil"
  "VBI_PIL_HOUR (pil AND VBI_PIL 15 31 0 0) = 0" "VBI_PIL_MINUTE (pil AND VBI_PIL 15 31 0 0) = 0"
  unfolding VBI_PIL_def VBI_PIL_MONTH_def VBI_PIL_DAY_def VBI_PIL_HOUR_def VBI_PIL_MINUTE_def
  by (simp_all add: u32_eq_bits all_lt_32 bit_simps del: push_bit_Suc)

text \<open>The label of a local time.\<close>

definition pil_of_tm :: "tm \<Rightarrow> u32" where
  "pil_of_tm t = VBI_PIL (word_of_int (tm_mon t + 1)) (word_of_int (tm_mday t)) (word_of_int (tm_hour t)) (word_of_int (tm_min t))"

lemma unat_word_of_int32: "0 \<le> i \<Longrightarrow> i < 2 ^ 31 \<Longrightarrow> int (unat (word_of_int i :: u32)) = i"
  by (simp add: unsigned_of_int take_bit_int_eq_self)

lemma pil_of_tm_fields:
  assumes "valid_tm t"
  shows "int (unat (VBI_PIL_MONTH (pil_of_tm t))) = tm_mon t + 1" "int (unat (VBI_PIL_DAY (pil_of_tm t))) = tm_mday t"
    "int (unat (VBI_PIL_HOUR (pil_of_tm t))) = tm_hour t" "int (unat (VBI_PIL_MINUTE (pil_of_tm t))) = tm_min t"
    "vbi_pil_is_valid_date (pil_of_tm t)"
proof -
  note v = assms [unfolded valid_tm_def]
  define k where "k = nat (tm_mon t)"
  have k: "tm_mon t = int k" "k < 12" using v by (auto simp: k_def nat_less_iff)
  have d: "tm_mday t \<le> month_lengths (leap (tm_year t + 1900)) ! k" "tm_mday t \<le> 31"
    using v month_lengths_le [OF k(2), of "leap (tm_year t + 1900)"] by (simp_all add: k_def)
  have u: "int (unat (word_of_int (tm_mon t + 1) :: u32)) = tm_mon t + 1" "int (unat (word_of_int (tm_mday t) :: u32)) = tm_mday t"
    "int (unat (word_of_int (tm_hour t) :: u32)) = tm_hour t" "int (unat (word_of_int (tm_min t) :: u32)) = tm_min t"
    using v d by (intro unat_word_of_int32; simp)+
  have b: "unat (word_of_int (tm_mon t + 1) :: u32) < 16" "unat (word_of_int (tm_mday t) :: u32) < 32"
    "unat (word_of_int (tm_hour t) :: u32) < 32" "unat (word_of_int (tm_min t) :: u32) < 64"
    using v d u by linarith+
  show f: "int (unat (VBI_PIL_MONTH (pil_of_tm t))) = tm_mon t + 1" "int (unat (VBI_PIL_DAY (pil_of_tm t))) = tm_mday t"
    "int (unat (VBI_PIL_HOUR (pil_of_tm t))) = tm_hour t" "int (unat (VBI_PIL_MINUTE (pil_of_tm t))) = tm_min t"
    unfolding pil_of_tm_def VBI_PIL_fields [OF b] by (fact u)+
  have "month_lengths (leap (tm_year t + 1900)) ! k \<le> month_lengths True ! k"
  proof -
    have "list_all (\<lambda>k. month_lengths False ! k \<le> month_lengths True ! k) [0..<12]" by code_simp
    then show ?thesis using k(2) by (cases "leap (tm_year t + 1900)") (simp_all add: list_all_iff)
  qed
  moreover have "unat (VBI_PIL_MONTH (pil_of_tm t)) = k + 1" using f(1) k by linarith
  ultimately show "vbi_pil_is_valid_date (pil_of_tm t)"
    unfolding valid_date_fields using f d v k(2) by (simp del: of_nat_unat)
qed

lemma vbi_pil_lto_to_timeD:
  "vbi_pil_lto_to_time lib pil start seconds_east = r \<Longrightarrow> r \<noteq> - 1 \<Longrightarrow>
     vbi_pil_is_valid_date pil \<and> (\<exists>e. valid_pil_lto_to_time lib pil start seconds_east = (r, e))"
  by (cases "valid_pil_lto_to_time lib pil start seconds_east") (auto simp: vbi_pil_lto_to_time_def split: if_splits)

lemma timegm_time_of_day:
  "timegm \<lparr>tm_sec = 0, tm_min = i, tm_hour = h, tm_mday = d, tm_mon = m, tm_year = y, tm_isdst = 0\<rparr> =
     timegm \<lparr>tm_sec = 0, tm_min = 0, tm_hour = 0, tm_mday = d, tm_mon = m, tm_year = y, tm_isdst = 0\<rparr> + h * 3600 + i * 60"
  "timegm \<lparr>tm_sec = 0, tm_min = 0, tm_hour = 0, tm_mday = d, tm_mon = m, tm_year = y, tm_isdst = 0\<rparr> mod 86400 = 0"
  by (simp_all add: timegm_def Let_def)

text \<open>The label and its date at 00:00 convert to the same day.\<close>

lemma midnight_of_pil:
  assumes v: "vbi_pil_is_valid_date pil" and start: "start \<noteq> - 1" "0 \<le> start + seconds_east"
    and r: "valid_pil_lto_to_time lib pil start seconds_east = (r, e)" "r \<noteq> - 1"
    and q: "valid_pil_lto_to_time lib (pil AND VBI_PIL 15 31 0 0) start seconds_east = (q, e')"
  shows "e' \<noteq> VBI_ERR_INVALID_PIL"
    "q \<noteq> - 1 \<Longrightarrow> (q + seconds_east) mod 86400 = 0
       \<and> r = q + int (unat (VBI_PIL_HOUR pil)) * 3600 + int (unat (VBI_PIL_MINUTE pil)) * 60"
proof -
  let ?q = "pil AND VBI_PIL 15 31 0 0"
  note F = v [unfolded valid_date_fields]
  from valid_pil_lto_spec [OF v start r] obtain t0 t where
    t0: "gmtime (start + seconds_east) = Some t0" and t: "timegm t = r + seconds_east"
    and m: "tm_mon_mday_from_pil t0 pil = (True, t0\<lparr>tm_mon := tm_mon t, tm_mday := tm_mday t, tm_year := tm_year t\<rparr>)"
    and te: "t = \<lparr>tm_sec = 0, tm_min = int (unat (VBI_PIL_MINUTE pil)), tm_hour = int (unat (VBI_PIL_HOUR pil)),
       tm_mday = int (unat (VBI_PIL_DAY pil)), tm_mon = int (unat (VBI_PIL_MONTH pil)) - 1, tm_year = tm_year t,
       tm_isdst = 0\<rparr>" by blast
  have mq: "tm_mon_mday_from_pil t0 ?q = tm_mon_mday_from_pil t0 pil"
    by (simp add: tm_mon_mday_from_pil_def VBI_PIL_date_only)
  show "e' \<noteq> VBI_ERR_INVALID_PIL"
    using q r unfolding valid_pil_lto_to_time_def by (auto simp: mq Let_def start t0 m split: if_splits)
  assume q1: "q \<noteq> - 1"
  have "vbi_pil_is_valid_date ?q" using F by (simp add: valid_date_fields VBI_PIL_date_only del: of_nat_unat)
  from valid_pil_lto_spec [OF this start q q1, unfolded VBI_PIL_date_only mq] obtain u where
    u: "timegm u = q + seconds_east"
    and mu: "tm_mon_mday_from_pil t0 pil = (True, t0\<lparr>tm_mon := tm_mon u, tm_mday := tm_mday u, tm_year := tm_year u\<rparr>)"
    and ue: "u = \<lparr>tm_sec = 0, tm_min = int (unat (0 :: u32)), tm_hour = int (unat (0 :: u32)),
       tm_mday = int (unat (VBI_PIL_DAY pil)), tm_mon = int (unat (VBI_PIL_MONTH pil)) - 1, tm_year = tm_year u,
       tm_isdst = 0\<rparr>" using t0 by (auto simp: mq)
  define y where "y = tm_year t"
  have y: "tm_year u = y" using m mu by (auto simp: y_def dest: arg_cong [of _ _ tm_year])
  have z: "int (unat (0 :: u32)) = 0" by simp
  define D where "D = timegm \<lparr>tm_sec = 0, tm_min = 0, tm_hour = 0, tm_mday = int (unat (VBI_PIL_DAY pil)),
    tm_mon = int (unat (VBI_PIL_MONTH pil)) - 1, tm_year = y, tm_isdst = 0\<rparr>"
  have "timegm u = D" unfolding D_def by (rule arg_cong [OF ue [unfolded z y]])
  moreover have "timegm t = D + int (unat (VBI_PIL_HOUR pil)) * 3600 + int (unat (VBI_PIL_MINUTE pil)) * 60"
    unfolding D_def timegm_time_of_day(1) [symmetric] by (rule arg_cong [OF te [folded y_def]])
  moreover have "D mod 86400 = 0" unfolding D_def by (rule timegm_time_of_day(2))
  ultimately show "(q + seconds_east) mod 86400 = 0
      \<and> r = q + int (unat (VBI_PIL_HOUR pil)) * 3600 + int (unat (VBI_PIL_MINUTE pil)) * 60"
    using t u by (simp del: of_nat_unat)
qed

text \<open>A library for the time zone UTC, for concrete inputs.\<close>

definition utc_lib :: clib where
  "utc_lib = \<lparr>TIME_MIN = - (2 ^ 63), TIME_MAX = 2 ^ 63 - 1, now = Some 1000000000, strdup_ok = True,
     setenv_ok = (\<lambda>_. True), localtime = (\<lambda>_ t. gmtime t), mktime = (\<lambda>_ t. timegm t)\<rparr>"

subsection \<open>The environment\<close>

lemma localtime_tz_env:
  assumes "\<forall>s. env = Some s \<longrightarrow> setenv_ok lib s" "localtime_tz lib env t tz = (res, env')"
  shows "res = None \<Longrightarrow> env' = env" "res = Some (x, old) \<Longrightarrow> restore_tz lib env' old tz = (True, env)"
  using assms unfolding localtime_tz_def change_tz_def restore_tz_def
  by (auto simp: Let_def split: option.splits if_splits)

text \<open>The number written with two digits.\<close>

definition two_digits :: "nat \<Rightarrow> string" where
  "two_digits n = [char_of (48 + n div 10), char_of (48 + n mod 10)]"

lemma two_digits_at:
  assumes "n < 100"
  shows "isdigit (char_at (two_digits n @ s) 0)" "isdigit (char_at (two_digits n @ s) 1)"
    "(of_char (char_at (two_digits n @ s) 0) - 48) * 10 + of_char (char_at (two_digits n @ s) 1) - 48 = n"
proof -
  have a: "n div 10 < 10" "n mod 10 < 10" using assms by simp_all
  have c: "char_at (two_digits n @ s) 0 = char_of (48 + n div 10)" "char_at (two_digits n @ s) 1 = char_of (48 + n mod 10)"
    by (simp_all add: char_at_def two_digits_def)
  have o: "of_char (char_of (48 + n div 10) :: char) = 48 + n div 10" "of_char (char_of (48 + n mod 10) :: char) = 48 + n mod 10"
    using a by simp_all
  show "isdigit (char_at (two_digits n @ s) 0)" "isdigit (char_at (two_digits n @ s) 1)"
    unfolding isdigit_def c o using a by simp_all
  show "(of_char (char_at (two_digits n @ s) 0) - 48) * 10 + of_char (char_at (two_digits n @ s) 1) - 48 = n"
    unfolding c o by simp
qed

lemma drop_two_digits: "drop 2 (two_digits n @ s) = s"
  by (simp add: two_digits_def)

text \<open>One field, followed by its separator or not.\<close>

lemma pil_fields_step:
  assumes "n < 100" "i < 4"
  shows "pil_fields i 4 sep_mask (two_digits n @ s) vs =
    (if i = 0 \<and> char_at s 0 = CHR '':'' then pil_fields (i + 1) 2 (sep_mask OR 4) (drop 1 s) (vs @ [n])
     else if i < 3 \<and> ''-T:'' ! i = char_at s 0 then pil_fields (i + 1) 4 (sep_mask OR 2 ^ i) (drop 1 s) (vs @ [n])
     else pil_fields (i + 1) 4 sep_mask s (vs @ [n]))"
proof -
  note d = two_digits_at [OF assms(1), of s]
  have dd: "\<not> \<not> isdigit (char_at (two_digits n @ s) 0)" "\<not> \<not> isdigit (char_at (two_digits n @ s) 1)" using d by blast+
  have j: "i < 4 - 1 \<longleftrightarrow> i < 3" by simp
  note unf = pil_fields.simps [of i 4] if_P [OF assms(2)] if_not_P [OF dd(1)] if_not_P [OF dd(2)] Let_def d(3) drop_two_digits j
  show ?thesis
  proof (cases "i = 0 \<and> char_at s 0 = CHR '':''")
    case False
    then have "\<not> (i < 3 \<and> i = 0 \<and> char_at s 0 = CHR '':'')" by blast
    then show ?thesis using False unfolding unf by (simp only: if_False simp_thms) auto
  next
    case True
    then have "i < 3 \<and> i = 0 \<and> char_at s 0 = CHR '':''" by simp
    then show ?thesis using True unfolding unf by (simp only: if_True simp_thms)
  qed
qed

lemma char_at_two_digits:
  assumes "n < 100"
  shows "char_at (two_digits n @ s) 0 \<noteq> CHR '':''" "CHR '':'' \<noteq> char_at (two_digits n @ s) 0"
    "CHR ''-'' \<noteq> char_at (two_digits n @ s) 0" "CHR ''T'' \<noteq> char_at (two_digits n @ s) 0"
proof -
  have "\<not> isdigit (CHR '':'')" "\<not> isdigit (CHR ''-'')" "\<not> isdigit (CHR ''T'')" by (simp_all add: isdigit_def)
  then show "char_at (two_digits n @ s) 0 \<noteq> CHR '':''" "CHR '':'' \<noteq> char_at (two_digits n @ s) 0"
    "CHR ''-'' \<noteq> char_at (two_digits n @ s) 0" "CHR ''T'' \<noteq> char_at (two_digits n @ s) 0"
    using two_digits_at(1) [OF assms, of s] by metis+
qed

lemma pil_fields_end: "pil_fields (Suc (Suc (Suc (Suc 0)))) 4 sep_mask s vs = Some (4, s, vs)"
  by (simp add: pil_fields.simps)

subsection \<open>Properties\<close>

text \<open>C29: what \<open>vbi_pil_lto_to_time\<close> returns. When it does not fail, the local time (\<open>seconds_east\<close> of UTC) of the result
  has exactly the month, day, hour and minute of the label, the seconds are zero, and its month lies between six months
  before and five months after the month of the start time, which determines the year.\<close>

theorem pil_lto_to_time_local:
  assumes "start \<noteq> - 1" "0 \<le> start + seconds_east"
    and r: "vbi_pil_lto_to_time lib pil start seconds_east = r" "r \<noteq> - 1"
  shows "\<exists>t0 t. gmtime (start + seconds_east) = Some t0 \<and> gmtime (r + seconds_east) = Some t
    \<and> tm_mon t + 1 = int (unat (VBI_PIL_MONTH pil)) \<and> tm_mday t = int (unat (VBI_PIL_DAY pil))
    \<and> tm_hour t = int (unat (VBI_PIL_HOUR pil)) \<and> tm_min t = int (unat (VBI_PIL_MINUTE pil)) \<and> tm_sec t = 0
    \<and> - 6 \<le> 12 * tm_year t + tm_mon t - (12 * tm_year t0 + tm_mon t0)
    \<and> 12 * tm_year t + tm_mon t - (12 * tm_year t0 + tm_mon t0) \<le> 5"
proof -
  from vbi_pil_lto_to_timeD [OF r] obtain e where v: "vbi_pil_is_valid_date pil"
    and e: "valid_pil_lto_to_time lib pil start seconds_east = (r, e)" by blast
  from valid_pil_lto_spec [OF v assms(1,2) e r(2)] obtain t0 t where
    t0: "gmtime (start + seconds_east) = Some t0" and t: "valid_tm t" "timegm t = r + seconds_east"
    and te: "t = \<lparr>tm_sec = 0, tm_min = int (unat (VBI_PIL_MINUTE pil)), tm_hour = int (unat (VBI_PIL_HOUR pil)),
       tm_mday = int (unat (VBI_PIL_DAY pil)), tm_mon = int (unat (VBI_PIL_MONTH pil)) - 1, tm_year = tm_year t,
       tm_isdst = 0\<rparr>"
    and b: "- 6 \<le> 12 * tm_year t + tm_mon t - (12 * tm_year t0 + tm_mon t0)"
      "12 * tm_year t + tm_mon t - (12 * tm_year t0 + tm_mon t0) \<le> 5" by blast
  have f: "tm_mon t + 1 = int (unat (VBI_PIL_MONTH pil))" "tm_mday t = int (unat (VBI_PIL_DAY pil))"
    "tm_hour t = int (unat (VBI_PIL_HOUR pil))" "tm_min t = int (unat (VBI_PIL_MINUTE pil))" "tm_sec t = 0"
    by (subst te, simp)+
  show ?thesis using t0 gmtime_timegm [OF t(1), unfolded t(2)] f b by blast
qed

theorem pil_lto_to_time_local_witness:
  "vbi_pil_lto_to_time utc_lib (VBI_PIL 2 29 21 15) 1700000000 3600 = 1709237700 \<and>
   (\<exists>t0 t. gmtime (1700000000 + 3600) = Some t0 \<and> gmtime (1709237700 + 3600) = Some t
    \<and> tm_mon t + 1 = int (unat (VBI_PIL_MONTH (VBI_PIL 2 29 21 15))) \<and> tm_mday t = int (unat (VBI_PIL_DAY (VBI_PIL 2 29 21 15)))
    \<and> tm_hour t = int (unat (VBI_PIL_HOUR (VBI_PIL 2 29 21 15))) \<and> tm_min t = int (unat (VBI_PIL_MINUTE (VBI_PIL 2 29 21 15)))
    \<and> tm_sec t = 0
    \<and> - 6 \<le> 12 * tm_year t + tm_mon t - (12 * tm_year t0 + tm_mon t0)
    \<and> 12 * tm_year t + tm_mon t - (12 * tm_year t0 + tm_mon t0) \<le> 5)"
proof -
  have "vbi_pil_lto_to_time utc_lib (VBI_PIL 2 29 21 15) 1700000000 3600 = 1709237700" by code_simp
  from this pil_lto_to_time_local [OF _ _ this] show ?thesis by simp
qed

text \<open>C30: every local time without seconds is found again from its label: the label made of month, day, hour and minute
  of a time converts back to exactly this time when the start time is at most six months later and five months earlier,
  and the times are positive and within the range of \<^verbatim>\<open>time_t\<close>.\<close>

theorem pil_lto_to_time_roundtrip:
  assumes t: "valid_tm t" "tm_sec t = 0" and start: "start \<noteq> - 1" "0 \<le> start + seconds_east"
    "gmtime (start + seconds_east) = Some t0"
    and b: "- 6 \<le> 12 * tm_year t + tm_mon t - (12 * tm_year t0 + tm_mon t0)"
      "12 * tm_year t + tm_mon t - (12 * tm_year t0 + tm_mon t0) \<le> 5"
    and range: "0 \<le> timegm t" "0 \<le> timegm t - seconds_east" "timegm t - seconds_east \<le> TIME_MAX lib"
      "start + seconds_east \<le> TIME_MAX lib" "TIME_MIN lib < timegm t" "timegm t < TIME_MAX lib"
  shows "vbi_pil_lto_to_time lib (pil_of_tm t) start seconds_east = timegm t - seconds_east"
proof -
  note v = t(1) [unfolded valid_tm_def]
  note f = pil_of_tm_fields [OF t(1)]
  from timegm_gmtime [OF start(3)] have v0: "valid_tm t0" by simp
  note v0 = v0 [unfolded valid_tm_def]
  define d where "d = pil_year_offset (tm_mon t) (tm_mon t0)"
  have d: "d = tm_year t - tm_year t0" unfolding d_def using b v v0 by (intro pil_year_offset_unique) auto
  have m: "int (unat (VBI_PIL_MONTH (pil_of_tm t))) - 1 = tm_mon t" using f(1) by linarith
  have b1: "- 1 \<le> d" "d \<le> 1" unfolding d_def using v v0 by (auto simp: pil_year_offset_def)
  have c: "tm_mon_mday_from_pil t0 (pil_of_tm t) =
      (True, t0\<lparr>tm_mon := tm_mon t, tm_mday := tm_mday t, tm_year := tm_year t\<rparr>)"
    using tm_mon_mday_eq [OF f(5), of t0] v0 v d b1 unfolding m f(2) d_def [symmetric] by auto
  have e: "t0\<lparr>tm_mon := tm_mon t, tm_mday := tm_mday t, tm_year := tm_year t, tm_hour := tm_hour t, tm_min := tm_min t,
      tm_sec := 0\<rparr> = t" using t(2) v v0 by (cases t0; cases t) simp
  have y0: "1970 \<le> tm_year t0 + 1900" by (rule gmtime_year_1970 [OF start(3,2)])
  have "is_leap_year (word_of_int (tm_year t + 1900)) \<longleftrightarrow> leap (tm_year t + 1900)"
    using y0 d b1 v by (intro is_leap_year_leap) simp_all
  then have l: "tm_leap_day_check (t0\<lparr>tm_mon := tm_mon t, tm_mday := tm_mday t, tm_year := tm_year t\<rparr>)"
    using v unfolding tm_leap_day_check_def by (cases "tm_mon t = 1") (auto simp: month_lengths_def split: if_splits)
  have n: "timegm t \<noteq> - 1" "start + seconds_east \<noteq> - 1" using range(1) start(2) by auto
  show ?thesis
    unfolding vbi_pil_lto_to_time_def valid_pil_lto_to_time_def using f(5) start range n
    by (simp add: c l f(3,4) e vbi_timegm_def Let_def del: of_nat_unat)
qed

theorem pil_lto_to_time_roundtrip_witness:
  "vbi_pil_lto_to_time utc_lib (pil_of_tm (clear_tm\<lparr>tm_min := 15, tm_hour := 21, tm_mday := 29, tm_mon := 1, tm_year := 124\<rparr>))
     1700000000 3600 = timegm (clear_tm\<lparr>tm_min := 15, tm_hour := 21, tm_mday := 29, tm_mon := 1, tm_year := 124\<rparr>) - 3600"
proof -
  let ?t = "clear_tm\<lparr>tm_min := 15, tm_hour := 21, tm_mday := 29, tm_mon := 1, tm_year := 124\<rparr>"
  let ?s = "\<lparr>tm_sec = 20, tm_min = 13, tm_hour = 23, tm_mday = 14, tm_mon = 10, tm_year = 123, tm_isdst = 0\<rparr>"
  have v: "valid_tm ?t" "tm_sec ?t = 0" "timegm ?t = 1709241300" by code_simp+
  have g: "gmtime (1700000000 + 3600) = Some ?s" by code_simp
  have m: "12 * tm_year ?t + tm_mon ?t - (12 * tm_year ?s + tm_mon ?s) = 3" by code_simp
  show ?thesis
    by (rule pil_lto_to_time_roundtrip [OF v(1,2) _ _ g]; (simp only: m v(3))?; simp add: utc_lib_def)
qed





text \<open>C33: a label written as \<^verbatim>\<open>MM-DDThh:mm\<close>, or without any separator, is parsed back, and the parser stops after it.\<close>

theorem pil_from_string_roundtrip:
  assumes "m < 16" "d < 32" "h < 32" "i < 64"
  defines "pil \<equiv> VBI_PIL (word_of_nat m) (word_of_nat d) (word_of_nat h) (word_of_nat i)"
  shows "pil_from_string (two_digits m @ ''-'' @ two_digits d @ ''T'' @ two_digits h @ '':'' @ two_digits i @ s) = Some (pil, s)
    \<and> pil_from_string (two_digits m @ two_digits d @ two_digits h @ two_digits i @ s) = Some (pil, s)"
proof -
  have n: "m < 100" "d < 100" "h < 100" "i < 100" using assms(1-4) by simp_all
  have o: "\<not> d OR h > 31"
  proof -
    have "d = take_bit 5 d" "h = take_bit 5 h" using assms(2,3) by (simp_all add: take_bit_nat_eq_self)
    then have "d OR h = take_bit 5 (d OR h)" by (metis take_bit_or)
    then have "d OR h < 2 ^ 5" by (metis take_bit_nat_less_exp)
    then show ?thesis by simp
  qed
  have ws: "dropWhile isspace (two_digits m @ s) = two_digits m @ s" for s
  proof -
    have "isdigit (char_of (48 + m div 10))" using two_digits_at(1) [OF n(1), of s] by (simp add: two_digits_def char_at_def)
    then have "\<not> isspace (char_of (48 + m div 10))" by (auto simp: isdigit_def isspace_def)
    then show ?thesis by (simp add: two_digits_def)
  qed
  have start: "pil_from_string (two_digits m @ t) = Some (pil, s)"
    if f: "pil_fields 0 4 0 (two_digits m @ t) [] = Some (4, s, [m, d, h, i])" for t
    using assms(1-4) o two_digits_at(1) [OF n(1)] unfolding pil_from_string_def ws Let_def f pil_def by simp
  have "pil_fields 0 4 0 (two_digits m @ ''-'' @ two_digits d @ ''T'' @ two_digits h @ '':'' @ two_digits i @ s) [] = Some (4, s, [m, d, h, i])"
    using n by (simp add: pil_fields_step char_at_def pil_fields_end)
  moreover have "pil_fields 0 4 0 (two_digits m @ two_digits d @ two_digits h @ two_digits i @ s) [] = Some (4, s, [m, d, h, i])"
    using n by (simp add: pil_fields_step pil_fields_end char_at_two_digits)
  ultimately show ?thesis by (intro conjI start) 
qed

theorem pil_from_string_roundtrip_witness:
  "pil_from_string (two_digits 12 @ ''-'' @ two_digits 31 @ ''T'' @ two_digits 23 @ '':'' @ two_digits 5 @ '' x'')
     = Some (VBI_PIL (word_of_nat 12) (word_of_nat 31) (word_of_nat 23) (word_of_nat 5), '' x'')"
  using pil_from_string_roundtrip [of 12 31 23 5 "'' x''"] by simp

end
