(* ===== verification/Dvb_Units.thy ===== *)
theory Dvb_Units
  imports Sliced Hamm
begin

text \<open>Data units of DVB VBI streams, the first half of dvb_mux.c: conversion of sliced and raw VBI lines to the
  data units of a PES packet, and the stuffing of the rest of the packet. The bytes stored so far are a list
  \<open>packet\<close>, of which only the length byte of the last data unit is changed later; \<open>p_left\<close> is the room that is
  left. Counts of bytes and samples are natural numbers below \<open>2\<^sup>3\<^sup>2\<close>, line numbers and service numbers are 32 bit
  words. \<^const>\<open>None\<close> as a result is a failed assertion.\<close>

unbundle bit_operations_syntax

datatype mux_error =
    VBI_ERR_BUFFER_OVERFLOW
  | VBI_ERR_RAW_BUFFER_OVERFLOW
  | VBI_ERR_LINE_NUMBER
  | VBI_ERR_LINE_ORDER
  | VBI_ERR_INVALID_SERVICE
  | VBI_ERR_SAMPLE_NUMBER
  | VBI_ERR_AMBIGUOUS_VIDEOSTD
  | VBI_ERR_RAW_DATA_INTERRUPTION
  | VBI_ERR_NO_RAW_DATA
  | VBI_ERR_NO_SLICED_DATA
  | VBI_ERR_SAMPLING_PAR

abbreviation (input) DATA_UNIT_EBU_TELETEXT_NON_SUBTITLE :: u8 where "DATA_UNIT_EBU_TELETEXT_NON_SUBTITLE \<equiv> 0x02"
abbreviation (input) DATA_UNIT_EBU_TELETEXT_SUBTITLE :: u8 where "DATA_UNIT_EBU_TELETEXT_SUBTITLE \<equiv> 0x03"
abbreviation (input) DATA_UNIT_ZVBI_WSS_CPR1204 :: u8 where "DATA_UNIT_ZVBI_WSS_CPR1204 \<equiv> 0xB4"
abbreviation (input) DATA_UNIT_ZVBI_CLOSED_CAPTION_525 :: u8 where "DATA_UNIT_ZVBI_CLOSED_CAPTION_525 \<equiv> 0xB5"
abbreviation (input) DATA_UNIT_ZVBI_MONOCHROME_SAMPLES_525 :: u8 where "DATA_UNIT_ZVBI_MONOCHROME_SAMPLES_525 \<equiv> 0xB6"
abbreviation (input) DATA_UNIT_VPS :: u8 where "DATA_UNIT_VPS \<equiv> 0xC3"
abbreviation (input) DATA_UNIT_WSS :: u8 where "DATA_UNIT_WSS \<equiv> 0xC4"
abbreviation (input) DATA_UNIT_CLOSED_CAPTION :: u8 where "DATA_UNIT_CLOSED_CAPTION \<equiv> 0xC5"
abbreviation (input) DATA_UNIT_MONOCHROME_SAMPLES :: u8 where "DATA_UNIT_MONOCHROME_SAMPLES \<equiv> 0xC6"
abbreviation (input) DATA_UNIT_STUFFING :: u8 where "DATA_UNIT_STUFFING \<equiv> 0xFF"

subsection \<open>Stuffing\<close>

definition stuffing_du_size :: "bool \<Rightarrow> nat" where
  "stuffing_du_size fixed_length = (if fixed_length then 46 else 257)"

definition stuffing_unit :: "nat \<Rightarrow> u8 list" where
  "stuffing_unit du_size = 0xFF # word_of_nat (du_size - 2) # replicate (du_size - 2) 0xFF"

function stuffing_loop :: "bool \<Rightarrow> u8 list \<Rightarrow> nat \<Rightarrow> nat \<Rightarrow> u8 list \<times> nat \<times> nat" where
  "stuffing_loop fixed_length packet p_left last_du_size =
     (let du_size = stuffing_du_size fixed_length in
      if p_left \<ge> du_size
      then stuffing_loop fixed_length (packet @ stuffing_unit du_size) (p_left - du_size) du_size
      else (packet, p_left, last_du_size))"
  by pat_completeness auto
termination
  by (relation "measure (\<lambda>(fixed_length, packet, p_left, last_du_size). p_left)")
    (auto simp: stuffing_du_size_def)

declare stuffing_loop.simps [simp del]

definition encode_stuffing :: "bool \<Rightarrow> u8 list \<Rightarrow> nat \<Rightarrow> nat \<Rightarrow> u8 list option" where
  "encode_stuffing fixed_length packet p_left last_du_size =
     (let (packet, p_left, last_du_size) = stuffing_loop fixed_length packet p_left last_du_size in
      if p_left > 0 then
        if fixed_length then None
        else if p_left \<ge> 2 then Some (packet @ stuffing_unit p_left)
        else if last_du_size < 2 then None
        else if 257 = last_du_size then Some (packet[length packet + 1 - 257 := 256 - 2] @ [2 - 2])
        else Some (packet[length packet + 1 - last_du_size := word_of_nat (last_du_size - 1)] @ [0xFF])
      else Some packet)"

subsection \<open>Sliced data\<close>

text \<open>The switch over the services: the size of the data unit or the error.\<close>

definition service_du_size :: "vbi_sliced \<Rightarrow> mux_error + nat" where
  "service_du_size s =
     (if id s = VBI_SLICED_TELETEXT_B_L10_625 \<or> id s = VBI_SLICED_TELETEXT_B_L25_625 \<or> id s = VBI_SLICED_TELETEXT_B then
        if 0 = line s then Inr (2 + 2 + 42)
        else
          let l = (if line s \<ge> 313 then line s - 313 else line s) in
          if l - 7 > 22 - 7 then Inl VBI_ERR_LINE_NUMBER else Inr (2 + 2 + 42)
      else if id s = VBI_SLICED_VPS then
        if 16 \<noteq> line s then Inl VBI_ERR_LINE_NUMBER else Inr (2 + 1 + 13)
      else if id s = VBI_SLICED_WSS_625 then
        if 23 \<noteq> line s then Inl VBI_ERR_LINE_NUMBER else Inr (2 + 1 + 2)
      else if id s = VBI_SLICED_CAPTION_625 \<or> id s = VBI_SLICED_CAPTION_625_F1 then
        if 21 \<noteq> line s then Inl VBI_ERR_LINE_NUMBER else Inr (2 + 1 + 2)
      else Inl VBI_ERR_INVALID_SERVICE)"

definition line_offset_byte :: "u32 \<Rightarrow> u32 \<Rightarrow> u32 option" where
  "line_offset_byte last_line l =
     (if 0 = l then
        if last_line \<ge> 313 then Some (push_bit 6 3 + push_bit 5 0) else Some (push_bit 6 3 + push_bit 5 1)
      else if l < 32 then Some (push_bit 6 3 + push_bit 5 1 + l)
      else if l < 313 then None
      else if l < 313 + 32 then Some (push_bit 6 3 + push_bit 5 0 + l - 313)
      else None)"

text \<open>The bytes of a data unit after its first three.\<close>

definition rev_byte :: "u8 \<Rightarrow> u8" where
  "rev_byte b = ucast (vbi_rev8 (ucast b))"

definition data_unit_contents :: "vbi_sliced \<Rightarrow> u8 \<times> u8 list" where
  "data_unit_contents s =
     (if id s AND VBI_SLICED_TELETEXT_B \<noteq> 0 then
        (DATA_UNIT_EBU_TELETEXT_NON_SUBTITLE, 0xE4 # map rev_byte (take 42 (data s)))
      else if id s AND (VBI_SLICED_VPS OR VBI_SLICED_VPS_F2) \<noteq> 0 then (DATA_UNIT_VPS, take 13 (data s))
      else if id s AND VBI_SLICED_WSS_625 \<noteq> 0 then
        (DATA_UNIT_WSS, [rev_byte (data s ! 0), rev_byte (data s ! 1) OR 3])
      else (DATA_UNIT_CLOSED_CAPTION, [rev_byte (data s ! 0), rev_byte (data s ! 1)]))"

definition data_unit :: "bool \<Rightarrow> nat \<Rightarrow> u32 \<Rightarrow> vbi_sliced \<Rightarrow> u8 list" where
  "data_unit fixed_length du_size lofp s =
     (let (data_unit_id, contents) = data_unit_contents s;
          bytes = data_unit_id # word_of_nat (du_size - 2) # ucast lofp # contents
      in bytes @ (if fixed_length then replicate (du_size - length bytes) 0xFF else []))"

text \<open>The results are the error, the packet, \<open>last_du_size\<close> and the lines left.\<close>

fun insert_sliced_loop ::
  "u32 \<Rightarrow> bool \<Rightarrow> u32 \<Rightarrow> u8 list \<Rightarrow> nat \<Rightarrow> nat \<Rightarrow> vbi_sliced list
   \<Rightarrow> mux_error option \<times> u8 list \<times> nat \<times> vbi_sliced list" where
  "insert_sliced_loop service_mask fixed_length last_line packet p_left last_du_size [] = (None, packet, last_du_size, [])"
| "insert_sliced_loop service_mask fixed_length last_line packet p_left last_du_size (s # ss) =
     (if 0 = id s AND service_mask then insert_sliced_loop service_mask fixed_length last_line packet p_left last_du_size ss
      else if line s > 0 \<and> line s \<le> last_line then (Some VBI_ERR_LINE_ORDER, packet, last_du_size, s # ss)
      else
        let last_line = (if line s > 0 then line s else last_line) in
        case service_du_size s of
          Inl err \<Rightarrow> (Some err, packet, last_du_size, s # ss)
        | Inr du_size \<Rightarrow>
            let du_size = (if fixed_length then 2 + 0x2C else du_size) in
            if du_size > p_left then (None, packet, last_du_size, s # ss)
            else
              case line_offset_byte last_line (line s) of
                None \<Rightarrow> (Some VBI_ERR_LINE_NUMBER, packet, last_du_size, s # ss)
              | Some lofp \<Rightarrow>
                  insert_sliced_loop service_mask fixed_length last_line
                    (packet @ data_unit fixed_length du_size lofp s) (p_left - du_size) du_size ss)"

definition insert_sliced_data_units ::
  "u8 list \<Rightarrow> nat \<Rightarrow> vbi_sliced list \<Rightarrow> u32 \<Rightarrow> bool \<Rightarrow> mux_error option \<times> u8 list \<times> nat \<times> vbi_sliced list" where
  "insert_sliced_data_units packet p_left sliced service_mask fixed_length =
     insert_sliced_loop service_mask fixed_length 0 packet p_left 0 sliced"

definition fixed_length_format :: "u32 \<Rightarrow> bool" where
  "fixed_length_format data_identifier \<longleftrightarrow> 0x10 = (data_identifier AND NOT 0xF)"

text \<open>The result of the two functions of the interface is the return value, the packet, the room left and the
  input left. A \<^verbatim>\<open>NULL\<close> packet is \<^const>\<open>None\<close>, a \<^verbatim>\<open>NULL\<close> array of lines the empty list.\<close>

definition vbi_dvb_multiplex_sliced ::
  "u8 list option \<Rightarrow> nat \<Rightarrow> vbi_sliced list \<Rightarrow> u32 \<Rightarrow> u32 \<Rightarrow> bool
   \<Rightarrow> (bool \<times> u8 list option \<times> nat \<times> vbi_sliced list) option" where
  "vbi_dvb_multiplex_sliced packet packet_left sliced service_mask data_identifier stuffing =
     (case packet of
        None \<Rightarrow> Some (False, packet, packet_left, sliced)
      | Some p \<Rightarrow>
          if packet_left < 2 then Some (False, packet, packet_left, sliced)
          else
            let fixed_length = fixed_length_format data_identifier in
            if fixed_length \<and> packet_left mod 46 > 0 then Some (False, packet, packet_left, sliced)
            else
              let (err, p', last_du_size, s) = insert_sliced_data_units p packet_left sliced service_mask fixed_length;
                  p_left = packet_left - (length p' - length p) in
              if err \<noteq> None then Some (False, Some p', p_left, s)
              else if stuffing then
                map_option (\<lambda>p''. (True, Some p'', 0, s)) (encode_stuffing fixed_length p' p_left last_du_size)
              else Some (True, Some p', p_left, s))"

subsection \<open>Raw data\<close>

definition raw_unit :: "u32 \<Rightarrow> bool \<Rightarrow> bool \<Rightarrow> nat \<Rightarrow> u8 list \<Rightarrow> u8 list" where
  "raw_unit lofp first_segment last_segment first_pixel_position pixels =
     [DATA_UNIT_MONOCHROME_SAMPLES, word_of_nat (4 + length pixels),
      ucast (lofp + push_bit 7 (of_bool first_segment) + push_bit 6 (of_bool last_segment)),
      word_of_nat (first_pixel_position div 256), word_of_nat first_pixel_position, word_of_nat (length pixels)] @ pixels"

text \<open>The samples left are a list, so \<^verbatim>\<open>r_left\<close> is its length.\<close>

function raw_loop ::
  "bool \<Rightarrow> nat \<Rightarrow> u32 \<Rightarrow> nat \<Rightarrow> u8 list \<Rightarrow> nat \<Rightarrow> nat \<Rightarrow> nat \<Rightarrow> u8 list \<Rightarrow> u8 list \<times> nat \<times> u8 list" where
  "raw_loop fixed_length crit_p_left lofp n_pixels_total packet p_left last_du_size first_pixel_position raw =
     (let r_left = length raw in
      if r_left = 0 then (packet, last_du_size, raw)
      else if (if fixed_length then 2 + 0x2C else 2 + 4 + 1) > p_left then (packet, last_du_size, raw)
      else
        let n_pixels = (if fixed_length then min r_left (0x2C - 4)
                        else if crit_p_left = p_left then min r_left 250
                        else min (min r_left 251) (p_left - 6));
            u = raw_unit lofp (r_left = n_pixels_total) (r_left = n_pixels) first_pixel_position (take n_pixels raw);
            u = (if fixed_length then u[1 := 0x2C] @ replicate (0x2C - 4 - n_pixels) 0xFF else u)
        in raw_loop fixed_length crit_p_left lofp n_pixels_total (packet @ u) (p_left - length u) (length u)
             (first_pixel_position + n_pixels) (drop n_pixels raw))"
  by pat_completeness auto
termination
  by (relation "measure (\<lambda>(fixed_length, crit_p_left, lofp, n_pixels_total, packet, p_left, last_du_size, fpp, raw). length raw)")
    auto

declare raw_loop.simps [simp del]

abbreviation (input) VBI_VIDEOSTD_SET_525_60 :: u64 where "VBI_VIDEOSTD_SET_525_60 \<equiv> 2"
abbreviation (input) VBI_VIDEOSTD_SET_625_50 :: u64 where "VBI_VIDEOSTD_SET_625_50 \<equiv> 1"

definition insert_raw_data_units ::
  "u8 list \<Rightarrow> nat \<Rightarrow> u8 list \<Rightarrow> bool \<Rightarrow> u64 \<Rightarrow> u32 \<Rightarrow> nat \<Rightarrow> nat \<Rightarrow> bool
   \<Rightarrow> mux_error + u8 list \<times> nat \<times> u8 list" where
  "insert_raw_data_units packet p_left raw fixed_length videostd_set l first_pixel_position n_pixels_total stuffing =
     (let crit_p_left = (if stuffing then 2 + 4 + 251 + 1 else 0);
          n525 = videostd_set AND VBI_VIDEOSTD_SET_525_60 \<noteq> 0;
          n625 = videostd_set AND VBI_VIDEOSTD_SET_625_50 \<noteq> 0 in
      if n525 \<and> n625 \<or> \<not> n525 \<and> \<not> n625 then Inl VBI_ERR_AMBIGUOUS_VIDEOSTD
      else
        let f2_start = (if n525 then 263 else 313); end = (first_pixel_position + n_pixels_total) mod 2 ^ 32 in
        if length raw > n_pixels_total \<or> end > 720 \<or> end < n_pixels_total then Inl VBI_ERR_SAMPLE_NUMBER
        else
          let lofp = (if l \<ge> f2_start then 0 else push_bit 5 1); l = (if l \<ge> f2_start then l - f2_start else l) in
          if l - 7 > 23 - 7 then Inl VBI_ERR_LINE_NUMBER
          else Inr (raw_loop fixed_length crit_p_left (lofp + l) n_pixels_total packet p_left 0
                      (first_pixel_position + (n_pixels_total - length raw)) raw))"

definition vbi_dvb_multiplex_raw ::
  "u8 list option \<Rightarrow> nat \<Rightarrow> u8 list \<Rightarrow> u32 \<Rightarrow> u64 \<Rightarrow> u32 \<Rightarrow> nat \<Rightarrow> nat \<Rightarrow> bool
   \<Rightarrow> (bool \<times> u8 list option \<times> nat \<times> u8 list) option" where
  "vbi_dvb_multiplex_raw packet packet_left raw data_identifier videostd_set l first_pixel_position n_pixels_total stuffing =
     (case packet of
        None \<Rightarrow> Some (False, packet, packet_left, raw)
      | Some p \<Rightarrow>
          if packet_left < 2 then Some (False, packet, packet_left, raw)
          else
            let fixed_length = fixed_length_format data_identifier in
            if fixed_length \<and> packet_left mod 46 > 0 then Some (False, packet, packet_left, raw)
            else if raw = [] then Some (False, packet, packet_left, raw)
            else
              case insert_raw_data_units p packet_left raw fixed_length videostd_set l first_pixel_position
                     n_pixels_total stuffing of
                Inl err \<Rightarrow> Some (False, packet, packet_left, raw)
              | Inr (p', last_du_size, r) \<Rightarrow>
                  let p_left = packet_left - (length p' - length p) in
                  if stuffing then
                    map_option (\<lambda>p''. (True, Some p'', 0, r)) (encode_stuffing fixed_length p' p_left last_du_size)
                  else Some (True, Some p', p_left, r))"

end
