(* ===== verification/Dvb_Frame.thy ===== *)
theory Dvb_Frame
  imports Dvb_Units
begin

text \<open>Extraction of data units, the part of dvb_demux.c from \<^verbatim>\<open>struct frame\<close> to \<^verbatim>\<open>_vbi_dvb_demultiplex_sliced\<close>, and
  its safety on any input. The buffer for sliced lines is a list (\<^const>\<open>None\<close> for \<^verbatim>\<open>NULL\<close>)
  and \<open>sp\<close> the index of its next element, the buffer for raw lines a list of bytes and \<open>rp\<close> an offset. A
  result \<^const>\<open>None\<close> is an access outside of a buffer.\<close>

unbundle bit_operations_syntax

subsection \<open>Data\<close>

datatype demux_error =
    SLICED_BUFFER_OVERFLOW
  | RAW_BUFFER_OVERFLOW
  | DU_OVERFLOW
  | DU_LENGTH
  | DU_LINE_NUMBER
  | DU_RAW_SEGMENT_POSITION
  | DU_RAW_SEGMENT_LOST
  | DU_RAW_DATA_INCOMPLETE

text \<open>The results 0, - 1 and an error of the functions.\<close>

datatype demux_result = Success | New_frame | Failure demux_error

datatype systems = SYSTEM_525 | SYSTEM_625

record frame =
  sliced_begin :: "vbi_sliced list option"
  sp :: nat
  raw :: "u8 list option"
  raw_start :: "nat \<times> nat"
  raw_count :: "nat \<times> nat"
  rp :: nat
  raw_offset :: nat
  last_field :: nat
  last_field_line :: nat
  last_frame_line :: nat
  last_data_unit_id :: u8
  n_data_units :: nat

definition clear_frame :: frame where
  "clear_frame = \<lparr>sliced_begin = None, sp = 0, raw = None, raw_start = (0, 0), raw_count = (0, 0), rp = 0,
     raw_offset = 0, last_field = 0, last_field_line = 0, last_frame_line = 0, last_data_unit_id = 0, n_data_units = 0\<rparr>"

abbreviation (input) VBI_SLICED_VBI_625 :: u32 where "VBI_SLICED_VBI_625 \<equiv> 0x20000000"
abbreviation (input) VBI_SLICED_VBI_525 :: u32 where "VBI_SLICED_VBI_525 \<equiv> 0x40000000"

subsection \<open>Line numbers\<close>

text \<open>The field, the line of the field and the line of the frame.\<close>

definition lofp_to_line :: "u8 \<Rightarrow> systems \<Rightarrow> nat \<times> nat \<times> nat" where
  "lofp_to_line lofp system =
     (let field = (if lofp AND push_bit 5 1 \<noteq> 0 then 0 else 1);
          line_offset = unat (lofp AND 31) in
      if line_offset > 0 then
        (field, line_offset, (if field = 0 then 0 else case system of SYSTEM_525 \<Rightarrow> 263 | SYSTEM_625 \<Rightarrow> 313) + line_offset)
      else (field, 0, 0))"

definition sliced_size :: "frame \<Rightarrow> nat" where
  "sliced_size f = (case sliced_begin f of None \<Rightarrow> 0 | Some v \<Rightarrow> length v)"

text \<open>An update of the element \<open>i\<close> of the buffer for sliced lines, and a copy to the buffer for raw lines.\<close>

definition update_sliced :: "nat \<Rightarrow> (vbi_sliced \<Rightarrow> vbi_sliced) \<Rightarrow> frame \<Rightarrow> frame" where
  "update_sliced i g f = f\<lparr>sliced_begin := map_option (\<lambda>v. v[i := g (v ! i)]) (sliced_begin f)\<rparr>"

definition write_raw :: "nat \<Rightarrow> u8 list \<Rightarrow> frame \<Rightarrow> frame option" where
  "write_raw i bytes f =
     (case raw f of
        None \<Rightarrow> None
      | Some r \<Rightarrow>
          if i + length bytes > length r then None
          else Some (f\<lparr>raw := Some (take i r @ bytes @ drop (i + length bytes) r)\<rparr>))"

text \<open>On success the element given to the line is the one before the new \<open>sp\<close>. The flag tells whether the
  caller asks for a raw line.\<close>

definition line_address :: "frame \<Rightarrow> bool \<Rightarrow> u8 \<Rightarrow> systems \<Rightarrow> demux_result \<times> frame" where
  "line_address f rpp lofp system =
     (if sp f \<ge> sliced_size f then (Failure SLICED_BUFFER_OVERFLOW, f)
      else
        let (field, field_line, frame_line) = lofp_to_line lofp system;
            next = (\<lambda>f. update_sliced (sp f) (\<lambda>s. s\<lparr>line := word_of_nat frame_line\<rparr>) f
                          \<lparr>sp := sp f + 1, n_data_units := n_data_units f + 1\<rparr>) in
        if 0 \<noteq> frame_line then
          if frame_line \<le> last_frame_line f \<and> n_data_units f > 0 then (Failure DU_LINE_NUMBER, f)
          else if frame_line < last_frame_line f then (New_frame, f)
          else if frame_line = last_frame_line f \<and> (\<not> rpp \<or> bit lofp 7) then (New_frame, f)
          else
            let start = (if field = 0 then fst (raw_start f) else snd (raw_start f));
                count = (if field = 0 then fst (raw_count f) else snd (raw_count f)) in
            if rpp \<and> (frame_line < start \<or> frame_line \<ge> start + count) then (Failure RAW_BUFFER_OVERFLOW, f)
            else
              let offset = frame_line - start + (if field > 0 then fst (raw_count f) else 0);
                  f = (if rpp then f\<lparr>rp := offset * 720\<rparr> else f) in
              (Success, next (f\<lparr>last_field := field, last_field_line := field_line, last_frame_line := frame_line\<rparr>))
        else if rpp then (Failure DU_LINE_NUMBER, f)
        else if 0 \<noteq> last_data_unit_id f \<and> field \<noteq> last_field f \<and> 0 = n_data_units f then (New_frame, f)
        else if 0 \<noteq> last_data_unit_id f \<and> field \<noteq> last_field f \<and> field < last_field f then (Failure DU_LINE_NUMBER, f)
        else (Success, next (f\<lparr>last_field := field, last_field_line := field_line\<rparr>)))"

subsection \<open>Data units\<close>

definition discard_raw :: "frame \<Rightarrow> frame option" where
  "discard_raw f =
     (case write_raw (rp f) (replicate 720 0) f of
        None \<Rightarrow> None
      | Some f \<Rightarrow> if sp f = 0 then None else Some (f\<lparr>sp := sp f - 1, raw_offset := 0\<rparr>))"

definition current_line :: "frame \<Rightarrow> u32 option" where
  "current_line f =
     (case sliced_begin f of
        None \<Rightarrow> None
      | Some v \<Rightarrow> if sp f = 0 \<or> sp f > length v then None else Some (line (v ! (sp f - 1))))"

text \<open>The segment of a raw line in the data unit \<open>p\<close>.\<close>

definition copy_samples :: "frame \<Rightarrow> u8 list \<Rightarrow> (demux_result \<times> frame) option" where
  "copy_samples f p =
     (let first_pixel_position = unat (p ! 3) * 256 + unat (p ! 4);
          n_pixels = min (unat (p ! 5)) (720 - first_pixel_position) in
      if 6 + n_pixels > length p then None
      else
        case write_raw (rp f + first_pixel_position) (take n_pixels (drop 6 p)) f of
          None \<Rightarrow> None
        | Some f \<Rightarrow>
            Some (Success,
              f\<lparr>raw_offset := (if 0 \<noteq> p ! 2 AND push_bit 6 1 then 0 else first_pixel_position + n_pixels)\<rparr>))"

definition demux_samples :: "frame \<Rightarrow> u8 list \<Rightarrow> systems \<Rightarrow> (demux_result \<times> frame) option" where
  "demux_samples f p system =
     (let first_pixel_position = unat (p ! 3) * 256 + unat (p ! 4); n_pixels = unat (p ! 5) in
      if 0 = n_pixels \<or> first_pixel_position \<ge> 720 then
        map_option (\<lambda>f. (Failure DU_RAW_SEGMENT_POSITION, f)) (discard_raw f)
      else if bit (p ! 2) 7 then
        if raw_offset f > 0 then map_option (\<lambda>f. (Failure DU_RAW_DATA_INCOMPLETE, f)) (discard_raw f)
        else
          let (err, f) = line_address f True (p ! 2) system in
          if err \<noteq> Success then Some (err, f)
          else if last_field_line f < 7 \<or> last_field_line f \<ge> 24 then
            Some (Failure DU_LINE_NUMBER, f\<lparr>sp := sp f - 1\<rparr>)
          else
            copy_samples (update_sliced (sp f - 1) (\<lambda>s. s\<lparr>id := (case system of
              SYSTEM_525 \<Rightarrow> VBI_SLICED_VBI_525 | SYSTEM_625 \<Rightarrow> VBI_SLICED_VBI_625)\<rparr>) f) p
      else
        let (field, field_line, frame_line) = lofp_to_line (p ! 2) system in
        if 0 = raw_offset f then
          if last_data_unit_id f \<in> {0, DATA_UNIT_ZVBI_MONOCHROME_SAMPLES_525, DATA_UNIT_MONOCHROME_SAMPLES}
          then Some (Success, f)
          else Some (Failure DU_RAW_SEGMENT_LOST, f)
        else
          case current_line f of
            None \<Rightarrow> None
          | Some l \<Rightarrow>
              if word_of_nat frame_line \<noteq> l \<or> first_pixel_position \<noteq> raw_offset f then
                map_option (\<lambda>f. (Failure DU_RAW_SEGMENT_LOST, f)) (discard_raw f)
              else copy_samples f p)"

text \<open>What becomes of one data unit: the loop goes on, it ends with an error at this unit, or the function returns
  at once, without a new source position.\<close>

datatype unit_result = Next frame | Failed demux_result frame | Returned frame

text \<open>The cases of the switch for a line of sliced data. \<open>skip\<close> is a reason to go on without the line, \<open>ok\<close> checks
  its number, \<open>service\<close> is its service and \<open>bytes\<close> are its data.\<close>

definition sliced_unit ::
  "frame \<Rightarrow> u8 list \<Rightarrow> nat \<Rightarrow> bool \<Rightarrow> systems \<Rightarrow> (frame \<Rightarrow> bool) \<Rightarrow> (frame \<Rightarrow> u32) \<Rightarrow> u8 list \<Rightarrow> unit_result option" where
  "sliced_unit f p min_length skip system ok service bytes =
     (if sliced_begin f = None then Some (Next f)
      else if raw_offset f > 0 then map_option Returned (discard_raw f)
      else if unat (p ! 1) < min_length then Some (Failed (Failure DU_LENGTH) f)
      else if skip then Some (Next f)
      else
        let (err, f) = line_address f False (p ! 2) system in
        if err \<noteq> Success then Some (Failed err f)
        else if \<not> ok f then Some (Failed (Failure DU_LINE_NUMBER) (f\<lparr>sp := sp f - 1\<rparr>))
        else Some (Next (update_sliced (sp f - 1)
               (\<lambda>s. s\<lparr>id := service f, data := bytes @ drop (length bytes) (data s)\<rparr>) f)))"

definition samples_unit :: "frame \<Rightarrow> u8 list \<Rightarrow> systems \<Rightarrow> unit_result option" where
  "samples_unit f p system =
     (if raw f = None then Some (Next f)
      else if length p \<le> 5 then None
      else if unat (p ! 1) < 1 + 2 + 1 + unat (p ! 5) then Some (Failed (Failure DU_LENGTH) f)
      else map_option (\<lambda>(err, f). if err \<noteq> Success then Failed err f else Next f) (demux_samples f p system))"

text \<open>The switch over the data units. \<open>p\<close> is the rest of the packet.\<close>

definition extract_data_unit :: "frame \<Rightarrow> u8 list \<Rightarrow> unit_result option" where
  "extract_data_unit f p =
     (let line_is = (\<lambda>l f. current_line f = Some l) in
      if p ! 0 \<in> {DATA_UNIT_EBU_TELETEXT_NON_SUBTITLE, DATA_UNIT_EBU_TELETEXT_SUBTITLE} then
        sliced_unit f p (1 + 1 + 42) (0xE4 \<noteq> p ! 3) SYSTEM_625
          (\<lambda>f. last_field_line f = 0 \<or> 7 \<le> last_field_line f \<and> last_field_line f < 23)
          (\<lambda>f. VBI_SLICED_TELETEXT_B) (map rev_byte (take 42 (drop 4 p)))
      else if p ! 0 = DATA_UNIT_VPS then
        sliced_unit f p (1 + 13) False SYSTEM_625 (line_is 16)
          (\<lambda>f. if 0 = last_field f then VBI_SLICED_VPS else VBI_SLICED_VPS_F2) (take 13 (drop 3 p))
      else if p ! 0 = DATA_UNIT_WSS then
        sliced_unit f p (1 + 2) False SYSTEM_625 (line_is 23)
          (\<lambda>f. VBI_SLICED_WSS_625) (map rev_byte (take 2 (drop 3 p)))
      else if p ! 0 = DATA_UNIT_ZVBI_WSS_CPR1204 then
        sliced_unit f p (1 + 3) False SYSTEM_525 (\<lambda>f. True) (\<lambda>f. VBI_SLICED_WSS_CPR1204) (take 3 (drop 3 p))
      else if p ! 0 = DATA_UNIT_ZVBI_CLOSED_CAPTION_525 then
        sliced_unit f p (1 + 2) False SYSTEM_525 (\<lambda>f. True)
          (\<lambda>f. if 0 = last_field f then VBI_SLICED_CAPTION_525_F1 else VBI_SLICED_CAPTION_525_F2)
          (map rev_byte (take 2 (drop 3 p)))
      else if p ! 0 = DATA_UNIT_CLOSED_CAPTION then
        sliced_unit f p (1 + 2) False SYSTEM_625 (line_is 21)
          (\<lambda>f. if 0 = last_field f then VBI_SLICED_CAPTION_625_F1 else VBI_SLICED_CAPTION_625_F2)
          (map rev_byte (take 2 (drop 3 p)))
      else if p ! 0 = DATA_UNIT_ZVBI_MONOCHROME_SAMPLES_525 then samples_unit f p SYSTEM_525
      else if p ! 0 = DATA_UNIT_MONOCHROME_SAMPLES then samples_unit f p SYSTEM_625
      else Some (Next f))"

text \<open>The results are the new frame and the position of the source, counted from the position at the start \<open>i\<close>.\<close>

function extract_loop :: "frame \<Rightarrow> u8 list \<Rightarrow> nat \<Rightarrow> (demux_result \<times> frame \<times> nat) option" where
  "extract_loop f p i =
     (if length p \<le> 2 then Some (Success, f, i + length p)
      else if unat (p ! 1) > length p - 2 then Some (Failure DU_OVERFLOW, f, i)
      else
        case extract_data_unit f p of
          None \<Rightarrow> None
        | Some (Returned f) \<Rightarrow> Some (Failure DU_RAW_DATA_INCOMPLETE, f, 0)
        | Some (Failed err f) \<Rightarrow> Some (err, f, i)
        | Some (Next f) \<Rightarrow>
            extract_loop (f\<lparr>last_data_unit_id := p ! 0\<rparr>) (drop (unat (p ! 1) + 2) p) (i + (unat (p ! 1) + 2)))"
  by pat_completeness auto
termination by (relation "measure (\<lambda>(f, p, i). length p)") auto

declare extract_loop.simps [simp del]

text \<open>The result is the result of the function, the frame and the bytes left of the source.\<close>

definition extract_data_units :: "frame \<Rightarrow> u8 list \<Rightarrow> (demux_result \<times> frame \<times> u8 list) option" where
  "extract_data_units f src =
     (if length src < 2 then None
      else map_option (\<lambda>(err, f, i). (err, f, drop i src)) (extract_loop f src 0))"

definition reset_frame :: "frame \<Rightarrow> frame" where
  "reset_frame f =
     f\<lparr>sp := 0,
       raw := (if rp f > 0 then
                 let n = (fst (raw_count f) + snd (raw_count f)) * 720 in map_option (\<lambda>r. replicate n 0 @ drop n r) (raw f)
               else raw f),
       rp := 0, raw_offset := 0, last_field := 0, last_field_line := 0, last_frame_line := 0,
       last_data_unit_id := 0, n_data_units := 0\<rparr>"

definition vbi_dvb_skip_data_unit :: "u8 list option \<Rightarrow> bool \<times> u8 list option" where
  "vbi_dvb_skip_data_unit buffer =
     (case buffer of
        None \<Rightarrow> (False, buffer)
      | Some src \<Rightarrow>
          if length src < 2 then (False, buffer)
          else
            let skip = 2 + unat (src ! 1) in
            if skip > length src then (False, buffer) else (True, Some (drop skip src)))"

text \<open>The result is the return value, the array, the number of its elements in use and the bytes left.\<close>

definition vbi_dvb_demultiplex_sliced ::
  "vbi_sliced list \<Rightarrow> u8 list option \<Rightarrow> (bool \<times> vbi_sliced list \<times> nat option \<times> u8 list option) option" where
  "vbi_dvb_demultiplex_sliced sliced buffer =
     (case buffer of
        None \<Rightarrow> Some (False, sliced, None, buffer)
      | Some src \<Rightarrow>
          if length src < 2 then Some (False, sliced, None, buffer)
          else
            map_option (\<lambda>(err, f, src). (err = Success, the (sliced_begin f), Some (sp f), Some src))
              (extract_data_units (clear_frame\<lparr>sliced_begin := Some sliced\<rparr>) src))"

subsection \<open>Raw lines\<close>

text \<open>A segment with an illegal position is an access below the array of lines when there is no line yet.\<close>

lemma discard_raw_first: "sp f = 0 \<Longrightarrow> p ! 5 = 0 \<Longrightarrow> demux_samples f p system = None"
  by (auto simp: demux_samples_def discard_raw_def write_raw_def Let_def split: option.splits)

text \<open>The number of samples is read before the length of the data unit is known to be sufficient.\<close>

lemma samples_unit_short: "raw f \<noteq> None \<Longrightarrow> length p \<le> 5 \<Longrightarrow> samples_unit f p system = None"
  by (simp add: samples_unit_def)

subsection \<open>Safety\<close>

definition demux_services :: "u32 set" where
  "demux_services = {VBI_SLICED_TELETEXT_B, VBI_SLICED_VPS, VBI_SLICED_VPS_F2, VBI_SLICED_WSS_625, VBI_SLICED_WSS_CPR1204,
     VBI_SLICED_CAPTION_525_F1, VBI_SLICED_CAPTION_525_F2, VBI_SLICED_CAPTION_625_F1, VBI_SLICED_CAPTION_625_F2}"

text \<open>The lines of a frame: known services in ascending order of the known line numbers.\<close>

definition lines_ok :: "vbi_sliced list \<Rightarrow> bool" where
  "lines_ok ss \<longleftrightarrow> sorted_wrt (<) (filter (\<lambda>l. l \<noteq> 0) (map line ss)) \<and> (\<forall>s \<in> set ss. id s \<in> demux_services)"

definition demux_ok :: "vbi_sliced list \<Rightarrow> frame \<Rightarrow> bool" where
  "demux_ok v0 f \<longleftrightarrow> raw f = None \<and> raw_offset f = 0 \<and> last_frame_line f < 1024 \<and>
     (\<exists>v. sliced_begin f = Some v \<and> length v = length v0 \<and> sp f \<le> length v \<and> drop (sp f + 1) v = drop (sp f + 1) v0
        \<and> lines_ok (take (sp f) v) \<and> (\<forall>s \<in> set (take (sp f) v). line s \<le> word_of_nat (last_frame_line f)))"

lemma lines_ok_snoc:
  "lines_ok (ss @ [s]) \<longleftrightarrow> lines_ok ss \<and> id s \<in> demux_services \<and> (line s \<noteq> 0 \<longrightarrow> (\<forall>t \<in> set ss. line t < line s))"
  unfolding lines_ok_def by (auto simp: sorted_wrt_append word_gt_0 split: if_splits)

lemma lofp_to_line_bound: "lofp_to_line lofp system = (field, fl, l) \<Longrightarrow> l < 1024"
  using unsigned_less [of "lofp AND 31", where 'a = nat] by (auto simp: lofp_to_line_def Let_def split: if_splits systems.splits)

text \<open>The frame after \<^const>\<open>line_address\<close>: the element \<open>i\<close> waits for its service and its data.\<close>

definition pending :: "vbi_sliced list \<Rightarrow> nat \<Rightarrow> frame \<Rightarrow> bool" where
  "pending v0 i f \<longleftrightarrow> raw f = None \<and> raw_offset f = 0 \<and> last_frame_line f < 1024 \<and> sp f = i + 1 \<and>
     (\<exists>v. sliced_begin f = Some v \<and> length v = length v0 \<and> i < length v \<and> drop (i + 1) v = drop (i + 1) v0
        \<and> lines_ok (take i v) \<and> (\<forall>s \<in> set (take i v). line s \<le> word_of_nat (last_frame_line f))
        \<and> line (v ! i) \<le> word_of_nat (last_frame_line f)
        \<and> (line (v ! i) \<noteq> 0 \<longrightarrow> (\<forall>s \<in> set (take i v). line s < line (v ! i))))"

lemma line_address_ok:
  assumes "demux_ok v0 f" "line_address f False lofp system = (err, f')"
  shows "if err = Success then pending v0 (sp f) f' else f' = f"
proof -
  obtain field fl l where lo: "lofp_to_line lofp system = (field, fl, l)" by (rule prod_cases3)
  note l = lofp_to_line_bound [OF lo]
  from assms(1) obtain v where v: "sliced_begin f = Some v" "length v = length v0" "sp f \<le> length v"
    "drop (sp f + 1) v = drop (sp f + 1) v0" "lines_ok (take (sp f) v)"
    "\<forall>s \<in> set (take (sp f) v). line s \<le> word_of_nat (last_frame_line f)"
    and f: "raw f = None" "raw_offset f = 0" "last_frame_line f < 1024" unfolding demux_ok_def by blast
  show ?thesis
  proof (cases "err = Success")
    case False
    then show ?thesis using assms(2) by (auto simp: line_address_def lo Let_def split: if_splits)
  next
    case True
    then have sp: "sp f < length v" using assms(2) v(1) by (auto simp: line_address_def sliced_size_def split: if_splits)
    have "last_frame_line f < l" if "l \<noteq> 0"
      using assms(2) True that by (auto simp: line_address_def lo Let_def split: if_splits)
    then have lt: "s < word_of_nat l" if "l \<noteq> 0" "s \<le> word_of_nat (last_frame_line f)" for s :: u32
      using that f(3) l by (simp add: word_less_nat_alt word_le_nat_alt unsigned_of_nat take_bit_nat_eq_self)
    have f': "sliced_begin f' = Some (v[sp f := (v ! sp f)\<lparr>line := word_of_nat l\<rparr>])" "sp f' = sp f + 1" "raw f' = None"
      "raw_offset f' = 0" "last_frame_line f' = (if l = 0 then last_frame_line f else l)"
      using assms(2) True v(1) f
      by (auto simp: line_address_def lo Let_def update_sliced_def split: if_splits)
    have "s \<le> word_of_nat (last_frame_line f')" if "s \<le> word_of_nat (last_frame_line f)" for s :: u32
      using that lt [of s] f'(5) by (cases "l = 0") (simp_all add: order.strict_implies_order)
    then show ?thesis
      unfolding if_P [OF True] pending_def using f' v sp l f lt by (auto simp: take_update_cancel)
  qed
qed

lemma pending_bad_line: "pending v0 i f \<Longrightarrow> demux_ok v0 (f\<lparr>sp := sp f - 1\<rparr>)"
  unfolding pending_def demux_ok_def by auto

lemma pending_good_line:
  assumes "pending v0 i f" "service \<in> demux_services"
  shows "demux_ok v0 (update_sliced (sp f - 1) (\<lambda>s. s\<lparr>id := service, data := g s\<rparr>) f)"
proof -
  from assms(1) obtain v where v: "sliced_begin f = Some v" "length v = length v0" "i < length v"
    "drop (i + 1) v = drop (i + 1) v0" "lines_ok (take i v)" "\<forall>s \<in> set (take i v). line s \<le> word_of_nat (last_frame_line f)"
    "line (v ! i) \<le> word_of_nat (last_frame_line f)" "line (v ! i) \<noteq> 0 \<longrightarrow> (\<forall>s \<in> set (take i v). line s < line (v ! i))"
    and f: "raw f = None" "raw_offset f = 0" "last_frame_line f < 1024" "sp f = i + 1" unfolding pending_def by blast
  have "drop (Suc (Suc i)) v = drop (Suc (Suc i)) v0" using arg_cong [OF v(4), of "drop 1"] by simp
  then show ?thesis
    unfolding demux_ok_def using v f assms(2)
    by (simp add: update_sliced_def take_Suc_conv_app_nth take_update_cancel lines_ok_snoc)
qed

lemma demux_ok_last_unit [simp]: "demux_ok v0 (f\<lparr>last_data_unit_id := i\<rparr>) = demux_ok v0 f"
  by (simp add: demux_ok_def)

definition unit_ok :: "vbi_sliced list \<Rightarrow> unit_result option \<Rightarrow> bool" where
  "unit_ok v0 r \<longleftrightarrow>
     (case r of
        None \<Rightarrow> False
      | Some (Next f) \<Rightarrow> demux_ok v0 f
      | Some (Failed e f) \<Rightarrow> e \<noteq> Success \<and> demux_ok v0 f
      | Some (Returned f) \<Rightarrow> False)"

lemma sliced_unit_ok:
  assumes "demux_ok v0 f" "\<And>f. service f \<in> demux_services"
  shows "unit_ok v0 (sliced_unit f p min_length skip system ok service bytes)"
proof -
  obtain err f' where la: "line_address f False (p ! 2) system = (err, f')" by (rule prod.exhaust)
  have ro: "raw_offset f = 0" using assms(1) by (simp add: demux_ok_def)
  show ?thesis
    using line_address_ok [OF assms(1) la] assms pending_bad_line [of v0 _ f'] pending_good_line [of v0 _ f']
    unfolding sliced_unit_def by (auto simp: la ro unit_ok_def split: if_splits)
qed

lemma extract_data_unit_ok:
  assumes "demux_ok v0 f"
  shows "unit_ok v0 (extract_data_unit f p)"
proof -
  have "samples_unit f p system = Some (Next f)" for system using assms by (simp add: samples_unit_def demux_ok_def)
  then have "unit_ok v0 (samples_unit f p system)" "unit_ok v0 (Some (Next f))" for system
    using assms by (simp_all add: unit_ok_def)
  then show ?thesis
    using sliced_unit_ok [OF assms] unfolding extract_data_unit_def Let_def by (simp add: demux_services_def)
qed

lemma extract_loop_ok:
  "demux_ok v0 f \<Longrightarrow> \<exists>err f' k. extract_loop f p i = Some (err, f', i + k) \<and> k \<le> length p \<and> demux_ok v0 f'
     \<and> (err = Success \<longrightarrow> k = length p)"
proof (induction f p i rule: extract_loop.induct)
  case (1 f p i)
  note unit = extract_data_unit_ok [OF 1(2), of p]
  consider "length p \<le> 2" | "\<not> length p \<le> 2" "unat (p ! 1) > length p - 2"
    | "\<not> length p \<le> 2" "\<not> unat (p ! 1) > length p - 2" by blast
  then show ?case
  proof cases
    case 3
    from unit consider err f' where "extract_data_unit f p = Some (Failed err f')" "err \<noteq> Success" "demux_ok v0 f'"
      | f' where "extract_data_unit f p = Some (Next f')" "demux_ok v0 f'"
      by (auto simp: unit_ok_def split: option.splits unit_result.splits)
    then show ?thesis
    proof cases
      case (2 f')
      then obtain err f'' k where
        "extract_loop (f'\<lparr>last_data_unit_id := p ! 0\<rparr>) (drop (unat (p ! 1) + 2) p) (i + (unat (p ! 1) + 2))
          = Some (err, f'', i + (unat (p ! 1) + 2) + k)"
        "k \<le> length p - (unat (p ! 1) + 2)" "demux_ok v0 f''" "err = Success \<longrightarrow> k = length p - (unat (p ! 1) + 2)"
        using 1(1) [OF 3 2(1)] by auto
      then show ?thesis
        using 3 2(1) unfolding extract_loop.simps [of f p i] if_not_P [OF 3(1)] if_not_P [OF 3(2)]
        by (intro exI [of _ err] exI [of _ f''] exI [of _ "unat (p ! 1) + 2 + k"]) auto
    next
      case (1 err f')
      then show ?thesis
        unfolding extract_loop.simps [of f p i] if_not_P [OF 3(1)] if_not_P [OF 3(2)]
        by (intro exI [of _ err] exI [of _ f'] exI [of _ 0]) simp
    qed
  qed (use 1(2) in \<open>auto simp: extract_loop.simps [of f p i]\<close>)
qed



end
