(* ===== verification/Dvb_Demux.thy ===== *)
theory Dvb_Demux
  imports Dvb_Frame
begin

text \<open>The demultiplexer of packetized elementary streams (PES), the part of dvb_demux.c from \<^verbatim>\<open>struct wrap\<close> to
  \<^verbatim>\<open>vbi_dvb_pes_demux_new\<close> without the transport stream. The input of one call is the list \<open>src\<close>, the pointer to the
  next byte an index \<open>i\<close> of it. Of a buffer the bytes up to \<^verbatim>\<open>bp\<close> are kept, so \<^verbatim>\<open>bp\<close> is its length. Time stamps are
  64 bit words. The callback works on a state of its own, \<open>'s\<close>; \<^const>\<open>None\<close> as a callback is \<^verbatim>\<open>NULL\<close>, as a result an
  access outside of a buffer or a failed assertion.\<close>

unbundle bit_operations_syntax

subsection \<open>Wrap-around\<close>

record wrap =
  buffer :: "u8 list"
  skip :: nat
  consume :: nat
  lookahead :: nat
  leftover :: nat

text \<open>The bytes of the buffer that are left over.\<close>

definition pending_bytes :: "wrap \<Rightarrow> u8 list" where
  "pending_bytes w = drop (length (buffer w) - leftover w) (buffer w)"

text \<open>The first part removes \<open>skip\<close> bytes; the flag is \<^const>\<open>False\<close> if there are not enough.\<close>

definition skip_bytes :: "wrap \<Rightarrow> nat \<Rightarrow> nat \<Rightarrow> bool \<times> wrap \<times> nat" where
  "skip_bytes w src_size i =
     (if skip w > leftover w then
        let w = w\<lparr>skip := skip w - leftover w, leftover := 0\<rparr>; src_left = src_size - i in
        if skip w > src_left then (False, w\<lparr>skip := skip w - src_left\<rparr>, src_size)
        else (True, w\<lparr>skip := 0\<rparr>, i + skip w)
      else (True, w\<lparr>leftover := leftover w - skip w, skip := 0\<rparr>, i))"

text \<open>On success the result has the bytes from \<^verbatim>\<open>dst\<close> on, and the distance from \<^verbatim>\<open>dst\<close> to \<^verbatim>\<open>scan_end\<close>.\<close>

definition wrap_data :: "wrap \<Rightarrow> u8 list \<Rightarrow> nat \<Rightarrow> (u8 list \<times> nat) option \<times> wrap \<times> nat" where
  "wrap_data w src i =
     (let src_left = length src - i; available = leftover w + src_left; required = lookahead w in
      if required > available \<or> available > length src then
        if required > leftover w then
          let rest = pending_bytes w; required = required - leftover w in
          if required > src_left then
            (None, w\<lparr>buffer := rest @ drop i src, leftover := leftover w + src_left\<rparr>, length src)
          else
            let w = w\<lparr>buffer := rest @ take required (drop i src), leftover := lookahead w\<rparr> in
            (Some (buffer w, length (buffer w) - lookahead w), w, i + required)
        else (Some (pending_bytes w, leftover w - lookahead w), w, i)
      else (Some (drop (i - leftover w) src, leftover w + src_left - lookahead w), w, i))"

definition wrap_around :: "wrap \<Rightarrow> u8 list \<Rightarrow> nat \<Rightarrow> (u8 list \<times> nat) option \<times> wrap \<times> nat" where
  "wrap_around w src i =
     (let (enough, w, i) = skip_bytes w (length src) i in if enough then wrap_data w src i else (None, w, i))"

subsection \<open>State\<close>

datatype packet_fn = demux_pes | demux_ts

record vbi_dvb_demux =
  pes_wrap :: wrap
  ts_wrap :: wrap
  frame :: frame
  frame_pts :: u64
  packet_pts :: u64
  new_frame :: bool
  ts_in_sync :: bool
  ts_frame :: "u8 list"
  ts_pes :: "u8 list"
  ts_pes_todo :: nat
  ts_continuity :: int
  ts_pid :: nat
  demux_packet :: packet_fn

abbreviation (input) "PES_HEADER_LOOKAHEAD \<equiv> 48 :: nat"
abbreviation (input) "TS_HEADER_LOOKAHEAD \<equiv> 10 :: nat"
abbreviation (input) "TS_SYNC_SEARCH_LOOKAHEAD \<equiv> 188 + TS_HEADER_LOOKAHEAD - 1 :: nat"
abbreviation (input) PRIVATE_STREAM_1 :: u8 where "PRIVATE_STREAM_1 \<equiv> 0xBD"

definition clear_wrap :: "nat \<Rightarrow> wrap" where
  "clear_wrap n = \<lparr>buffer = [], skip = 0, consume = 0, lookahead = n, leftover = 0\<rparr>"

definition vbi_dvb_demux_reset :: "vbi_dvb_demux \<Rightarrow> vbi_dvb_demux" where
  "vbi_dvb_demux_reset dx =
     dx\<lparr>pes_wrap := clear_wrap PES_HEADER_LOOKAHEAD, ts_wrap := clear_wrap TS_SYNC_SEARCH_LOOKAHEAD,
        frame := clear_frame\<lparr>sliced_begin := sliced_begin (frame dx)\<rparr>, frame_pts := 0, packet_pts := 0,
        new_frame := True, ts_in_sync := False, ts_frame := [], ts_pes := [], ts_pes_todo := 0, ts_continuity := - 1\<rparr>"

text \<open>The context after \<^verbatim>\<open>CLEAR\<close>. The array of sliced lines is a part of it.\<close>

definition clear_dvb_demux :: vbi_dvb_demux where
  "clear_dvb_demux =
     \<lparr>pes_wrap = clear_wrap 0, ts_wrap = clear_wrap 0,
      frame = clear_frame\<lparr>sliced_begin := Some (replicate 64 \<lparr>id = 0, line = 0, data = replicate 56 0\<rparr>)\<rparr>,
      frame_pts = 0, packet_pts = 0, new_frame = False, ts_in_sync = False, ts_frame = [], ts_pes = [], ts_pes_todo = 0,
      ts_continuity = 0, ts_pid = 0, demux_packet = demux_pes\<rparr>"

text \<open>The flag is the success of \<^verbatim>\<open>vbi_malloc\<close>.\<close>

definition vbi_dvb_pes_demux_new :: "bool \<Rightarrow> vbi_dvb_demux option" where
  "vbi_dvb_pes_demux_new mem = (if mem then Some ((vbi_dvb_demux_reset clear_dvb_demux)\<lparr>demux_packet := demux_pes\<rparr>) else None)"

definition vbi_dvb_ts_demux_new :: "bool \<Rightarrow> nat \<Rightarrow> vbi_dvb_demux option" where
  "vbi_dvb_ts_demux_new mem pid =
     (if pid \<le> 0x000F \<or> pid \<ge> 0x1FFF then None
      else if mem then Some ((vbi_dvb_demux_reset clear_dvb_demux)\<lparr>demux_packet := demux_ts, ts_pid := pid\<rparr>) else None)"

subsection \<open>Packet headers\<close>

definition decode_timestamp :: "u8 list \<Rightarrow> u64" where
  "decode_timestamp p =
     (let t = push_bit 22 (ucast (p ! 1)) OR push_bit 14 (ucast (p ! 2) AND NOT 1) OR push_bit 7 (ucast (p ! 3))
            OR drop_bit 1 (ucast (p ! 4)) :: u32
      in ucast t OR push_bit 29 (ucast (p ! 0) AND 0x0E))"

text \<open>The time stamp goes to \<open>packet_pts\<close>.\<close>

definition valid_vbi_pes_packet_header :: "vbi_dvb_demux \<Rightarrow> u8 list \<Rightarrow> bool \<times> vbi_dvb_demux" where
  "valid_vbi_pes_packet_header dx p =
     (let data_identifier = p ! (9 + 36); flags = drop_bit 6 (p ! 7) in
      if 36 \<noteq> p ! 8 then (False, dx)
      else if \<not> (0x10 \<le> data_identifier \<and> data_identifier \<le> 0x1F \<or> 0x99 \<le> data_identifier \<and> data_identifier \<le> 0x9B)
      then (False, dx)
      else if 0x84 \<noteq> p ! 6 AND 0xF4 then (False, dx)
      else if flags = 2 \<or> flags = 3 then (True, dx\<lparr>packet_pts := decode_timestamp (drop 9 p)\<rparr>)
      else if new_frame dx then (False, dx)
      else (True, dx))"

definition packet_length :: "u8 list \<Rightarrow> nat" where
  "packet_length p = unat (p ! 4) * 256 + unat (p ! 5)"

text \<open>The test for a start code at the position \<open>k\<close>, and the search for it in the bytes \<open>p\<close>, of which \<open>n\<close> come
  before \<^verbatim>\<open>scan_end\<close>. The results of the search are the position of a VBI packet, the end of another packet, or the
  position where the search goes on with more data.\<close>

datatype start_code = Skip3 | Skip1 | Vbi_stream | Other_stream

definition start_code_at :: "u8 list \<Rightarrow> nat \<Rightarrow> start_code" where
  "start_code_at p k =
     (if p ! (k + 2) AND NOT 1 \<noteq> 0 then Skip3
      else if 0 \<noteq> p ! k OR p ! (k + 1) \<or> 1 \<noteq> p ! (k + 2) then Skip1
      else if PRIVATE_STREAM_1 = p ! (k + 3) then Vbi_stream
      else if p ! (k + 3) < 0xBC then Skip1
      else Other_stream)"

datatype scan_result = Scan_packet nat | Scan_other nat | Scan_more nat

function scan_start_code :: "u8 list \<Rightarrow> nat \<Rightarrow> nat \<Rightarrow> scan_result" where
  "scan_start_code p n k =
     (case start_code_at p k of
        Skip3 \<Rightarrow> if k + 3 \<ge> n then Scan_more (k + 3) else scan_start_code p n (k + 3)
      | Skip1 \<Rightarrow> if k + 1 \<ge> n then Scan_more (k + 1) else scan_start_code p n (k + 1)
      | Vbi_stream \<Rightarrow> Scan_packet k
      | Other_stream \<Rightarrow> Scan_other (k + 6 + packet_length (drop k p)))"
  by pat_completeness auto
termination by (relation "measure (\<lambda>(p, n, k). n - k)") auto

declare scan_start_code.simps [simp del]

text \<open>The search and the check of the packet header: they set \<open>skip\<close> and, for a VBI packet, \<open>lookahead\<close>.\<close>

definition set_skip :: "nat \<Rightarrow> vbi_dvb_demux \<Rightarrow> vbi_dvb_demux" where
  "set_skip k dx = dx\<lparr>pes_wrap := (pes_wrap dx)\<lparr>skip := k\<rparr>\<rparr>"

definition pes_header_result :: "vbi_dvb_demux \<Rightarrow> u8 list \<Rightarrow> scan_result \<Rightarrow> vbi_dvb_demux" where
  "pes_header_result dx p r =
     (case r of
        Scan_more k \<Rightarrow> set_skip k dx
      | Scan_other k \<Rightarrow> set_skip k dx
      | Scan_packet k \<Rightarrow>
          let p = drop k p; dx = set_skip (k + 6 + packet_length p) dx in
          if packet_length p < 178 then dx
          else
            let (valid, dx) = valid_vbi_pes_packet_header dx p in
            if \<not> valid then dx
            else dx\<lparr>pes_wrap := (pes_wrap dx)\<lparr>skip := k + 9 + 36 + 1, lookahead := packet_length p - 3 - 36 - 1\<rparr>\<rparr>)"

definition demux_pes_header :: "vbi_dvb_demux \<Rightarrow> u8 list \<Rightarrow> nat \<Rightarrow> vbi_dvb_demux" where
  "demux_pes_header dx p n = pes_header_result dx p (scan_start_code p n 0)"

subsection \<open>Packets\<close>

datatype packet_result = Packet_done | Packet_callback | Packet_error demux_error

text \<open>A frame can only begin at the first data unit if the previous frame is not complete yet; so the loop below
  ends.\<close>

definition fresh :: "frame \<Rightarrow> bool" where
  "fresh f \<longleftrightarrow> last_frame_line f = 0 \<and> last_data_unit_id f = 0 \<and> n_data_units f = 0"

lemma fresh_line_address: "fresh f \<Longrightarrow> line_address f rpp lofp system \<noteq> (New_frame, f')"
  by (auto simp: fresh_def line_address_def Let_def split: prod.splits)

lemma copy_samples_no_frame: "copy_samples f p \<noteq> Some (New_frame, f')"
  by (simp add: copy_samples_def Let_def split: option.split)

lemma fresh_demux_samples:
  assumes "fresh f"
  shows "demux_samples f p system \<noteq> Some (New_frame, f')"
proof -
  obtain err f2 where la: "line_address f True (p ! 2) system = (err, f2)" by (rule prod.exhaust)
  obtain field fl l where lo: "lofp_to_line (p ! 2) system = (field, fl, l)" by (rule prod_cases3)
  have "map_option (Pair (Failure e)) d \<noteq> Some (New_frame, f')" for e and d :: "frame option" by auto
  moreover have "err \<noteq> New_frame" using fresh_line_address [OF assms, of True "p ! 2" system] la by auto
  ultimately show ?thesis
    using copy_samples_no_frame unfolding demux_samples_def Let_def la lo prod.case
    by (simp split: option.split)
qed

lemma fresh_extract_data_unit: "fresh f \<Longrightarrow> extract_data_unit f p \<noteq> Some (Failed New_frame f')"
proof -
  assume f: "fresh f"
  have "sliced_unit f p m sk system ok service bytes \<noteq> Some (Failed New_frame f')" for m sk system ok service bytes
    using fresh_line_address [OF f, of False "p ! 2" system] unfolding sliced_unit_def
    by (auto split: prod.splits if_splits)
  moreover have "samples_unit f p system \<noteq> Some (Failed New_frame f')" for system
    using fresh_demux_samples [OF f, of p system] unfolding samples_unit_def
    by (auto split: prod.splits if_splits)
  ultimately show ?thesis unfolding extract_data_unit_def Let_def by simp
qed

lemma extract_loop_position: "extract_loop f p i = Some (err, f', k) \<Longrightarrow> err \<noteq> Failure DU_RAW_DATA_INCOMPLETE \<Longrightarrow> i \<le> k"
proof (induction f p i rule: extract_loop.induct)
  case (1 f p i)
  show ?case
    using 1(2) unfolding extract_loop.simps [of f p i]
    by (auto split: if_splits option.splits unit_result.splits dest!: 1(1) simp: 1(3))
qed

lemma extract_loop_new_frame:
  assumes "extract_loop f p i = Some (New_frame, f', k)" "fresh f"
  shows "i < k"
  using assms fresh_extract_data_unit [OF assms(2), of p]
  unfolding extract_loop.simps [of f p i]
  by (auto split: if_splits option.splits unit_result.splits dest!: extract_loop_position)

lemma extract_data_units_shorter:
  assumes "extract_data_units f src = Some (New_frame, f', rest)"
  shows "length rest \<le> length src" "fresh f \<Longrightarrow> length rest < length src"
  using assms extract_loop_new_frame [of f src 0]
  by (auto simp: extract_data_units_def split: if_splits)

lemma fresh_reset_frame [simp]: "fresh (reset_frame f)"
  by (simp add: fresh_def reset_frame_def)

text \<open>The results are those of the function, the context, the bytes left and the state of the callback.\<close>

type_synonym 's dvb_callback = "('s \<Rightarrow> vbi_sliced list \<Rightarrow> u64 \<Rightarrow> bool \<times> 's) option"

definition begin_frame :: "vbi_dvb_demux \<Rightarrow> vbi_dvb_demux" where
  "begin_frame dx =
     (if new_frame dx then dx\<lparr>frame := reset_frame (frame dx), frame_pts := packet_pts dx, new_frame := False\<rparr> else dx)"

definition output_lines :: "vbi_dvb_demux \<Rightarrow> vbi_sliced list" where
  "output_lines dx = take (sp (frame dx)) (the (sliced_begin (frame dx)))"

function demux_pes_packet_frame ::
  "'s dvb_callback \<Rightarrow> vbi_dvb_demux \<Rightarrow> u8 list \<Rightarrow> 's \<Rightarrow> (packet_result \<times> vbi_dvb_demux \<times> u8 list \<times> 's) option" where
  "demux_pes_packet_frame cb dx src s =
     (case extract_data_units (frame (begin_frame dx)) src of
        None \<Rightarrow> None
      | Some (Success, f, src) \<Rightarrow> Some (Packet_done, (begin_frame dx)\<lparr>frame := f\<rparr>, src, s)
      | Some (Failure e, f, src) \<Rightarrow> Some (Packet_error e, (begin_frame dx)\<lparr>frame := f\<rparr>, src, s)
      | Some (New_frame, f, src') \<Rightarrow>
          let dx' = (begin_frame dx)\<lparr>frame := f, new_frame := True\<rparr> in
          case cb of
            None \<Rightarrow> Some (Packet_callback, dx', src', s)
          | Some call \<Rightarrow>
              let (continue, s) = call s (output_lines dx') (frame_pts dx') in
              if \<not> continue then Some (Packet_callback, dx', src', s)
              else demux_pes_packet_frame cb dx' src' s)"
  by pat_completeness auto
termination
  by (relation "measure (\<lambda>(cb, dx, src, s). 2 * length src + (if new_frame dx then 0 else 1))")
    (auto simp: begin_frame_def dest: extract_data_units_shorter split: if_splits)

declare demux_pes_packet_frame.simps [simp del]

text \<open>The part of the context that the extraction of data units leaves alone.\<close>

definition packet_context ::
  "vbi_dvb_demux \<Rightarrow> wrap \<times> wrap \<times> u64 \<times> bool \<times> u8 list \<times> u8 list \<times> nat \<times> int \<times> nat \<times> packet_fn" where
  "packet_context dx = (pes_wrap dx, ts_wrap dx, packet_pts dx, ts_in_sync dx, ts_frame dx, ts_pes dx, ts_pes_todo dx,
     ts_continuity dx, ts_pid dx, demux_packet dx)"

lemma packet_context_eq:
  assumes "packet_context dx' = packet_context dx"
  shows "pes_wrap dx' = pes_wrap dx" "ts_wrap dx' = ts_wrap dx" "packet_pts dx' = packet_pts dx" "ts_in_sync dx' = ts_in_sync dx"
    "ts_frame dx' = ts_frame dx" "ts_pes dx' = ts_pes dx" "ts_pes_todo dx' = ts_pes_todo dx"
    "ts_continuity dx' = ts_continuity dx" "ts_pid dx' = ts_pid dx" "demux_packet dx' = demux_packet dx"
  using assms by (simp_all add: packet_context_def)

lemma packet_context_update [simp]:
  "packet_context (dx\<lparr>frame := f\<rparr>) = packet_context dx" "packet_context (dx\<lparr>new_frame := b\<rparr>) = packet_context dx"
  "packet_context (begin_frame dx) = packet_context dx"
  by (simp_all add: packet_context_def begin_frame_def)

lemma demux_pes_packet_frame_context:
  "demux_pes_packet_frame cb dx src s = Some (err, dx', rest, s') \<Longrightarrow> packet_context dx' = packet_context dx"
proof (induction cb dx src s rule: demux_pes_packet_frame.induct)
  case (1 cb dx src s)
  from 1(2) show ?case unfolding demux_pes_packet_frame.simps [of cb dx src s]
    by (auto split: option.splits demux_result.splits prod.splits if_splits dest!: 1(1) simp: Let_def)
qed

lemma wrap_around_progress:
  assumes "wrap_around w src i = (Some (p, n), w', i')"
  shows "lookahead w' = lookahead w" "skip w' = 0"
    "leftover w' + (length src - i') + skip w = leftover w + (length src - i)"
  using assms
  by (auto simp: wrap_around_def wrap_data_def skip_bytes_def Let_def split: if_splits)

lemma wrap_around_measure:
  assumes "(Some pn, w', i') = wrap_around w src i"
  shows "2 * (leftover w' + (length src - i')) < 2 * (leftover w + (length src - i)) + (if skip w = 0 then 1 else 0)"
  using wrap_around_progress [of w src i "fst pn" "snd pn" w' i'] assms [symmetric] by auto

lemma scan_start_code_positive: "scan_start_code p n k = r \<Longrightarrow> r = Scan_more m \<or> r = Scan_other m \<Longrightarrow> k < m"
proof (induction p n k rule: scan_start_code.induct)
  case (1 p n k)
  note [simp del] = scan_start_code.simps
  from 1(3,4) show ?case unfolding scan_start_code.simps [of p n k]
    by (cases "start_code_at p k") (auto split: if_splits dest!: 1(1,2))
qed

text \<open>The header check asks for at least one byte to be skipped, so the coroutine below ends.\<close>

lemma valid_header_wrap: "valid_vbi_pes_packet_header dx p = (b, dx') \<Longrightarrow> pes_wrap dx' = pes_wrap dx"
  by (auto simp: valid_vbi_pes_packet_header_def Let_def split: if_splits)

lemma demux_pes_header_wrap:
  "skip (pes_wrap (demux_pes_header dx p n)) \<noteq> 0" "leftover (pes_wrap (demux_pes_header dx p n)) = leftover (pes_wrap dx)"
  "buffer (pes_wrap (demux_pes_header dx p n)) = buffer (pes_wrap dx)"
  using scan_start_code_positive [of p n 0]
  by (auto simp: demux_pes_header_def pes_header_result_def set_skip_def Let_def split: scan_result.splits prod.splits dest!: valid_header_wrap)

text \<open>The coroutine. \<open>i\<close> is the position in the source; the position after the last byte read is a part of the
  result. The test for an error below zero after \<^const>\<open>demux_pes_packet_frame\<close> is left out, the function returns
  none.\<close>

function demux_pes_loop ::
  "'s dvb_callback \<Rightarrow> vbi_dvb_demux \<Rightarrow> u8 list \<Rightarrow> nat \<Rightarrow> 's \<Rightarrow> (packet_result \<times> vbi_dvb_demux \<times> nat \<times> 's) option" where
  "demux_pes_loop cb dx src i s =
     (case wrap_around (pes_wrap dx) src i of
        (None, w, i) \<Rightarrow> Some (Packet_done, dx\<lparr>pes_wrap := w\<rparr>, i, s)
      | (Some (p, n), w, i) \<Rightarrow>
          let dx = dx\<lparr>pes_wrap := w\<rparr> in
          if lookahead w > PES_HEADER_LOOKAHEAD then
            case demux_pes_packet_frame cb (dx\<lparr>frame := (frame dx)\<lparr>n_data_units := 0\<rparr>\<rparr>) (take (lookahead w) p) s of
              None \<Rightarrow> None
            | Some (err, dx, _, s) \<Rightarrow>
                if err = Packet_callback then Some (Packet_callback, dx, i, s)
                else demux_pes_loop cb (dx\<lparr>pes_wrap := w\<lparr>skip := lookahead w, lookahead := PES_HEADER_LOOKAHEAD\<rparr>\<rparr>) src i s
          else demux_pes_loop cb (demux_pes_header dx p n) src i s)"
  by pat_completeness auto
termination
proof (relation "measure (\<lambda>(cb, dx, src, i, s).
    2 * (leftover (pes_wrap dx) + (length src - i)) + (if skip (pes_wrap dx) = 0 then 1 else 0))")
qed (auto simp: demux_pes_header_wrap dest: wrap_around_measure split: if_splits)

declare demux_pes_loop.simps [simp del]

definition demux_pes_packet ::
  "'s dvb_callback \<Rightarrow> vbi_dvb_demux \<Rightarrow> u8 list \<Rightarrow> 's \<Rightarrow> (packet_result \<times> vbi_dvb_demux \<times> u8 list \<times> 's) option" where
  "demux_pes_packet cb dx src s = map_option (\<lambda>(err, dx, i, s). (err, dx, drop i src, s)) (demux_pes_loop cb dx src 0 s)"

end
