(* ===== verification/Dvb_Ts.thy ===== *)
theory Dvb_Ts
  imports Dvb_Demux
begin

text \<open>The demultiplexer of transport streams (TS) and the interface of the DVB demultiplexer, the last part of
  dvb_demux.c. The source is the list of the bytes left; \<open>ts_frame\<close> are the bytes between \<^verbatim>\<open>ts_frame_bp\<close> and
  the end of the data units, \<open>ts_pes\<close> those in \<^verbatim>\<open>pes_buffer\<close> before \<^verbatim>\<open>ts_pes_bp\<close>.\<close>

unbundle bit_operations_syntax

subsection \<open>The steps of one iteration\<close>

text \<open>A step goes on with the next step, with the next iteration, or returns.\<close>

datatype 's ts_result =
    Go vbi_dvb_demux "u8 list" 's
  | Again vbi_dvb_demux "u8 list" 's
  | Return packet_result vbi_dvb_demux "u8 list" 's

text \<open>Payload is copied from the source to the PES packet, and when it is complete its header checked.\<close>

definition ts_consume :: "vbi_dvb_demux \<Rightarrow> u8 list \<Rightarrow> 's \<Rightarrow> 's ts_result" where
  "ts_consume dx src s =
     (let w = ts_wrap dx; n = consume w in
      if n > 0 then
        if n > length src then
          Return Packet_done
            (dx\<lparr>ts_pes := ts_pes dx @ src, ts_pes_todo := ts_pes_todo dx - length src,
                ts_wrap := w\<lparr>consume := n - length src\<rparr>\<rparr>) [] s
        else
          let dx = dx\<lparr>ts_pes := ts_pes dx @ take n src, ts_pes_todo := ts_pes_todo dx - n, ts_wrap := w\<lparr>consume := 0\<rparr>\<rparr>;
              src = drop n src in
          if 0 = ts_pes_todo dx then
            let (valid, dx) = valid_vbi_pes_packet_header dx (ts_pes dx) in
            if \<not> valid then Again (dx\<lparr>new_frame := True, ts_frame := []\<rparr>) src s
            else Go (dx\<lparr>ts_frame := drop 46 (ts_pes dx), frame := (frame dx)\<lparr>n_data_units := 0\<rparr>\<rparr>) src s
          else Go dx src s
      else Go dx src s)"

definition ts_extract :: "'s dvb_callback \<Rightarrow> vbi_dvb_demux \<Rightarrow> u8 list \<Rightarrow> 's \<Rightarrow> 's ts_result option" where
  "ts_extract cb dx src s =
     (if ts_frame dx = [] then Some (Go dx src s)
      else
        case demux_pes_packet_frame cb dx (ts_frame dx) s of
          None \<Rightarrow> None
        | Some (err, dx, rest, s) \<Rightarrow>
            if err = Packet_callback then Some (Return err (dx\<lparr>ts_frame := rest\<rparr>) src s)
            else if err \<noteq> Packet_done then Some (Go (dx\<lparr>new_frame := True, ts_frame := []\<rparr>) src s)
            else Some (Go (dx\<lparr>ts_frame := rest\<rparr>) src s))"

definition ts_skip :: "vbi_dvb_demux \<Rightarrow> u8 list \<Rightarrow> 's \<Rightarrow> 's ts_result" where
  "ts_skip dx src s =
     (let w = ts_wrap dx in
      if skip w > length src then Return Packet_done (dx\<lparr>ts_wrap := w\<lparr>skip := skip w - length src\<rparr>\<rparr>) [] s
      else Go (dx\<lparr>ts_wrap := w\<lparr>skip := 0\<rparr>\<rparr>) (drop (skip w) src) s)"

definition ts_look_ahead :: "vbi_dvb_demux \<Rightarrow> u8 list \<Rightarrow> 's \<Rightarrow> 's ts_result" where
  "ts_look_ahead dx src s =
     (let w = ts_wrap dx in
      if lookahead w > length src then
        Return Packet_done
          (dx\<lparr>ts_wrap := w\<lparr>buffer := buffer w @ src, lookahead := lookahead w - length src\<rparr>\<rparr>) [] s
      else Go (dx\<lparr>ts_wrap := w\<lparr>buffer := buffer w @ take (lookahead w) src\<rparr>\<rparr>) (drop (lookahead w) src) s)"

text \<open>The search for a sync byte gives the position of the packet in the buffer.\<close>

definition ts_sync_at :: "u8 list \<Rightarrow> nat \<Rightarrow> bool" where
  "ts_sync_at b k \<longleftrightarrow> 0x47 = b ! k \<and>
     (k + 188 < length b \<and> 0x47 = b ! (k + 188)
      \<or> k + 7 < length b \<and> 0 = b ! (k + 4) OR b ! (k + 5) \<and> 1 = b ! (k + 6) \<and> PRIVATE_STREAM_1 = b ! (k + 7))"

text \<open>The step finds the packet, or asks for more data. Its other result are the bytes from the sync byte on.\<close>

definition ts_synchronize :: "vbi_dvb_demux \<Rightarrow> (vbi_dvb_demux \<times> u8 list option) option" where
  "ts_synchronize dx =
     (let w = ts_wrap dx; b = buffer w; avail = length b in
      if ts_in_sync dx then
        if avail < TS_HEADER_LOOKAHEAD then None
        else if 0x47 \<noteq> b ! 0 then
          Some (dx\<lparr>ts_in_sync := False, new_frame := True, ts_pes_todo := 0, ts_continuity := - 1,
                   ts_wrap := w\<lparr>consume := 0, lookahead := TS_SYNC_SEARCH_LOOKAHEAD - avail\<rparr>\<rparr>, None)
        else Some (dx, Some b)
      else if avail < TS_SYNC_SEARCH_LOOKAHEAD then None
      else
        case find (ts_sync_at b) [0..<188] of
          None \<Rightarrow>
            Some (dx\<lparr>ts_wrap := w\<lparr>buffer := drop 188 b, lookahead := TS_SYNC_SEARCH_LOOKAHEAD - (avail - 188)\<rparr>\<rparr>, None)
        | Some k \<Rightarrow> Some (dx\<lparr>ts_in_sync := True\<rparr>, Some (drop k b)))"

text \<open>What follows \<^verbatim>\<open>skip_ts_packet\<close> and \<^verbatim>\<open>skip_ts_pes_packet\<close>. \<open>p\<close> are the bytes from the sync byte on.\<close>

definition next_ts_header :: "u8 list \<Rightarrow> wrap \<Rightarrow> wrap" where
  "next_ts_header p w =
     w\<lparr>buffer := drop 188 p, lookahead := TS_HEADER_LOOKAHEAD - min (length p - 188) TS_HEADER_LOOKAHEAD\<rparr>"

definition skip_ts_packet :: "u8 list \<Rightarrow> vbi_dvb_demux \<Rightarrow> vbi_dvb_demux" where
  "skip_ts_packet p dx =
     (let w = ts_wrap dx in
      dx\<lparr>ts_wrap := (if length p \<le> 188 then w\<lparr>skip := 188 - length p, buffer := [], lookahead := TS_HEADER_LOOKAHEAD\<rparr>
                     else next_ts_header p w)\<rparr>)"

definition skip_ts_pes_packet :: "u8 list \<Rightarrow> vbi_dvb_demux \<Rightarrow> vbi_dvb_demux" where
  "skip_ts_pes_packet p dx =
     skip_ts_packet p (dx\<lparr>new_frame := True, ts_pes_todo := 0, ts_wrap := (ts_wrap dx)\<lparr>consume := 0\<rparr>\<rparr>)"

definition ts_payload :: "u8 list \<Rightarrow> vbi_dvb_demux \<Rightarrow> vbi_dvb_demux" where
  "ts_payload p dx =
     (let w = ts_wrap dx; avail = length p; n = min (ts_pes_todo dx) 184;
          fragment = (if avail \<le> 188 then min (avail - 4) n else n);
          dx = dx\<lparr>ts_pes := ts_pes dx @ take fragment (drop 4 p), ts_pes_todo := ts_pes_todo dx - fragment\<rparr> in
      if avail \<le> 188
      then dx\<lparr>ts_wrap := w\<lparr>consume := n - fragment, buffer := [], lookahead := TS_HEADER_LOOKAHEAD\<rparr>\<rparr>
      else dx\<lparr>ts_wrap := next_ts_header p w\<rparr>)"

definition ts_packet :: "u8 list \<Rightarrow> vbi_dvb_demux \<Rightarrow> vbi_dvb_demux" where
  "ts_packet p dx =
     (let b1 = p ! 1; b3 = p ! 3; pid = (unat b1 * 256 + unat (p ! 2)) mod 0x2000; c3 = uint b3 in
      if 0 \<noteq> b1 AND 0x80 then skip_ts_pes_packet p dx
      else if pid \<noteq> ts_pid dx then skip_ts_packet p dx
      else if 0 \<noteq> b3 AND 0xC0 then skip_ts_pes_packet p dx
      else if 0x20 = b3 AND 0x30 then skip_ts_packet p dx
      else if 0x10 \<noteq> b3 AND 0x30 then skip_ts_pes_packet p dx
      else if 0 \<noteq> (ts_continuity dx XOR c3) AND 0x0F \<and> ts_continuity dx \<ge> 0 then
        if 0 = ((ts_continuity dx - 1) XOR c3) AND 0x0F then skip_ts_packet p dx
        else skip_ts_pes_packet p (dx\<lparr>ts_continuity := c3 + 1\<rparr>)
      else
        let dx = dx\<lparr>ts_continuity := c3 + 1\<rparr> in
        if 0 = ts_pes_todo dx then
          if 0 \<noteq> p ! 4 OR p ! 5 \<or> 1 \<noteq> p ! 6 \<or> PRIVATE_STREAM_1 \<noteq> p ! 7 then skip_ts_pes_packet p dx
          else if packet_length (drop 4 p) < 178 then skip_ts_pes_packet p dx
          else ts_payload p (dx\<lparr>ts_pes := [], ts_pes_todo := packet_length (drop 4 p) + 6\<rparr>)
        else if 0 \<noteq> b1 AND 0x40 then skip_ts_pes_packet p dx
        else ts_payload p dx)"

subsection \<open>The coroutine\<close>

definition ts_header :: "vbi_dvb_demux \<Rightarrow> u8 list \<Rightarrow> 's \<Rightarrow> 's ts_result option" where
  "ts_header dx src s =
     map_option (\<lambda>(dx, p). Again (case p of None \<Rightarrow> dx | Some p \<Rightarrow> ts_packet p dx) src s) (ts_synchronize dx)"

definition go_on :: "'s ts_result option \<Rightarrow> (vbi_dvb_demux \<Rightarrow> u8 list \<Rightarrow> 's \<Rightarrow> 's ts_result option) \<Rightarrow> 's ts_result option" where
  "go_on r f = (case r of Some (Go dx src s) \<Rightarrow> f dx src s | _ \<Rightarrow> r)"

definition ts_iteration :: "'s dvb_callback \<Rightarrow> vbi_dvb_demux \<Rightarrow> u8 list \<Rightarrow> 's \<Rightarrow> 's ts_result option" where
  "ts_iteration cb dx src s =
     go_on (go_on (go_on (go_on (Some (ts_consume dx src s))
       (ts_extract cb))
       (\<lambda>dx src s. Some (ts_skip dx src s)))
       (\<lambda>dx src s. Some (ts_look_ahead dx src s)))
       ts_header"

definition ts_left :: "vbi_dvb_demux \<Rightarrow> u8 list \<Rightarrow> nat" where
  "ts_left dx src = 2 * (length src + length (buffer (ts_wrap dx))) + (if ts_in_sync dx then 1 else 0)"

lemma ts_consume_left:
  "ts_consume dx src s = Go dx' src' s' \<Longrightarrow> ts_left dx' src' \<le> ts_left dx src"
  "ts_consume dx src s = Again dx' src' s' \<Longrightarrow> ts_left dx' src' < ts_left dx src"
  by (auto simp: ts_consume_def ts_left_def Let_def valid_vbi_pes_packet_header_def split: if_splits)

lemma ts_extract_left:
  "ts_extract cb dx src s = Some (Go dx' src' s') \<Longrightarrow> ts_left dx' src' = ts_left dx src"
  "ts_extract cb dx src s \<noteq> Some (Again dx' src' s')"
proof -
  assume e: "ts_extract cb dx src s = Some (Go dx' src' s')"
  show "ts_left dx' src' = ts_left dx src"
  proof (cases "ts_frame dx = []")
    case False
    then obtain err dx1 rest s1 where f: "demux_pes_packet_frame cb dx (ts_frame dx) s = Some (err, dx1, rest, s1)"
      using e by (auto simp: ts_extract_def split: option.splits)
    note packet_context_eq [OF demux_pes_packet_frame_context [OF f]]
    then show ?thesis using e f False by (auto simp: ts_extract_def ts_left_def split: if_splits)
  qed (use e in \<open>simp add: ts_extract_def\<close>)
qed (simp add: ts_extract_def split: option.split)

lemma ts_skip_left: "ts_skip dx src s = Go dx' src' s' \<Longrightarrow> ts_left dx' src' \<le> ts_left dx src"
  "ts_look_ahead dx src s = Go dx' src' s' \<Longrightarrow> ts_left dx' src' = ts_left dx src"
  "ts_skip dx src s \<noteq> Again dx' src' s'" "ts_look_ahead dx src s \<noteq> Again dx' src' s'"
  by (auto simp: ts_skip_def ts_look_ahead_def ts_left_def Let_def split: if_splits)

lemma ts_packet_left:
  assumes "10 \<le> length p" "length p \<le> length (buffer (ts_wrap dx))"
  shows "ts_left (ts_packet p dx) src + 1 < ts_left dx src"
proof -
  have l: "2 * (length src + (length p - 188)) + i + 1 < 2 * (length src + length (buffer (ts_wrap dx))) + i" for i :: nat
    using assms by simp
  have skip: "ts_left (skip_ts_packet p d) src + 1 < ts_left dx src" if "ts_in_sync d = ts_in_sync dx" for d
    using l that assms by (simp add: skip_ts_packet_def next_ts_header_def ts_left_def Let_def)
  have payload: "ts_left (ts_payload p d) src + 1 < ts_left dx src" if "ts_in_sync d = ts_in_sync dx" for d
    using l that assms by (simp add: ts_payload_def next_ts_header_def ts_left_def Let_def)
  show ?thesis using skip payload unfolding ts_packet_def skip_ts_pes_packet_def Let_def by simp
qed

lemma ts_header_left: "ts_header dx src s = Some (Again dx' src' s') \<Longrightarrow> ts_left dx' src' < ts_left dx src"
proof -
  assume "ts_header dx src s = Some (Again dx' src' s')"
  then obtain dx1 r where r: "ts_synchronize dx = Some (dx1, r)" "dx' = (case r of None \<Rightarrow> dx1 | Some p \<Rightarrow> ts_packet p dx1)"
    "src' = src" by (auto simp: ts_header_def)
  show ?thesis
  proof (cases r)
    case None
    then show ?thesis using r
      by (auto simp: ts_synchronize_def ts_left_def Let_def split: if_splits option.splits)
  next
    case (Some p)
    then have "10 \<le> length p" "length p \<le> length (buffer (ts_wrap dx1))" "ts_left dx1 src \<le> ts_left dx src + 1"
      using r(1) by (auto simp: ts_synchronize_def Let_def find_Some_iff ts_left_def split: if_splits option.splits)
    then show ?thesis using ts_packet_left [of p dx1 src] r Some by simp
  qed
qed

lemma ts_iteration_left:
  assumes "ts_iteration cb dx src s = Some (Again dx' src' s')"
  shows "ts_left dx' src' < ts_left dx src"
  using assms
  by (auto simp: ts_iteration_def go_on_def ts_extract_left(2) ts_skip_left(3,4) split: option.splits ts_result.splits
        dest!: ts_consume_left ts_extract_left(1) ts_skip_left(1,2) ts_header_left)

text \<open>\<^const>\<open>ts_header\<close> ends an iteration, so none ends with \<^const>\<open>Go\<close>.\<close>

function demux_ts_loop ::
  "'s dvb_callback \<Rightarrow> vbi_dvb_demux \<Rightarrow> u8 list \<Rightarrow> 's \<Rightarrow> (packet_result \<times> vbi_dvb_demux \<times> u8 list \<times> 's) option" where
  "demux_ts_loop cb dx src s =
     (case ts_iteration cb dx src s of
        None \<Rightarrow> None
      | Some (Return err dx src s) \<Rightarrow> Some (err, dx, src, s)
      | Some (Go dx src s) \<Rightarrow> None
      | Some (Again dx src s) \<Rightarrow> demux_ts_loop cb dx src s)"
  by pat_completeness auto
termination
  by (relation "measure (\<lambda>(cb, dx, src, s). ts_left dx src)") (auto simp: ts_iteration_left)

declare demux_ts_loop.simps [simp del]

definition demux_ts_packet ::
  "'s dvb_callback \<Rightarrow> vbi_dvb_demux \<Rightarrow> u8 list \<Rightarrow> 's \<Rightarrow> (packet_result \<times> vbi_dvb_demux \<times> u8 list \<times> 's) option" where
  "demux_ts_packet cb dx src s = (if src = [] then Some (Packet_done, dx, src, s) else demux_ts_loop cb dx src s)"

subsection \<open>The interface\<close>

definition demux_packet_fn ::
  "'s dvb_callback \<Rightarrow> vbi_dvb_demux \<Rightarrow> u8 list \<Rightarrow> 's \<Rightarrow> (packet_result \<times> vbi_dvb_demux \<times> u8 list \<times> 's) option" where
  "demux_packet_fn cb dx src s =
     (case demux_packet dx of demux_pes \<Rightarrow> demux_pes_packet cb dx src s | demux_ts \<Rightarrow> demux_ts_packet cb dx src s)"

text \<open>The coroutine is for a demultiplexer without callback. The results are the number of lines, the lines (and
  the time stamp when there is a frame), the context and the bytes left.\<close>

definition vbi_dvb_demux_cor ::
  "vbi_dvb_demux \<Rightarrow> nat \<Rightarrow> u8 list \<Rightarrow> (vbi_sliced list \<times> u64 option \<times> vbi_dvb_demux \<times> u8 list) option" where
  "vbi_dvb_demux_cor dx max_lines src =
     (case demux_packet_fn None dx src () of
        None \<Rightarrow> None
      | Some (err, dx, src, _) \<Rightarrow>
          if err \<noteq> Packet_done then
            let lines = take max_lines (output_lines dx) in
            Some (lines, Some (frame_pts dx), if lines = [] then dx else dx\<lparr>frame := (frame dx)\<lparr>sp := 0\<rparr>\<rparr>, src)
          else Some ([], None, dx, src))"

definition vbi_dvb_demux_feed ::
  "('s \<Rightarrow> vbi_sliced list \<Rightarrow> u64 \<Rightarrow> bool \<times> 's) \<Rightarrow> vbi_dvb_demux \<Rightarrow> u8 list \<Rightarrow> 's \<Rightarrow> (bool \<times> vbi_dvb_demux \<times> 's) option" where
  "vbi_dvb_demux_feed cb dx src s = map_option (\<lambda>(err, dx, src, s). (err = Packet_done, dx, s)) (demux_packet_fn (Some cb) dx src s)"

end
