(* ===== verification/Dvb_Stream.thy ===== *)
theory Dvb_Stream
  imports Dvb_Ts
begin

text \<open>The PES demultiplexer as a function on the whole stream. \<open>pes_stream\<close> is its specification: it sees all bytes
  that are not consumed yet and looks at one position at a time. The coroutine of dvb_demux.c refines it whatever
  the size of the pieces in which the stream arrives.\<close>

unbundle bit_operations_syntax

subsection \<open>Wrap-around of a stream\<close>

text \<open>\<open>h\<close> are the bytes before the source. The bytes left over are the last ones read, and they are in the buffer.\<close>

definition wrap_ok :: "u8 list \<Rightarrow> wrap \<Rightarrow> bool" where
  "wrap_ok h w \<longleftrightarrow> leftover w \<le> length (buffer w) \<and> (\<exists>h'. h = h' @ pending_bytes w)"

text \<open>The bytes that are not consumed.\<close>

definition unread :: "wrap \<Rightarrow> u8 list \<Rightarrow> nat \<Rightarrow> u8 list" where
  "unread w src i = pending_bytes w @ drop i src"

lemma length_pending [simp]: "leftover w \<le> length (buffer w) \<Longrightarrow> length (pending_bytes w) = leftover w"
  by (simp add: pending_bytes_def)

lemma wrap_ok_window:
  assumes "wrap_ok (h @ take i src) w" "leftover w \<le> i" "i \<le> length src"
  shows "drop (i - leftover w) src = unread w src i"
proof -
  from assms(1) obtain h' where h: "h @ take i src = h' @ pending_bytes w" and l: "leftover w \<le> length (buffer w)"
    unfolding wrap_ok_def by blast
  have "pending_bytes w = drop (length (h @ take i src) - leftover w) (h @ take i src)"
    unfolding h using l by simp
  also have "\<dots> = drop (i - leftover w) (take i src)" using assms(2,3) by simp
  finally have p: "pending_bytes w = drop (i - leftover w) (take i src)" .
  have "drop (i - leftover w) src = drop (i - leftover w) (take i src @ drop i src)" by simp
  also have "\<dots> = pending_bytes w @ drop i src" unfolding drop_append p using assms(2,3) by simp
  finally show ?thesis by (simp add: unread_def)
qed

lemma skip_bytes_stream:
  assumes "wrap_ok (h @ take i src) w" "i \<le> length src" "skip_bytes w (length src) i = (ok, w', i')"
  shows "if ok then skip w \<le> length (unread w src i) \<and> unread w' src i' = drop (skip w) (unread w src i) \<and> skip w' = 0
      \<and> i' \<le> length src \<and> wrap_ok (h @ take i' src) w'
    else i' = length src \<and> length (unread w src i) < skip w \<and> skip w' = skip w - length (unread w src i) \<and> leftover w' = 0"
    "lookahead w' = lookahead w" "consume w' = consume w"
proof -
  from assms(1) obtain h' where h: "h @ take i src = h' @ pending_bytes w" and l: "leftover w \<le> length (buffer w)"
    unfolding wrap_ok_def by blast
  show "lookahead w' = lookahead w" "consume w' = consume w"
    using assms(3) by (auto simp: skip_bytes_def Let_def split: if_splits)
  show "if ok then skip w \<le> length (unread w src i) \<and> unread w' src i' = drop (skip w) (unread w src i) \<and> skip w' = 0
      \<and> i' \<le> length src \<and> wrap_ok (h @ take i' src) w'
    else i' = length src \<and> length (unread w src i) < skip w \<and> skip w' = skip w - length (unread w src i) \<and> leftover w' = 0"
  proof (cases "skip w > leftover w")
    case True
    then show ?thesis using assms(2,3) l
      by (auto simp: skip_bytes_def Let_def unread_def pending_bytes_def wrap_ok_def add.commute split: if_splits)
  next
    case False
    then have p: "pending_bytes (w\<lparr>leftover := leftover w - skip w, skip := 0\<rparr>) = drop (skip w) (pending_bytes w)"
      using l by (simp add: pending_bytes_def add.commute)
    have "h @ take i src = (h' @ take (skip w) (pending_bytes w)) @ drop (skip w) (pending_bytes w)" by (simp add: h)
    then have "\<exists>h'. h @ take i src = h' @ drop (skip w) (pending_bytes w)" by (rule exI)
    then show ?thesis using False assms(2,3) l p by (auto simp: skip_bytes_def unread_def wrap_ok_def)
  qed
qed

lemma wrap_data_stream:
  assumes "wrap_ok (h @ take i src) w" "i \<le> length src" "wrap_data w src i = (r, w', i')"
  shows "case r of
      None \<Rightarrow> i' = length src \<and> pending_bytes w' = unread w src i \<and> length (unread w src i) < lookahead w
    | Some (p, n) \<Rightarrow> i' \<le> length src \<and> unread w' src i' = unread w src i \<and> length p = n + lookahead w
        \<and> (\<exists>t. unread w src i = p @ t)"
    "wrap_ok (h @ take i' src) w'" "lookahead w' = lookahead w" "skip w' = skip w" "consume w' = consume w"
proof -
  from assms(1) obtain h' where h: "h @ take i src = h' @ pending_bytes w" and l: "leftover w \<le> length (buffer w)"
    unfolding wrap_ok_def by blast
  let ?left = "length src - i" and ?n = "lookahead w - leftover w"
  let ?C = "(case r of
      None \<Rightarrow> i' = length src \<and> pending_bytes w' = unread w src i \<and> length (unread w src i) < lookahead w
    | Some (p, n) \<Rightarrow> i' \<le> length src \<and> unread w' src i' = unread w src i \<and> length p = n + lookahead w
        \<and> (\<exists>t. unread w src i = p @ t)) \<and> wrap_ok (h @ take i' src) w'"
  show "lookahead w' = lookahead w" "skip w' = skip w" "consume w' = consume w"
    using assms(3) by (auto simp: wrap_data_def Let_def split: if_splits)
  consider (window) "\<not> (lookahead w > leftover w + ?left \<or> leftover w + ?left > length src)"
    | (kept) "lookahead w > leftover w + ?left \<or> leftover w + ?left > length src" "\<not> lookahead w > leftover w"
    | (short) "lookahead w > leftover w + ?left \<or> leftover w + ?left > length src" "lookahead w > leftover w" "?n > ?left"
    | (copied) "lookahead w > leftover w + ?left \<or> leftover w + ?left > length src" "lookahead w > leftover w" "\<not> ?n > ?left"
    by blast
  then have ?C
  proof cases
    case window
    then have "leftover w \<le> i" using assms(2) by linarith
    then show ?thesis using wrap_ok_window [OF assms(1) _ assms(2)] assms window l
      by (auto simp: wrap_data_def Let_def unread_def)
  next
    case kept
    then show ?thesis using assms l by (auto simp: wrap_data_def Let_def unread_def)
  next
    case short
    then have r: "r = None" "i' = length src" "w' = w\<lparr>buffer := unread w src i, leftover := leftover w + ?left\<rparr>"
      using assms(3) by (auto simp: wrap_data_def Let_def unread_def split: if_splits)
    have len: "length (unread w src i) = leftover w + ?left" using l by (simp add: unread_def)
    have p: "pending_bytes w' = unread w src i" unfolding r(3) using len by (simp add: pending_bytes_def)
    have "h @ src = (h @ take i src) @ drop i src" by simp
    then have "h @ src = h' @ unread w src i" unfolding h unread_def by simp
    then show ?thesis using r p len short by (auto simp: wrap_ok_def)
  next
    case copied
    let ?b = "pending_bytes w @ take ?n (drop i src)"
    have r: "r = Some (?b, length ?b - lookahead w)" "i' = i + ?n" "w' = w\<lparr>buffer := ?b, leftover := lookahead w\<rparr>"
      using assms(3) copied by (auto simp: wrap_data_def Let_def split: if_splits)
    have len: "length ?b = lookahead w" using l copied by simp
    have p: "pending_bytes w' = ?b" unfolding r(3) using len by (simp add: pending_bytes_def)
    have "drop i' src = drop ?n (drop i src)" unfolding r(2) by (simp add: add.commute)
    then have u: "unread w src i = ?b @ drop i' src"
      unfolding unread_def by (simp only: append_assoc append_take_drop_id)
    have "h @ take i' src = (h @ take i src) @ take ?n (drop i src)" unfolding r(2) by (simp add: take_add)
    then have "h @ take i' src = h' @ ?b" unfolding h by simp
    then show ?thesis using r p len u copied assms(2) by (auto simp: wrap_ok_def unread_def)
  qed
  then show "case r of
      None \<Rightarrow> i' = length src \<and> pending_bytes w' = unread w src i \<and> length (unread w src i) < lookahead w
    | Some (p, n) \<Rightarrow> i' \<le> length src \<and> unread w' src i' = unread w src i \<and> length p = n + lookahead w
        \<and> (\<exists>t. unread w src i = p @ t)" "wrap_ok (h @ take i' src) w'" by blast+
qed

lemma wrap_around_stream:
  assumes "wrap_ok (h @ take i src) w" "i \<le> length src" "wrap_around w src i = (r, w', i')"
  shows "(case r of
      None \<Rightarrow> i' = length src \<and>
        (if skip w > length (unread w src i) then skip w' = skip w - length (unread w src i) \<and> pending_bytes w' = []
         else skip w' = 0 \<and> pending_bytes w' = drop (skip w) (unread w src i)
           \<and> length (drop (skip w) (unread w src i)) < lookahead w)
    | Some (p, n) \<Rightarrow> skip w \<le> length (unread w src i) \<and> skip w' = 0 \<and> i' \<le> length src
        \<and> unread w' src i' = drop (skip w) (unread w src i) \<and> length p = n + lookahead w
        \<and> (\<exists>t. drop (skip w) (unread w src i) = p @ t))
    \<and> wrap_ok (h @ take i' src) w' \<and> lookahead w' = lookahead w \<and> consume w' = consume w"
proof -
  obtain ok w1 i1 where sk: "skip_bytes w (length src) i = (ok, w1, i1)" by (rule prod_cases3)
  note s = skip_bytes_stream [OF assms(1,2) sk]
  show ?thesis
  proof (cases ok)
    case False
    then have "wrap_around w src i = (None, w1, i1)" by (simp add: wrap_around_def sk)
    then show ?thesis using False s assms(3) by (simp add: pending_bytes_def wrap_ok_def)
  next
    case True
    then have "wrap_data w1 src i1 = (r, w', i')" using assms(3) by (simp add: wrap_around_def sk)
    note d = wrap_data_stream [OF _ _ this]
    show ?thesis using True s d [of h] by (cases r) auto
  qed
qed

subsection \<open>The specification\<close>

text \<open>A context whose buffer holds the unread bytes of the stream.\<close>

definition with_unread :: "u8 list \<Rightarrow> vbi_dvb_demux \<Rightarrow> vbi_dvb_demux" where
  "with_unread S dx = dx\<lparr>pes_wrap := (pes_wrap dx)\<lparr>buffer := S, leftover := length S\<rparr>\<rparr>"

function pes_stream ::
  "'s dvb_callback \<Rightarrow> vbi_dvb_demux \<Rightarrow> u8 list \<Rightarrow> 's \<Rightarrow> (packet_result \<times> vbi_dvb_demux \<times> 's) option" where
  "pes_stream cb dx S s =
     (let k = skip (pes_wrap dx); n = lookahead (pes_wrap dx); dx = set_skip 0 (with_unread [] dx) in
      if k > length S then Some (Packet_done, with_unread [] (set_skip (k - length S) dx), s)
      else
        let S = drop k S in
        if n > length S then Some (Packet_done, with_unread S dx, s)
        else if n > PES_HEADER_LOOKAHEAD then
          case demux_pes_packet_frame cb (dx\<lparr>frame := (frame dx)\<lparr>n_data_units := 0\<rparr>\<rparr>) (take n S) s of
            None \<Rightarrow> None
          | Some (err, dx, _, s) \<Rightarrow>
              if err = Packet_callback then Some (Packet_callback, with_unread S dx, s)
              else pes_stream cb (dx\<lparr>pes_wrap := (pes_wrap dx)\<lparr>skip := n, lookahead := PES_HEADER_LOOKAHEAD\<rparr>\<rparr>) S s
        else pes_stream cb (demux_pes_header dx S 0) S s)"
  by pat_completeness auto
termination
proof (relation "measure (\<lambda>(cb, dx, S, s). 2 * length S + (if skip (pes_wrap dx) = 0 then 1 else 0))")
qed (auto simp: demux_pes_header_wrap)

declare pes_stream.simps [simp del]

text \<open>Only the erased context matters.\<close>

lemma context_simps [simp]:
  "skip (pes_wrap (set_skip k dx)) = k" "lookahead (pes_wrap (set_skip k dx)) = lookahead (pes_wrap dx)"
  "skip (pes_wrap (with_unread S dx)) = skip (pes_wrap dx)"
  "lookahead (pes_wrap (with_unread S dx)) = lookahead (pes_wrap dx)"
  "set_skip k (set_skip j dx) = set_skip k dx" "with_unread S (with_unread T dx) = with_unread S dx"
  "with_unread S (set_skip k dx) = set_skip k (with_unread S dx)" "frame (set_skip k dx) = frame dx"
  "buffer (pes_wrap (set_skip k dx)) = buffer (pes_wrap dx)" "buffer (pes_wrap (with_unread S dx)) = S"
  "frame (with_unread S dx) = frame dx" "new_frame (with_unread S dx) = new_frame dx" "new_frame (set_skip k dx) = new_frame dx"
  by (simp_all add: set_skip_def with_unread_def)

lemma pes_stream_erase:
  assumes "with_unread [] dx = with_unread [] dy"
  shows "pes_stream cb dx S s = pes_stream cb dy S s"
proof -
  have "skip (pes_wrap dx) = skip (pes_wrap dy)" "lookahead (pes_wrap dx) = lookahead (pes_wrap dy)"
    using arg_cong [OF assms, of "\<lambda>dx. skip (pes_wrap dx)"] arg_cong [OF assms, of "\<lambda>dx. lookahead (pes_wrap dx)"]
    by simp_all
  then show ?thesis unfolding pes_stream.simps [of cb dx] pes_stream.simps [of cb dy] assms by simp
qed

lemma pes_stream_shift:
  assumes "a \<le> length S"
  shows "pes_stream cb dx (drop a S) s = pes_stream cb (set_skip (a + skip (pes_wrap dx)) dx) S s"
proof -
  have "drop (skip (pes_wrap dx)) (drop a S) = drop (a + skip (pes_wrap dx)) S" by (simp add: add.commute)
  moreover have "skip (pes_wrap dx) > length (drop a S) \<longleftrightarrow> a + skip (pes_wrap dx) > length S"
    "skip (pes_wrap dx) - length (drop a S) = a + skip (pes_wrap dx) - length S" using assms by auto
  ultimately show ?thesis unfolding pes_stream.simps [of cb dx] pes_stream.simps [of cb "set_skip _ dx"] by (simp add: Let_def)
qed

lemma demux_pes_packet_frame_wrap:
  "demux_pes_packet_frame cb (dx\<lparr>pes_wrap := w\<rparr>) src s =
     map_option (\<lambda>(err, dx, src, s). (err, dx\<lparr>pes_wrap := w\<rparr>, src, s)) (demux_pes_packet_frame cb dx src s)"
proof (induction cb dx src s rule: demux_pes_packet_frame.induct)
  case (1 cb dx src s)
  have b: "begin_frame (dx\<lparr>pes_wrap := w\<rparr>) = (begin_frame dx)\<lparr>pes_wrap := w\<rparr>" by (simp add: begin_frame_def)
  note e = demux_pes_packet_frame.simps [of cb dx] demux_pes_packet_frame.simps [of cb "dx\<lparr>pes_wrap := w\<rparr>"] b
  have fr: "frame ((begin_frame dx)\<lparr>pes_wrap := w\<rparr>) = frame (begin_frame dx)" by simp
  consider (new) f rest where "extract_data_units (frame (begin_frame dx)) src = Some (New_frame, f, rest)"
    | (other) "\<forall>f rest. extract_data_units (frame (begin_frame dx)) src \<noteq> Some (New_frame, f, rest)" by blast
  then show ?case
  proof cases
    case (new f rest)
    let ?dx = "(begin_frame dx)\<lparr>frame := f, new_frame := True\<rparr>"
    have w: "(begin_frame dx)\<lparr>pes_wrap := w\<rparr>\<lparr>frame := f, new_frame := True\<rparr> = ?dx\<lparr>pes_wrap := w\<rparr>" by simp
    have o: "output_lines (?dx\<lparr>pes_wrap := w\<rparr>) = output_lines ?dx" "frame_pts (?dx\<lparr>pes_wrap := w\<rparr>) = frame_pts ?dx"
      by (simp_all add: output_lines_def)
    show ?thesis
    proof (cases cb)
      case None
      then show ?thesis unfolding e fr new option.case prod.case demux_result.case Let_def w by simp
    next
      case (Some call)
      obtain go s' where c: "call s (output_lines ?dx) (frame_pts ?dx) = (go, s')" by (rule prod.exhaust)
      show ?thesis
        using 1(1) [OF new refl refl refl refl Some refl c [symmetric]]
        unfolding e unfolding fr new Some option.case prod.case demux_result.case Let_def w o c by simp
    qed
  next
    case other
    then show ?thesis unfolding e fr by (auto split: option.split demux_result.split)
  qed
qed

lemma valid_header_context:
  "valid_vbi_pes_packet_header (dx\<lparr>pes_wrap := w\<rparr>) p = map_prod (\<lambda>b. b) (\<lambda>dx. dx\<lparr>pes_wrap := w\<rparr>) (valid_vbi_pes_packet_header dx p)"
  by (simp add: valid_vbi_pes_packet_header_def Let_def)

text \<open>The header is within the first 48 bytes, wherever the window ends.\<close>

lemma header_bytes:
  assumes "48 \<le> length q"
  shows "start_code_at (q @ t) 0 = start_code_at q 0" "packet_length (q @ t) = packet_length q"
    "valid_vbi_pes_packet_header dx (q @ t) = valid_vbi_pes_packet_header dx q"
proof -
  have n: "(q @ t) ! j = q ! j" if "j < 48" for j using that assms by (simp add: nth_append)
  show "start_code_at (q @ t) 0 = start_code_at q 0" "packet_length (q @ t) = packet_length q"
    by (simp_all add: start_code_at_def packet_length_def n)
  have d: "decode_timestamp (drop 9 (q @ t)) = decode_timestamp (drop 9 q)"
    unfolding decode_timestamp_def using assms n by (simp del: drop_append)
  have b: "(q @ t) ! 8 = q ! 8" "(q @ t) ! (9 + 36) = q ! (9 + 36)" "(q @ t) ! 6 = q ! 6" "(q @ t) ! 7 = q ! 7"
    by (intro n, simp)+
  show "valid_vbi_pes_packet_header dx (q @ t) = valid_vbi_pes_packet_header dx q"
    unfolding valid_vbi_pes_packet_header_def d b ..
qed

lemma start_code_at_drop: "k + 48 \<le> length p \<Longrightarrow> start_code_at p k = start_code_at (drop k p) 0"
  by (simp add: start_code_at_def)

lemma pes_header_result_packet:
  assumes "valid_vbi_pes_packet_header dx (drop k p) = (valid, dx')"
  shows "pes_header_result (dx\<lparr>pes_wrap := w\<rparr>) p (Scan_packet k) =
    (if packet_length (drop k p) < 178 then dx\<lparr>pes_wrap := w\<lparr>skip := k + 6 + packet_length (drop k p)\<rparr>\<rparr>
     else if \<not> valid then dx'\<lparr>pes_wrap := w\<lparr>skip := k + 6 + packet_length (drop k p)\<rparr>\<rparr>
     else dx'\<lparr>pes_wrap := w\<lparr>skip := k + 46, lookahead := packet_length (drop k p) - 40\<rparr>\<rparr>)"
  using assms by (simp add: pes_header_result_def Let_def set_skip_def valid_header_context)

lemma pes_header_result_erase:
  "with_unread [] (pes_header_result dx p r) = pes_header_result (set_skip j (with_unread [] dx)) p r"
proof (cases r)
  case (Scan_packet k)
  obtain valid dx' where v: "valid_vbi_pes_packet_header dx (drop k p) = (valid, dx')" by (rule prod.exhaust)
  show ?thesis
    using pes_header_result_packet [OF v, of "pes_wrap dx"] pes_header_result_packet [OF v, of "pes_wrap (set_skip j (with_unread [] dx))"]
      valid_header_wrap [OF v]
    by (simp add: Scan_packet set_skip_def with_unread_def)
qed (simp_all add: pes_header_result_def set_skip_def with_unread_def)

text \<open>One position: what the specification does when its window is at the position \<open>k\<close>.\<close>

lemma scan_single:
  "scan_start_code p 0 0 = (case start_code_at p 0 of Skip3 \<Rightarrow> Scan_more 3 | Skip1 \<Rightarrow> Scan_more 1 | Vbi_stream \<Rightarrow> Scan_packet 0
     | Other_stream \<Rightarrow> Scan_other (6 + packet_length p))"
  by (subst scan_start_code.simps) (simp split: start_code.split)

lemma pes_header_result_shift:
  assumes "k + 48 \<le> length p" "r = Scan_packet 0 \<and> r' = Scan_packet k \<or> r = Scan_more j \<and> r' = Scan_more (k + j)
    \<or> r = Scan_other j \<and> r' = Scan_other (k + j)"
  shows "pes_header_result dx p r' =
    (let R = pes_header_result dx (drop k p @ t) r in set_skip (k + skip (pes_wrap R)) R)"
  using assms(2)
proof (elim disjE conjE)
  assume r: "r = Scan_packet 0" "r' = Scan_packet k"
  have q: "48 \<le> length (drop k p)" using assms(1) by simp
  obtain valid dx' where v: "valid_vbi_pes_packet_header dx (drop k p) = (valid, dx')" by (rule prod.exhaust)
  have v': "valid_vbi_pes_packet_header dx (drop 0 (drop k p @ t)) = (valid, dx')"
    using v header_bytes(3) [OF q] by simp
  show ?thesis
    using pes_header_result_packet [OF v, of "pes_wrap dx"] pes_header_result_packet [OF v', of "pes_wrap dx"]
      header_bytes(2) [OF q, of t]
    by (simp add: r Let_def set_skip_def)
qed (simp_all add: pes_header_result_def Let_def)

text \<open>The search in a window makes the steps of the specification.\<close>

lemma pes_stream_single:
  assumes "k + 48 \<le> length S" "lookahead (pes_wrap dx) = 48"
  shows "pes_stream cb (set_skip k dx) S s =
    (let R = pes_header_result dx (drop k S) (scan_start_code (drop k S) 0 0) in
     pes_stream cb (set_skip (k + skip (pes_wrap R)) R) S s)"
proof -
  let ?dx = "set_skip 0 (with_unread [] dx)" and ?S = "drop k S"
  let ?r = "scan_start_code ?S 0 0"
  let ?R = "pes_header_result dx ?S ?r" and ?E = "pes_header_result ?dx ?S ?r"
  have "48 \<le> length S - k" using assms(1) by linarith
  then have "pes_stream cb (set_skip k dx) S s = pes_stream cb ?E ?S s"
    unfolding pes_stream.simps [of cb "set_skip k dx"] using assms by (simp add: Let_def demux_pes_header_def)
  also have "\<dots> = pes_stream cb ?R ?S s"
    by (rule pes_stream_erase) (simp only: pes_header_result_erase [of _ _ _ 0] context_simps)
  also have "\<dots> = pes_stream cb (set_skip (k + skip (pes_wrap ?R)) ?R) S s"
    using assms by (simp add: pes_stream_shift)
  finally show ?thesis by (simp add: Let_def)
qed

lemma pes_stream_scan:
  assumes "S = p @ t" "length p = n + 48" "lookahead (pes_wrap dx) = 48" "k = 0 \<or> k < n"
  shows "pes_stream cb (pes_header_result dx p (scan_start_code p n k)) S s = pes_stream cb (set_skip k dx) S s"
  using assms(2,4) unfolding assms(1)
proof (induction p n k rule: scan_start_code.induct)
  case (1 p n k)
  have k: "k + 48 \<le> length p" using 1(3,4) by auto
  have code: "start_code_at (drop k p @ t) 0 = start_code_at p k"
    using header_bytes(1) [of "drop k p" t] start_code_at_drop [OF k] k by simp
  have pl: "packet_length (drop k p @ t) = packet_length (drop k p)"
    using header_bytes(2) [of "drop k p" t] k by simp
  have d: "drop k (p @ t) = drop k p @ t" using k by simp
  note single = pes_stream_single [of k "p @ t" dx cb s, unfolded d scan_single code pl Let_def]
  note shift = pes_header_result_shift [OF k, of _ _ _ dx t, unfolded Let_def]
  have "k + 48 \<le> length (p @ t)" using k by simp
  note single = single [OF this assms(3)]
  show ?case
  proof (cases "start_code_at p k")
    case Skip3
    show ?thesis
      using single 1(1) [OF Skip3 _ 1(3)] unfolding scan_start_code.simps [of p n k] Skip3
      by (auto simp: pes_header_result_def)
  next
    case Skip1
    show ?thesis
      using single 1(2) [OF Skip1 _ 1(3)] unfolding scan_start_code.simps [of p n k] Skip1
      by (auto simp: pes_header_result_def)
  next
    case Vbi_stream
    show ?thesis
      using single shift [of "Scan_packet 0" "Scan_packet k" 0] unfolding scan_start_code.simps [of p n k] Vbi_stream by simp
  next
    case Other_stream
    show ?thesis
      using single shift [of "Scan_other (6 + packet_length (drop k p))" "Scan_other (k + (6 + packet_length (drop k p)))" "6 + packet_length (drop k p)"]
      unfolding scan_start_code.simps [of p n k] Other_stream by (simp add: add.assoc)
  qed
qed

text \<open>The coroutine refines the specification: from the bytes left over and the source it computes the same, and
  keeps the same bytes for the next call.\<close>

lemma with_unread_wrap:
  assumes "lookahead w = lookahead (pes_wrap dx)" "consume w = consume (pes_wrap dx)"
  shows "with_unread S (dx\<lparr>pes_wrap := w\<rparr>) = set_skip (skip w) (with_unread S dx)"
  using assms by (simp add: with_unread_def set_skip_def)

lemma set_skip_same: "skip (pes_wrap dx) = k \<Longrightarrow> set_skip k dx = dx"
  by (auto simp: set_skip_def)

definition coroutine_ok :: "u8 list \<Rightarrow> vbi_dvb_demux \<Rightarrow> bool" where
  "coroutine_ok h dx \<longleftrightarrow> wrap_ok h (pes_wrap dx) \<and> 48 \<le> lookahead (pes_wrap dx) \<and> demux_packet dx = demux_pes"

lemma demux_pes_header_lookahead:
  "48 \<le> lookahead (pes_wrap dx) \<Longrightarrow> 48 \<le> lookahead (pes_wrap (demux_pes_header dx p n))"
  by (auto simp: demux_pes_header_def pes_header_result_def set_skip_def Let_def split: scan_result.split prod.split
      dest!: valid_header_wrap)

lemma demux_pes_header_packet: "demux_packet (demux_pes_header dx p n) = demux_packet dx"
  by (auto simp: demux_pes_header_def pes_header_result_def set_skip_def Let_def valid_vbi_pes_packet_header_def
      split: scan_result.split prod.split if_splits)

lemma coroutine_ok_header: "coroutine_ok h dx \<Longrightarrow> coroutine_ok h (demux_pes_header dx p n)"
  by (simp add: coroutine_ok_def demux_pes_header_lookahead demux_pes_header_packet wrap_ok_def pending_bytes_def demux_pes_header_wrap)

lemma demux_pes_loop_stream:
  assumes "coroutine_ok (h @ take i src) dx" "i \<le> length src"
  shows "pes_stream cb dx (unread (pes_wrap dx) src i) s =
      map_option (\<lambda>(err, dx', i', s'). (err, with_unread (unread (pes_wrap dx') src i') dx', s')) (demux_pes_loop cb dx src i s)
    \<and> (\<forall>err dx' i' s'. demux_pes_loop cb dx src i s = Some (err, dx', i', s') \<longrightarrow>
         coroutine_ok (h @ take i' src) dx' \<and> i' \<le> length src \<and> (err = Packet_done \<longrightarrow> i' = length src))"
  using assms
proof (induction cb dx src i s rule: demux_pes_loop.induct)
  case (1 cb dx src i s)
  let ?w = "pes_wrap dx"
  let ?S = "unread ?w src i"
  obtain r w i1 where wr: "wrap_around ?w src i = (r, w, i1)" by (rule prod_cases3)
  have ok: "wrap_ok (h @ take i src) ?w" and la: "48 \<le> lookahead ?w" and fn: "demux_packet dx = demux_pes" using 1(3) by (simp_all add: coroutine_ok_def)
  note W = wrap_around_stream [OF ok 1(4) wr]
  then have w: "wrap_ok (h @ take i1 src) w" "lookahead w = lookahead ?w" "consume w = consume ?w" by auto
  note C = demux_pes_loop.simps [of cb dx src i s, unfolded wr prod.case]
  show ?case
  proof (cases r)
    case None
    have e: "demux_pes_loop cb dx src i s = Some (Packet_done, dx\<lparr>pes_wrap := w\<rparr>, i1, s)" unfolding C None by simp
    have i1: "i1 = length src" using W None by simp
    then have u: "unread w src i1 = pending_bytes w" by (simp add: unread_def)
    have "pes_stream cb dx ?S s = Some (Packet_done, with_unread (unread w src i1) (dx\<lparr>pes_wrap := w\<rparr>), s)"
      unfolding pes_stream.simps [of cb dx ?S] u with_unread_wrap [OF w(2,3)]
      using W None by (auto simp: Let_def split: if_splits)
    then show ?thesis unfolding e using w i1 la fn by (simp add: coroutine_ok_def)
  next
    case (Some pn)
    note r = this
    obtain p n where pn: "pn = (p, n)" by (rule prod.exhaust)
    let ?dx = "dx\<lparr>pes_wrap := w\<rparr>"
    from W Some pn obtain t where S: "drop (skip ?w) ?S = p @ t" and k: "skip ?w \<le> length ?S" and sk: "skip w = 0"
      and i1: "i1 \<le> length src" and u: "unread w src i1 = p @ t" and lp: "length p = n + lookahead ?w" by auto
    have "pes_stream cb dx ?S s = pes_stream cb (set_skip 0 dx) (p @ t) s"
      using pes_stream_shift [OF k, of cb "set_skip 0 dx" s] by (simp add: S set_skip_same)
    also have "\<dots> = pes_stream cb ?dx (p @ t) s"
      by (rule pes_stream_erase) (simp add: with_unread_wrap [OF w(2,3)] sk)
    finally have abs: "pes_stream cb dx ?S s = pes_stream cb ?dx (p @ t) s" .
    have ok': "coroutine_ok (h @ take i1 src) ?dx" using w la fn by (simp add: coroutine_ok_def)
    note C = C [unfolded Some pn option.case prod.case Let_def]
    show ?thesis
    proof (cases "lookahead w > 48")
      case False
      have "pes_stream cb ?dx (p @ t) s = pes_stream cb (demux_pes_header ?dx p n) (p @ t) s"
        using pes_stream_scan [OF refl, of p n ?dx 0 cb t s] lp False la w sk
        by (simp add: demux_pes_header_def set_skip_same)
      moreover have "unread (pes_wrap (demux_pes_header ?dx p n)) src i1 = p @ t"
        using u by (simp add: unread_def pending_bytes_def demux_pes_header_wrap)
      ultimately show ?thesis
        using 1(2) [OF wr [symmetric, unfolded Some] refl pn [symmetric] refl refl _ coroutine_ok_header [OF ok'] i1] False
        unfolding C abs by simp
    next
      case True
      let ?fx = "?dx\<lparr>frame := (frame ?dx)\<lparr>n_data_units := 0\<rparr>\<rparr>" and ?n = "lookahead w"
      let ?e = "w\<lparr>buffer := [], leftover := 0\<rparr>"
      let ?F = "demux_pes_packet_frame cb ?fx (take ?n p) s"
      have win: "\<not> skip w > length (p @ t)" "\<not> lookahead w > length (p @ t)" "drop (skip w) (p @ t) = p @ t"
        "take ?n (p @ t) = take ?n p" using sk lp w by simp_all
      have er: "set_skip 0 (with_unread [] ?dx) = dx\<lparr>pes_wrap := ?e\<rparr>"
        using sk by (simp add: set_skip_def with_unread_def)
      have fr: "(dx\<lparr>pes_wrap := ?e\<rparr>)\<lparr>frame := (frame (dx\<lparr>pes_wrap := ?e\<rparr>))\<lparr>n_data_units := 0\<rparr>\<rparr> = ?fx\<lparr>pes_wrap := ?e\<rparr>"
        by (cases dx) simp
      have la': "lookahead (pes_wrap ?dx) = ?n" "skip (pes_wrap ?dx) = skip w" by simp_all
      note A = pes_stream.simps [of cb ?dx "p @ t" s, unfolded Let_def la' er win if_not_P [OF win(1)] if_not_P [OF win(2)]
          if_P [OF True] fr demux_pes_packet_frame_wrap]
      show ?thesis
      proof (cases ?F)
        case None
        then show ?thesis unfolding C abs A if_P [OF True] by simp
      next
        case (Some x)
        obtain err d rest s1 where x: "x = (err, d, rest, s1)" by (cases x)
        have d: "pes_wrap d = w" "demux_packet d = demux_pes"
          using packet_context_eq(1,10) [OF demux_pes_packet_frame_context [OF Some [unfolded x]]] fn by simp_all
        show ?thesis
        proof (cases "err = Packet_callback")
          case True
          then show ?thesis
            using \<open>lookahead w > 48\<close> w la i1 u d Some unfolding C abs A x if_P [OF \<open>lookahead w > 48\<close>]
            by (simp add: with_unread_def coroutine_ok_def)
        next
          case False
          let ?d = "d\<lparr>pes_wrap := w\<lparr>skip := ?n, lookahead := 48\<rparr>\<rparr>"
          have okd: "coroutine_ok (h @ take i1 src) ?d" using w d by (simp add: coroutine_ok_def wrap_ok_def pending_bytes_def)
          have ud: "unread (pes_wrap ?d) src i1 = p @ t" using u by (simp add: unread_def pending_bytes_def)
          have "pes_stream cb (d\<lparr>pes_wrap := ?e\<rparr>\<lparr>pes_wrap := ?e\<lparr>skip := ?n, lookahead := 48\<rparr>\<rparr>) (p @ t) s1 = pes_stream cb ?d (p @ t) s1"
            by (rule pes_stream_erase) (simp add: with_unread_def)
          note pes = this
          have IH: "pes_stream cb ?d (unread (pes_wrap ?d) src i1) s1 =
              map_option (\<lambda>(err, dx', i', s'). (err, with_unread (unread (pes_wrap dx') src i') dx', s')) (demux_pes_loop cb ?d src i1 s1)
            \<and> (\<forall>err dx' i' s'. demux_pes_loop cb ?d src i1 s1 = Some (err, dx', i', s') \<longrightarrow>
                 coroutine_ok (h @ take i' src) dx' \<and> i' \<le> length src \<and> (err = Packet_done \<longrightarrow> i' = length src))"
            by (rule 1(1) [OF wr [symmetric, unfolded r] refl pn [symmetric] refl refl True Some [unfolded x] refl refl refl False okd i1])
          show ?thesis
            using IH pes False \<open>lookahead w > 48\<close> Some unfolding C abs A x ud if_P [OF \<open>lookahead w > 48\<close>] by simp
        qed
      qed
    qed
  qed
qed

subsection \<open>The stream in pieces\<close>

lemma demux_pes_header_append:
  assumes "48 \<le> length q"
  shows "demux_pes_header dx (q @ t) 0 = demux_pes_header dx q 0"
proof -
  have "scan_start_code (q @ t) 0 0 = scan_start_code q 0 0"
    using header_bytes(1,2) [OF assms, of t] by (simp add: scan_single split: start_code.split)
  moreover have "pes_header_result dx (q @ t) r = pes_header_result dx q r" if "\<And>k. r = Scan_packet k \<Longrightarrow> k = 0" for r
    using pes_header_result_shift [where k = 0 and p = q and r = "Scan_packet 0" and r' = "Scan_packet 0" and dx = dx and t = t] assms that
    by (cases r) (simp_all add: Let_def set_skip_same, simp_all add: pes_header_result_def)
  moreover have "scan_start_code q 0 0 = Scan_packet k \<Longrightarrow> k = 0" for k
    by (simp add: scan_single split: start_code.splits)
  ultimately show ?thesis by (simp add: demux_pes_header_def)
qed

lemma pes_stream_append:
  assumes "pes_stream cb dx S s = Some (Packet_done, dx1, s1)" "48 \<le> lookahead (pes_wrap dx)"
  shows "pes_stream cb dx (S @ T) s = pes_stream cb dx1 (buffer (pes_wrap dx1) @ T) s1"
  using assms
proof (induction cb dx S s rule: pes_stream.induct)
  case (1 cb dx S s)
  let ?k = "skip (pes_wrap dx)" and ?n = "lookahead (pes_wrap dx)"
  let ?E = "set_skip 0 (with_unread [] dx)"
  note A = pes_stream.simps [of cb dx S s, unfolded Let_def]
  note B = pes_stream.simps [of cb dx "S @ T" s, unfolded Let_def]
  have erase: "pes_stream cb (set_skip ?k (with_unread U ?E)) (S @ T) s = pes_stream cb dx (S @ T) s" for U
    by (rule pes_stream_erase) (simp add: set_skip_same)
  consider (skip) "length S < ?k" | (more) "\<not> length S < ?k" "?n > length (drop ?k S)"
    | (data) "\<not> length S < ?k" "\<not> ?n > length (drop ?k S)" by blast
  then show ?case
  proof cases
    case skip
    let ?d = "with_unread [] (set_skip (?k - length S) ?E)"
    have "dx1 = ?d" "s1 = s" using 1(3) skip unfolding A by auto
    then show ?thesis
      using pes_stream_shift [of "length S" "S @ T" cb ?d s] erase [of "[]"] skip by simp
  next
    case more
    let ?d = "with_unread (drop ?k S) ?E"
    have d: "dx1 = ?d" "s1 = s" using 1(3) more unfolding A by auto
    have "drop ?k (S @ T) = drop ?k S @ T" using more by simp
    then show ?thesis
      using pes_stream_shift [of ?k "S @ T" cb ?d s] erase [of "drop ?k S"] more unfolding d by simp
  next
    case data
    have t: "drop ?k (S @ T) = drop ?k S @ T" "take ?n (drop ?k S @ T) = take ?n (drop ?k S)"
      "\<not> length (S @ T) < ?k" "\<not> ?n > length (drop ?k S @ T)" using data by simp_all
    note A = A [unfolded if_not_P [OF data(1)] if_not_P [OF data(2)]]
    note B = B [unfolded t(1) t(2) if_not_P [OF t(3)] if_not_P [OF t(4)]]
    show ?thesis
    proof (cases "?n > 48")
      case True
      let ?F = "demux_pes_packet_frame cb (?E\<lparr>frame := (frame ?E)\<lparr>n_data_units := 0\<rparr>\<rparr>) (take ?n (drop ?k S)) s"
      obtain err d rest s2 where F: "?F = Some (err, d, rest, s2)" "err \<noteq> Packet_callback"
        using 1(3) unfolding A if_P [OF True] by (auto split: option.splits if_splits)
      show ?thesis
        using 1(1) [OF refl refl refl data(1) refl data(2) True F(1) refl refl refl F(2)] 1(3)
        unfolding A B if_P [OF True] F(1) by (simp add: F(2))
    next
      case False
      then have "demux_pes_header ?E (drop ?k S @ T) 0 = demux_pes_header ?E (drop ?k S) 0"
        using 1(4) data by (intro demux_pes_header_append) simp
      then show ?thesis
        using 1(2) [OF refl refl refl data(1) refl data(2) False] 1(3,4) unfolding A B if_not_P [OF False]
        by (simp add: demux_pes_header_lookahead)
    qed
  qed
qed

subsection \<open>Safety of a packet\<close>

definition frame_safe :: "frame \<Rightarrow> bool" where
  "frame_safe f \<longleftrightarrow> (\<exists>v0. demux_ok v0 f)"

lemma frame_safe_reset [simp]: "frame_safe f \<Longrightarrow> frame_safe (reset_frame f)"
proof -
  assume "frame_safe f"
  then obtain v0 v where f: "raw f = None" "sliced_begin f = Some v"
    unfolding frame_safe_def demux_ok_def by blast
  then have "demux_ok v (reset_frame f)" by (simp add: demux_ok_def reset_frame_def lines_ok_def)
  then show ?thesis unfolding frame_safe_def by blast
qed

lemma frame_safe_n_data_units [simp]: "frame_safe (f\<lparr>n_data_units := n\<rparr>) = frame_safe f"
  by (simp add: frame_safe_def demux_ok_def)

lemma frame_safe_begin: "frame_safe (frame dx) \<Longrightarrow> frame_safe (frame (begin_frame dx))"
  by (simp add: begin_frame_def)

lemma extract_loop_new_frame_left:
  "extract_loop f p i = Some (New_frame, f', k) \<Longrightarrow> k - i + 2 < length p"
proof (induction f p i rule: extract_loop.induct)
  case (1 f p i)
  note e = 1(2) [unfolded extract_loop.simps [of f p i]]
  from e have long: "\<not> length p \<le> 2" "\<not> unat (p ! 1) > length p - 2" by (auto split: if_splits)
  note e = e [unfolded if_not_P [OF long(1)] if_not_P [OF long(2)]]
  consider "extract_data_unit f p = Some (Failed New_frame f')" "k = i"
    | f1 where "extract_data_unit f p = Some (Next f1)"
      "extract_loop (f1\<lparr>last_data_unit_id := p ! 0\<rparr>) (drop (unat (p ! 1) + 2) p) (i + (unat (p ! 1) + 2)) = Some (New_frame, f', k)"
    using e by (auto split: option.splits unit_result.splits)
  then show ?case
  proof cases
    case 1
    then show ?thesis using long by simp
  next
    case (2 f1)
    have "i + (unat (p ! 1) + 2) \<le> k" by (rule extract_loop_position [OF 2(2)]) simp
    then show ?thesis using 1(1) [OF long 2(1) refl 2(2)] by simp
  qed
qed

lemma extract_data_units_safe:
  assumes "frame_safe f" "2 \<le> length src"
  shows "\<exists>err f' rest. extract_data_units f src = Some (err, f', rest) \<and> frame_safe f' \<and> (err = New_frame \<longrightarrow> 2 \<le> length rest)"
proof -
  from assms(1) obtain v0 where "demux_ok v0 f" unfolding frame_safe_def ..
  from extract_loop_ok [OF this, of src 0] obtain err f' k where
    e: "extract_loop f src 0 = Some (err, f', k)" and f': "demux_ok v0 f'" by auto
  have "err = New_frame \<longrightarrow> 2 \<le> length src - k" using extract_loop_new_frame_left [of f src 0 f' k] e by auto
  then show ?thesis using e f' assms(2) by (auto simp: extract_data_units_def frame_safe_def)
qed

lemma demux_pes_packet_frame_safe:
  assumes "frame_safe (frame dx)" "2 \<le> length src"
  shows "\<exists>err dx' rest s'. demux_pes_packet_frame cb dx src s = Some (err, dx', rest, s') \<and> frame_safe (frame dx')
    \<and> (case cb of None \<Rightarrow> True | Some call \<Rightarrow> (\<forall>s lines pts. fst (call s lines pts)) \<longrightarrow> err \<noteq> Packet_callback)"
  using assms
proof (induction cb dx src s rule: demux_pes_packet_frame.induct)
  case (1 cb dx src s)
  from extract_data_units_safe [OF frame_safe_begin [OF 1(2)] 1(3)] obtain err f rest where
    x: "extract_data_units (frame (begin_frame dx)) src = Some (err, f, rest)" "frame_safe f"
    "err = New_frame \<longrightarrow> 2 \<le> length rest" by blast
  note e = demux_pes_packet_frame.simps [of cb dx src s, unfolded x(1) option.case prod.case Let_def]
  show ?case
  proof (cases err)
    case New_frame
    let ?dx = "(begin_frame dx)\<lparr>frame := f, new_frame := True\<rparr>"
    show ?thesis
    proof (cases cb)
      case None
      then show ?thesis unfolding e New_frame using x(2) by simp
    next
      case (Some call)
      obtain go s1 where c: "call s (output_lines ?dx) (frame_pts ?dx) = (go, s1)" by (rule prod.exhaust)
      have go: "\<forall>s lines pts. fst (call s lines pts) \<Longrightarrow> go" using c by (metis fst_conv)
      show ?thesis
        using 1(1) [OF x(1) refl New_frame refl refl Some refl c [symmetric]] x(2,3) go
        unfolding e unfolding New_frame Some option.case demux_result.case c prod.case by (cases go) auto
    qed
  next
    case Success
    then show ?thesis unfolding e using x(2) by (simp split: option.split)
  next
    case (Failure d)
    then show ?thesis unfolding e using x(2) by (simp split: option.split)
  qed
qed

subsection \<open>Feeding a stream\<close>

definition context_safe :: "vbi_dvb_demux \<Rightarrow> bool" where
  "context_safe dx \<longleftrightarrow> frame_safe (frame dx) \<and> 48 \<le> lookahead (pes_wrap dx)"

lemma valid_header_frame: "valid_vbi_pes_packet_header dx p = (b, dx') \<Longrightarrow> frame dx' = frame dx"
  by (auto simp: valid_vbi_pes_packet_header_def Let_def split: if_splits)

lemma demux_pes_header_frame [simp]: "frame (demux_pes_header dx p n) = frame dx"
  by (auto simp: demux_pes_header_def pes_header_result_def set_skip_def Let_def split: scan_result.split prod.split
      dest!: valid_header_frame)

lemma pes_stream_total:
  assumes "context_safe dx" "\<forall>s lines pts. fst (call s lines pts)"
  shows "\<exists>dx1 s1. pes_stream (Some call) dx S s = Some (Packet_done, dx1, s1) \<and> context_safe dx1"
  using assms(1)
proof (induction "Some call" dx S s rule: pes_stream.induct)
  case (1 dx S s)
  let ?k = "skip (pes_wrap dx)" and ?n = "lookahead (pes_wrap dx)"
  let ?E = "set_skip 0 (with_unread [] dx)"
  note A = pes_stream.simps [of "Some call" dx S s, unfolded Let_def]
  have dx: "frame_safe (frame dx)" "48 \<le> ?n" using 1(3) by (simp_all add: context_safe_def)
  consider (skip) "length S < ?k" | (more) "\<not> length S < ?k" "?n > length (drop ?k S)"
    | (data) "\<not> length S < ?k" "\<not> ?n > length (drop ?k S)" by blast
  then show ?case
  proof cases
    case data
    note A = A [unfolded if_not_P [OF data(1)] if_not_P [OF data(2)]]
    show ?thesis
    proof (cases "?n > 48")
      case True
      let ?f = "?E\<lparr>frame := (frame ?E)\<lparr>n_data_units := 0\<rparr>\<rparr>"
      have "frame_safe (frame ?f)" "2 \<le> length (take ?n (drop ?k S))" using dx data True by simp_all
      from demux_pes_packet_frame_safe [OF this, of "Some call" s] assms(2) obtain err d rest s2 where
        F: "demux_pes_packet_frame (Some call) ?f (take ?n (drop ?k S)) s = Some (err, d, rest, s2)" "frame_safe (frame d)"
        "err \<noteq> Packet_callback" by auto
      show ?thesis
        using 1(1) [OF refl refl refl data(1) refl data(2) True F(1) refl refl refl F(3)] F(2,3)
        unfolding A if_P [OF True] F(1) by (simp add: context_safe_def)
    next
      case False
      show ?thesis
        using 1(2) [OF refl refl refl data(1) refl data(2) False] dx unfolding A if_not_P [OF False]
        by (simp add: context_safe_def demux_pes_header_lookahead)
    qed
  qed (use dx in \<open>simp_all add: A context_safe_def\<close>)
qed

fun feed_chunks ::
  "('s \<Rightarrow> vbi_sliced list \<Rightarrow> u64 \<Rightarrow> bool \<times> 's) \<Rightarrow> vbi_dvb_demux \<Rightarrow> u8 list list \<Rightarrow> 's \<Rightarrow> (vbi_dvb_demux \<times> 's) option" where
  "feed_chunks cb dx [] s = Some (dx, s)"
| "feed_chunks cb dx (c # cs) s =
     (case vbi_dvb_demux_feed cb dx c s of None \<Rightarrow> None | Some (ok, dx, s) \<Rightarrow> feed_chunks cb dx cs s)"

text \<open>A context that waits for more data.\<close>

definition waiting :: "u8 list \<Rightarrow> vbi_dvb_demux \<Rightarrow> bool" where
  "waiting S dx \<longleftrightarrow> (let w = pes_wrap dx in S = [] \<and> 0 < skip w \<or> skip w = 0 \<and> length S < lookahead w)"

lemma pes_stream_result_waits: "pes_stream cb dx S s = Some (Packet_done, dx', s') \<Longrightarrow> waiting (buffer (pes_wrap dx')) dx'"
proof (induction cb dx S s rule: pes_stream.induct)
  case (1 cb dx S s)
  note A = 1(3) [unfolded pes_stream.simps [of cb dx S s], unfolded Let_def]
  show ?case
    using A by (auto simp: waiting_def split: if_splits option.splits dest: 1(1,2) [OF refl refl refl _ refl])
qed

lemma pes_stream_waiting:
  assumes "waiting S dx"
  shows "pes_stream cb dx S s = Some (Packet_done, with_unread S dx, s)"
  using assms unfolding pes_stream.simps [of cb dx S s]
  by (auto simp: waiting_def Let_def set_skip_same)

lemma feed_chunks_stream:
  assumes "coroutine_ok h dx" "context_safe dx" "waiting (pending_bytes (pes_wrap dx)) dx" "\<forall>s lines pts. fst (call s lines pts)"
  shows "\<exists>dx1 s1. feed_chunks call dx cs s = Some (dx1, s1) \<and>
    pes_stream (Some call) dx (pending_bytes (pes_wrap dx) @ concat cs) s
      = Some (Packet_done, with_unread (pending_bytes (pes_wrap dx1)) dx1, s1)"
  using assms(1-3)
proof (induction cs arbitrary: h dx s)
  case Nil
  then show ?case by (simp add: pes_stream_waiting)
next
  case (Cons c cs)
  let ?S = "pending_bytes (pes_wrap dx) @ c"
  have "coroutine_ok (h @ take 0 c) dx" using Cons.prems(1) by simp
  note loop = demux_pes_loop_stream [OF this, of "Some call" s, simplified]
  from pes_stream_total [OF Cons.prems(2) assms(4)] obtain d s1 where
    d: "pes_stream (Some call) dx ?S s = Some (Packet_done, d, s1)" "context_safe d" by blast
  have "unread (pes_wrap dx) c 0 = ?S" by (simp add: unread_def)
  with loop d obtain dx' i where dx': "demux_pes_loop (Some call) dx c 0 s = Some (Packet_done, dx', i, s1)"
    "d = with_unread (unread (pes_wrap dx') c i) dx'" by (cases "demux_pes_loop (Some call) dx c 0 s") auto
  with loop have ok: "coroutine_ok (h @ c) dx'" and i: "i = length c" by auto
  let ?P = "pending_bytes (pes_wrap dx')"
  have u: "unread (pes_wrap dx') c i = ?P" by (simp add: i unread_def)
  have fd: "vbi_dvb_demux_feed call dx c s = Some (True, dx', s1)"
    using Cons.prems(1) dx'(1)
    by (simp add: vbi_dvb_demux_feed_def demux_packet_fn_def coroutine_ok_def demux_pes_packet_def)
  have safe: "context_safe dx'" using d(2) dx'(2) by (simp add: context_safe_def)
  have "waiting ?P dx'" using pes_stream_result_waits [OF d(1)] dx'(2) u by (simp add: waiting_def)
  from Cons.IH [OF ok safe this, of s1] obtain dx1 s2 where IH: "feed_chunks call dx' cs s1 = Some (dx1, s2)"
    "pes_stream (Some call) dx' (?P @ concat cs) s1 = Some (Packet_done, with_unread (pending_bytes (pes_wrap dx1)) dx1, s2)"
    by blast
  have "48 \<le> lookahead (pes_wrap dx)" using Cons.prems(2) by (simp add: context_safe_def)
  from pes_stream_append [OF d(1) this, of "concat cs"]
  have "pes_stream (Some call) dx (?S @ concat cs) s = pes_stream (Some call) d (?P @ concat cs) s1"
    using dx'(2) u by simp
  also have "\<dots> = pes_stream (Some call) dx' (?P @ concat cs) s1"
    by (rule pes_stream_erase) (simp add: dx'(2))
  finally show ?case using IH by (simp add: fd)
qed

lemma pes_demux_new:
  assumes "vbi_dvb_pes_demux_new True = Some dx"
  shows "coroutine_ok [] dx" "context_safe dx" "waiting [] dx" "pending_bytes (pes_wrap dx) = []" "pes_wrap dx = clear_wrap 48"
    "new_frame dx" "frame dx = frame clear_dvb_demux"
proof -
  have dx: "dx = (vbi_dvb_demux_reset clear_dvb_demux)\<lparr>demux_packet := demux_pes\<rparr>"
    using assms by (simp add: vbi_dvb_pes_demux_new_def)
  have w: "pes_wrap dx = clear_wrap 48" "demux_packet dx = demux_pes" by (simp_all add: dx vbi_dvb_demux_reset_def)
  show f: "frame dx = frame clear_dvb_demux" "new_frame dx"
    by (simp_all add: dx vbi_dvb_demux_reset_def clear_dvb_demux_def)
  have "\<exists>v0. demux_ok v0 (frame dx)"
    by (intro exI [of _ "the (sliced_begin (frame dx))"])
      (simp add: demux_ok_def f clear_dvb_demux_def clear_frame_def lines_ok_def)
  then show "context_safe dx" by (simp add: context_safe_def frame_safe_def w clear_wrap_def)
  show "coroutine_ok [] dx" "waiting [] dx" "pending_bytes (pes_wrap dx) = []" "pes_wrap dx = clear_wrap 48"
    by (simp_all add: coroutine_ok_def wrap_ok_def waiting_def w clear_wrap_def pending_bytes_def)
qed



end
