(* ===== verification/Dvb_Ts_Safety.thy ===== *)
theory Dvb_Ts_Safety
  imports Dvb_Stream
begin

text \<open>The TS demultiplexer stays within its buffers on any stream. The invariant relates the bytes in the TS buffer
  to those still requested, and the bytes of the PES packet to its length.\<close>

unbundle bit_operations_syntax

subsection \<open>The invariant\<close>

definition pes_part_ok :: "vbi_dvb_demux \<Rightarrow> bool" where
  "pes_part_ok dx \<longleftrightarrow> frame_safe (frame dx) \<and> (ts_frame dx = [] \<or> 2 \<le> length (ts_frame dx))
     \<and> consume (ts_wrap dx) \<le> ts_pes_todo dx \<and> length (ts_pes dx) + ts_pes_todo dx \<le> 65541
     \<and> (ts_pes_todo dx = 0 \<or> 184 \<le> length (ts_pes dx) + ts_pes_todo dx)"

definition ts_wanted :: "vbi_dvb_demux \<Rightarrow> nat" where
  "ts_wanted dx = (if ts_in_sync dx then 10 else 197)"

definition ts_ok :: "vbi_dvb_demux \<Rightarrow> bool" where
  "ts_ok dx \<longleftrightarrow> pes_part_ok dx \<and> demux_packet dx = demux_ts
     \<and> length (buffer (ts_wrap dx)) + lookahead (ts_wrap dx) = ts_wanted dx"

lemma valid_header_pts: "valid_vbi_pes_packet_header dx p = (b, dx') \<Longrightarrow> \<exists>t. dx' = dx\<lparr>packet_pts := t\<rparr>"
  by (auto simp: valid_vbi_pes_packet_header_def Let_def split: if_splits intro: exI [of _ "packet_pts dx"])

lemma ts_ok_update [simp]:
  "ts_ok (dx\<lparr>packet_pts := t\<rparr>) = ts_ok dx" "ts_ok (dx\<lparr>new_frame := b\<rparr>) = ts_ok dx"
  "ts_ok (dx\<lparr>ts_wrap := (ts_wrap dx)\<lparr>skip := k\<rparr>\<rparr>) = ts_ok dx"
  by (simp_all add: ts_ok_def pes_part_ok_def ts_wanted_def)

definition ts_step_ok :: "'s ts_result option \<Rightarrow> bool" where
  "ts_step_ok r \<longleftrightarrow> (case r of None \<Rightarrow> False
     | Some (Go dx src s) \<Rightarrow> ts_ok dx \<and> consume (ts_wrap dx) = 0 | Some (Again dx src s) \<Rightarrow> ts_ok dx
     | Some (Return err dx src s) \<Rightarrow> err = Packet_done \<and> ts_ok dx)"

lemma ts_consume_ok:
  assumes "ts_ok dx"
  shows "ts_step_ok (Some (ts_consume dx src s))"
proof -
  let ?w = "ts_wrap dx" and ?n = "consume (ts_wrap dx)"
  let ?d = "dx\<lparr>ts_pes := ts_pes dx @ take ?n src, ts_pes_todo := ts_pes_todo dx - ?n, ts_wrap := ?w\<lparr>consume := 0\<rparr>\<rparr>"
  have ok: "frame_safe (frame dx)" "ts_frame dx = [] \<or> 2 \<le> length (ts_frame dx)" "?n \<le> ts_pes_todo dx"
    "length (ts_pes dx) + ts_pes_todo dx \<le> 65541" "ts_pes_todo dx = 0 \<or> 184 \<le> length (ts_pes dx) + ts_pes_todo dx"
    "demux_packet dx = demux_ts" "length (buffer ?w) + lookahead ?w = ts_wanted dx"
    using assms by (simp_all add: ts_ok_def pes_part_ok_def)
  consider (none) "?n = 0" | (short) "0 < ?n" "?n > length src" | (part) "0 < ?n" "\<not> ?n > length src" "ts_pes_todo ?d \<noteq> 0"
    | (full) "0 < ?n" "\<not> ?n > length src" "ts_pes_todo ?d = 0" by blast
  then show ?thesis
  proof cases
    case none
    then show ?thesis using assms by (simp add: ts_consume_def Let_def ts_step_ok_def)
  next
    case short
    then show ?thesis using ok by (simp add: ts_consume_def Let_def ts_step_ok_def ts_ok_def pes_part_ok_def ts_wanted_def)
  next
    case part
    then have "ts_ok ?d \<and> consume (ts_wrap ?d) = 0" using ok by (simp add: ts_ok_def pes_part_ok_def ts_wanted_def)
    then show ?thesis using part by (simp add: ts_consume_def Let_def ts_step_ok_def)
  next
    case full
    obtain b d where v: "valid_vbi_pes_packet_header ?d (ts_pes ?d) = (b, d)" by (rule prod.exhaust)
    obtain t where d: "d = ?d\<lparr>packet_pts := t\<rparr>" using valid_header_pts [OF v] ..
    have "length (ts_pes ?d) = length (ts_pes dx) + ts_pes_todo dx" using full ok(3) by simp
    then have "2 \<le> length (drop 46 (ts_pes ?d))" using full ok(3,5) by (simp del: drop_append)
    then have "ts_ok (d\<lparr>new_frame := True, ts_frame := []\<rparr>)" "ts_ok (d\<lparr>ts_frame := drop 46 (ts_pes d), frame := (frame d)\<lparr>n_data_units := 0\<rparr>\<rparr>)"
      "consume (ts_wrap d) = 0"
      unfolding d using ok full by (simp_all add: ts_ok_def pes_part_ok_def ts_wanted_def del: drop_append)
    moreover have "ts_consume dx src s = (if \<not> b then Again (d\<lparr>new_frame := True, ts_frame := []\<rparr>) (drop ?n src) s
        else Go (d\<lparr>ts_frame := drop 46 (ts_pes d), frame := (frame d)\<lparr>n_data_units := 0\<rparr>\<rparr>) (drop ?n src) s)"
      using full v by (simp add: ts_consume_def Let_def)
    ultimately show ?thesis by (simp add: ts_step_ok_def)
  qed
qed

lemma extract_unit_not_success: "extract_data_unit f p = Some (Failed err f') \<Longrightarrow> err \<noteq> Success"
proof -
  have "sliced_unit f p m sk system ok service bytes \<noteq> Some (Failed Success f')" for m sk system ok service bytes
    unfolding sliced_unit_def by (auto split: prod.splits if_splits)
  moreover have "samples_unit f p system \<noteq> Some (Failed Success f')" for system
    unfolding samples_unit_def by (auto split: if_splits)
  ultimately have "extract_data_unit f p \<noteq> Some (Failed Success f')" unfolding extract_data_unit_def Let_def by simp
  then show "extract_data_unit f p = Some (Failed err f') \<Longrightarrow> err \<noteq> Success" by auto
qed

lemma extract_loop_success: "extract_loop f p i = Some (Success, f', k) \<Longrightarrow> k = i + length p"
proof (induction f p i rule: extract_loop.induct)
  case (1 f p i)
  note e = 1(2) [unfolded extract_loop.simps [of f p i]]
  show ?case
  proof (cases "length p \<le> 2")
    case False
    with e have le: "\<not> unat (p ! 1) > length p - 2" by (auto split: if_splits)
    note e = e [unfolded if_not_P [OF False] if_not_P [OF le]]
    show ?thesis
    proof (cases "extract_data_unit f p")
      case (Some r)
      then show ?thesis using e 1(1) [OF False le Some] extract_unit_not_success [of f p] Some False le
        by (cases r) auto
    qed (use e in simp)
  qed (use e in simp)
qed

lemma extract_data_units_success: "extract_data_units f src = Some (Success, f', rest) \<Longrightarrow> rest = []"
  by (auto simp: extract_data_units_def dest!: extract_loop_success split: if_splits)

lemma demux_pes_packet_frame_done: "demux_pes_packet_frame cb dx src s = Some (Packet_done, dx', rest, s') \<Longrightarrow> rest = []"
proof (induction cb dx src s rule: demux_pes_packet_frame.induct)
  case (1 cb dx src s)
  from 1(2) show ?case unfolding demux_pes_packet_frame.simps [of cb dx src s]
    by (auto split: option.splits demux_result.splits prod.splits if_splits dest!: 1(1) extract_data_units_success simp: Let_def)
qed

lemma ts_extract_ok:
  assumes "ts_ok dx" "consume (ts_wrap dx) = 0" "\<forall>s lines pts. fst (call s lines pts)"
  shows "ts_step_ok (ts_extract (Some call) dx src s)"
proof (cases "ts_frame dx = []")
  case True
  then show ?thesis using assms by (simp add: ts_extract_def ts_step_ok_def)
next
  case False
  then have "frame_safe (frame dx)" "2 \<le> length (ts_frame dx)" using assms by (simp_all add: ts_ok_def pes_part_ok_def)
  from demux_pes_packet_frame_safe [OF this, of "Some call" s] assms(3) obtain err d rest s1 where
    F: "demux_pes_packet_frame (Some call) dx (ts_frame dx) s = Some (err, d, rest, s1)" "frame_safe (frame d)"
    "err \<noteq> Packet_callback" by auto
  note same = packet_context_eq [OF demux_pes_packet_frame_context [OF F(1)]]
  have "rest = []" if "err = Packet_done" by (rule demux_pes_packet_frame_done [OF F(1) [unfolded that]])
  moreover have "ts_ok (d\<lparr>ts_frame := []\<rparr>)" "ts_ok (d\<lparr>new_frame := True, ts_frame := []\<rparr>)"
    "consume (ts_wrap d) = 0"
    using assms(1,2) F(2) by (simp_all add: ts_ok_def pes_part_ok_def ts_wanted_def same)
  ultimately show ?thesis using F(3) by (simp add: ts_extract_def False F(1) ts_step_ok_def)
qed

lemma ts_skip_ok:
  assumes "ts_ok dx" "consume (ts_wrap dx) = 0"
  shows "ts_step_ok (Some (ts_skip dx src s))"
  using assms by (simp add: ts_skip_def ts_step_ok_def Let_def)

text \<open>After the bytes requested are in the buffer, \<open>lookahead\<close> has no meaning until it is set again.\<close>

definition ts_full :: "vbi_dvb_demux \<Rightarrow> bool" where
  "ts_full dx \<longleftrightarrow> pes_part_ok dx \<and> demux_packet dx = demux_ts \<and> length (buffer (ts_wrap dx)) = ts_wanted dx
     \<and> consume (ts_wrap dx) = 0"

lemma ts_look_ahead_ok:
  assumes "ts_ok dx" "consume (ts_wrap dx) = 0"
  shows "case ts_look_ahead dx src s of Go dx' src' s' \<Rightarrow> ts_full dx' | Again dx' src' s' \<Rightarrow> False
    | Return err dx' src' s' \<Rightarrow> err = Packet_done \<and> ts_ok dx'"
  using assms
  by (simp add: ts_look_ahead_def Let_def ts_ok_def ts_full_def pes_part_ok_def ts_wanted_def min_def)

lemma ts_synchronize_ok:
  assumes "ts_full dx"
  shows "\<exists>dx1 r. ts_synchronize dx = Some (dx1, r) \<and>
    (case r of None \<Rightarrow> ts_ok dx1
     | Some p \<Rightarrow> pes_part_ok dx1 \<and> demux_packet dx1 = demux_ts \<and> ts_in_sync dx1 \<and> consume (ts_wrap dx1) = 0
         \<and> 10 \<le> length p \<and> length p \<le> 197)"
proof -
  let ?b = "buffer (ts_wrap dx)"
  have ok: "pes_part_ok dx" "demux_packet dx = demux_ts" "length ?b = ts_wanted dx" "consume (ts_wrap dx) = 0"
    using assms by (simp_all add: ts_full_def)
  show ?thesis
  proof (cases "ts_in_sync dx")
    case True
    then show ?thesis using ok
      by (auto simp: ts_synchronize_def Let_def ts_ok_def pes_part_ok_def ts_wanted_def)
  next
    case False
    then have b: "length ?b = 197" using ok by (simp add: ts_wanted_def)
    show ?thesis
    proof (cases "find (ts_sync_at ?b) [0..<188]")
      case None
      then show ?thesis using False ok b
        by (simp add: ts_synchronize_def Let_def ts_ok_def pes_part_ok_def ts_wanted_def)
    next
      case (Some k)
      then have "k < 188" by (auto simp: find_Some_iff)
      then show ?thesis using Some False ok b
        by (simp add: ts_synchronize_def Let_def ts_ok_def pes_part_ok_def ts_wanted_def)
    qed
  qed
qed

text \<open>A packet leaves the buffer so that ten bytes complete the next header.\<close>

lemma skip_ts_packet_ok:
  assumes "pes_part_ok dx" "demux_packet dx = demux_ts" "ts_in_sync dx" "length p \<le> 197"
  shows "ts_ok (skip_ts_packet p dx)"
  using assms by (simp add: skip_ts_packet_def next_ts_header_def Let_def ts_ok_def pes_part_ok_def ts_wanted_def)

lemma skip_ts_pes_packet_ok:
  assumes "pes_part_ok dx" "demux_packet dx = demux_ts" "ts_in_sync dx" "length p \<le> 197"
  shows "ts_ok (skip_ts_pes_packet p dx)"
  unfolding skip_ts_pes_packet_def using assms by (intro skip_ts_packet_ok) (simp_all add: pes_part_ok_def)

lemma ts_payload_ok:
  assumes "frame_safe (frame dx)" "ts_frame dx = [] \<or> 2 \<le> length (ts_frame dx)"
    "length (ts_pes dx) + ts_pes_todo dx \<le> 65541" "184 \<le> length (ts_pes dx) + ts_pes_todo dx"
    "demux_packet dx = demux_ts" "ts_in_sync dx" "10 \<le> length p" "length p \<le> 197" "consume (ts_wrap dx) = 0"
  shows "ts_ok (ts_payload p dx)"
  using assms
  by (auto simp: ts_payload_def next_ts_header_def Let_def ts_ok_def pes_part_ok_def ts_wanted_def min_def)

lemma packet_length_bound: "packet_length p \<le> 65535"
  using unsigned_less [of "p ! 4", where 'a = nat] unsigned_less [of "p ! 5", where 'a = nat] by (simp add: packet_length_def)

lemma ts_packet_ok:
  assumes "pes_part_ok dx" "demux_packet dx = demux_ts" "ts_in_sync dx" "consume (ts_wrap dx) = 0" "10 \<le> length p" "length p \<le> 197"
  shows "ts_ok (ts_packet p dx)"
proof -
  have skip: "ts_ok (skip_ts_packet p (dx\<lparr>ts_continuity := c\<rparr>))" "ts_ok (skip_ts_pes_packet p (dx\<lparr>ts_continuity := c\<rparr>))" for c
    using assms by (intro skip_ts_packet_ok skip_ts_pes_packet_ok; simp add: pes_part_ok_def)+
  have dx: "dx\<lparr>ts_continuity := ts_continuity dx\<rparr> = dx" by simp
  note skip' = skip [of "ts_continuity dx", unfolded dx]
  have first: "ts_ok (ts_payload p (dx\<lparr>ts_continuity := c, ts_pes := [], ts_pes_todo := n + 6\<rparr>))" if "178 \<le> n" "n \<le> 65535" for c n
    using assms that by (intro ts_payload_ok) (simp_all add: pes_part_ok_def)
  have more: "ts_ok (ts_payload p (dx\<lparr>ts_continuity := c\<rparr>))" if "ts_pes_todo dx \<noteq> 0" for c
    using assms that by (intro ts_payload_ok) (simp_all add: pes_part_ok_def)
  show ?thesis
    using skip skip' first more packet_length_bound [of "drop 4 p"] unfolding ts_packet_def Let_def by (simp add: not_less)
qed

lemma ts_iteration_ok:
  assumes "ts_ok dx" "\<forall>s lines pts. fst (call s lines pts)"
  shows "ts_step_ok (ts_iteration (Some call) dx src s)"
proof -
  have next_step: "ts_step_ok (go_on r f)" if "ts_step_ok r" "\<And>dx src s. ts_ok dx \<Longrightarrow> consume (ts_wrap dx) = 0 \<Longrightarrow> ts_step_ok (f dx src s)"
    for r :: "'a ts_result option" and f
  proof (cases "\<exists>d src s. r = Some (Go d src s)")
    case True
    then obtain d src s where r: "r = Some (Go d src s)" by blast
    then have "ts_step_ok (f d src s)" using that(1) by (intro that(2)) (simp_all add: ts_step_ok_def)
    then show ?thesis by (simp add: r go_on_def)
  next
    case False
    then have "go_on r f = r" by (auto simp: go_on_def split: option.split ts_result.split)
    then show ?thesis using that(1) by simp
  qed
  have last: "ts_step_ok (go_on (Some (ts_look_ahead dx src s)) ts_header)" if "ts_ok dx" "consume (ts_wrap dx) = 0" for dx src and s :: 'a
  proof (cases "ts_look_ahead dx src s")
    case (Go d src' s')
    then have "ts_full d" using ts_look_ahead_ok [OF that, of src s] by simp
    from ts_synchronize_ok [OF this] obtain d1 r where r: "ts_synchronize d = Some (d1, r)"
      "case r of None \<Rightarrow> ts_ok d1 | Some p \<Rightarrow> pes_part_ok d1 \<and> demux_packet d1 = demux_ts \<and> ts_in_sync d1
        \<and> consume (ts_wrap d1) = 0 \<and> 10 \<le> length p \<and> length p \<le> 197" by blast
    then show ?thesis using Go ts_packet_ok by (cases r) (simp_all add: go_on_def ts_header_def ts_step_ok_def)
  qed (use ts_look_ahead_ok [OF that, of src s] in \<open>simp_all add: go_on_def ts_step_ok_def\<close>)
  have assoc: "go_on (go_on x (\<lambda>dx src s. Some (ts_look_ahead dx src s))) ts_header =
      go_on x (\<lambda>dx src s. go_on (Some (ts_look_ahead dx src s)) ts_header)" for x :: "'a ts_result option"
    by (auto simp: go_on_def split: option.split ts_result.split)
  show ?thesis unfolding ts_iteration_def assoc
    by (intro next_step ts_consume_ok [OF assms(1)] ts_extract_ok [OF _ _ assms(2)] ts_skip_ok last)
qed

lemma ts_iteration_no_go: "ts_iteration cb dx src s \<noteq> Some (Go dx' src' s')"
proof -
  have "go_on x ts_header \<noteq> Some (Go dx' src' s')" for x
    by (auto simp: go_on_def ts_header_def split: option.split ts_result.split)
  then show ?thesis by (simp add: ts_iteration_def)
qed

lemma demux_ts_loop_ok:
  assumes "ts_ok dx" "\<forall>s lines pts. fst (call s lines pts)"
  shows "\<exists>dx' src' s'. demux_ts_loop (Some call) dx src s = Some (Packet_done, dx', src', s') \<and> ts_ok dx'"
  using assms(1)
proof (induction "Some call" dx src s rule: demux_ts_loop.induct)
  case (1 dx src s)
  from ts_iteration_ok [OF 1(2) assms(2), of src s] show ?case
    unfolding demux_ts_loop.simps [of "Some call" dx src s]
    by (auto simp: ts_step_ok_def ts_iteration_no_go split: option.splits ts_result.splits dest: 1(1))
qed

lemma feed_chunks_ts_ok:
  assumes "ts_ok dx" "\<forall>s lines pts. fst (call s lines pts)"
  shows "\<exists>dx' s'. feed_chunks call dx chunks s = Some (dx', s') \<and> ts_ok dx'"
  using assms(1)
proof (induction chunks arbitrary: dx s)
  case (Cons c cs)
  have "\<exists>dx1 src' s1. demux_ts_packet (Some call) dx c s = Some (Packet_done, dx1, src', s1) \<and> ts_ok dx1"
    using demux_ts_loop_ok [OF Cons.prems assms(2), of c s] Cons.prems by (simp add: demux_ts_packet_def)
  then obtain dx1 src' s1 where "demux_ts_packet (Some call) dx c s = Some (Packet_done, dx1, src', s1)" "ts_ok dx1" by blast
  then show ?case using Cons.IH [of dx1 s1] Cons.prems
    by (simp add: vbi_dvb_demux_feed_def demux_packet_fn_def ts_ok_def)
qed simp



end
