(* ===== verification/Dvb_Roundtrip.thy ===== *)
theory Dvb_Roundtrip
  imports Dvb_Frame
begin

text \<open>What the demultiplexer (dvb_demux.c) gives on the output of the multiplexer (dvb_mux.c): the lines come back
  in order, the stuffing is skipped and the whole packet is consumed.\<close>

unbundle bit_operations_syntax

subsection \<open>What the multiplexer stores\<close>

lemma rev_byte_rev_byte: "rev_byte (rev_byte b) = b"
  by (simp add: rev_byte_def vbi_rev8_def bit_reverse_involution)

lemma rev_byte_wss: "rev_byte (rev_byte b OR 3) = b OR 0xC0"
proof -
  have r: "bit (rev_byte c) n \<longleftrightarrow> n < 8 \<and> bit c (7 - n)" for c n
    using bit_vbi_bit_reverse [of n c] not_bit_u8 [of n "vbi_bit_reverse ! unat c"]
    by (cases "n < 8") (auto simp: rev_byte_def vbi_rev8_def)
  show ?thesis by (simp add: u8_eq_bits all_lt_8 r bit_simps)
qed

text \<open>The service and the payload of a line as they arrive.\<close>

definition sent_service :: "vbi_sliced \<Rightarrow> u32" where
  "sent_service s =
     (if id s AND VBI_SLICED_TELETEXT_B \<noteq> 0 then VBI_SLICED_TELETEXT_B
      else if id s = VBI_SLICED_VPS \<or> id s = VBI_SLICED_WSS_625 then id s else VBI_SLICED_CAPTION_625_F1)"

definition sent_payload :: "vbi_sliced \<Rightarrow> u8 list" where
  "sent_payload s =
     (if id s AND VBI_SLICED_TELETEXT_B \<noteq> 0 then take 42 (data s)
      else if id s = VBI_SLICED_VPS then take 13 (data s)
      else if id s = VBI_SLICED_WSS_625 then [data s ! 0, data s ! 1 OR 0xC0]
      else take 2 (data s))"

definition receive :: "vbi_sliced \<Rightarrow> vbi_sliced \<Rightarrow> vbi_sliced" where
  "receive old s = \<lparr>id = sent_service s, line = line s, data = sent_payload s @ drop (length (sent_payload s)) (data old)\<rparr>"

text \<open>Lines in the order in which they can be sent after the line \<open>l\<close>.\<close>

definition next_line :: "u32 \<Rightarrow> vbi_sliced \<Rightarrow> u32" where
  "next_line l s = (if line s > 0 then line s else l)"

fun sendable :: "u32 \<Rightarrow> vbi_sliced list \<Rightarrow> bool" where
  "sendable l [] = True"
| "sendable l (s # ss) =
     (length (data s) = 56 \<and> (\<exists>n. service_du_size s = Inr n) \<and> (line s = 0 \<or> l < line s) \<and> sendable (next_line l s) ss)"

text \<open>A data unit that carries a line, with any padding.\<close>

definition carries :: "u32 \<Rightarrow> vbi_sliced \<Rightarrow> u8 list \<Rightarrow> bool" where
  "carries l s u \<longleftrightarrow> (\<exists>lofp pad. line_offset_byte (next_line l s) (line s) = Some lofp
     \<and> u = fst (data_unit_contents s) # word_of_nat (length u - 2) # ucast lofp # snd (data_unit_contents s) @ pad
     \<and> length u < 258)"

fun carry :: "u32 \<Rightarrow> vbi_sliced list \<Rightarrow> u8 list list \<Rightarrow> bool" where
  "carry l [] us \<longleftrightarrow> us = []"
| "carry l (s # ss) [] \<longleftrightarrow> False"
| "carry l (s # ss) (u # us) \<longleftrightarrow> carries l s u \<and> carry (next_line l s) ss us"

text \<open>The services and lines the multiplexer accepts.\<close>

lemma service_du_size_cases:
  assumes "service_du_size s = Inr n"
  shows "(id s \<in> {1, 2, 3} \<and> n = 46 \<and> (line s = 0 \<or> 7 \<le> line s \<and> line s \<le> 22 \<or> 320 \<le> line s \<and> line s \<le> 335))
    \<or> (id s = VBI_SLICED_VPS \<and> n = 16 \<and> line s = 16) \<or> (id s = VBI_SLICED_WSS_625 \<and> n = 5 \<and> line s = 23)
    \<or> ((id s = VBI_SLICED_CAPTION_625 \<or> id s = VBI_SLICED_CAPTION_625_F1) \<and> n = 5 \<and> line s = 21)"
proof -
  have a: "7 \<le> l \<and> l \<le> 22" if "l - 7 \<le> (15 :: u32)" for l
    using that by (simp add: word_le_nat_alt unat_sub_if_size word_size split: if_splits)
  have b: "320 \<le> l \<and> l \<le> 335" if "l - 320 \<le> (15 :: u32)" for l
    using that by (simp add: word_le_nat_alt unat_sub_if_size word_size split: if_splits)
  show ?thesis
    using assms a [of "line s"] b [of "line s"] unfolding service_du_size_def
    by (auto simp: Let_def not_less split: if_splits)
qed

lemma data_unit_contents_length:
  assumes "service_du_size s = Inr n" "length (data s) = 56"
  shows "length (snd (data_unit_contents s)) = n - 3"
  using service_du_size_cases [OF assms(1)] assms(2) by (auto simp: data_unit_contents_def)

lemma service_du_size_range: "service_du_size s = Inr n \<Longrightarrow> n = 46 \<or> n = 16 \<or> n = 5"
  using service_du_size_cases [of s n] by auto

lemma data_unit_carries:
  fixes fixed_length :: bool
  assumes "service_du_size s = Inr n" "length (data s) = 56" "line_offset_byte (next_line l s) (line s) = Some lofp"
  defines "u \<equiv> data_unit fixed_length (if fixed_length then 46 else n) lofp s"
  shows "carries l s u" "length u = (if fixed_length then 46 else n)"
proof -
  note n = service_du_size_range [OF assms(1)]
  obtain i c where c: "data_unit_contents s = (i, c)" by (rule prod.exhaust)
  have lc: "length c = n - 3" using data_unit_contents_length [OF assms(1,2)] by (simp add: c)
  show len: "length u = (if fixed_length then 46 else n)"
    using n lc by (auto simp: u_def data_unit_def c Let_def)
  have "u = i # word_of_nat (length u - 2) # ucast lofp # c @
      (if fixed_length then replicate (46 - (3 + length c)) 0xFF else [])"
    unfolding len by (simp add: u_def data_unit_def c Let_def)
  then show "carries l s u" unfolding carries_def using assms(3) len n by (auto simp: c)
qed

lemma insert_sliced_loop_spec:
  assumes "insert_sliced_loop service_mask fixed_length l packet p_left ldu ss = (err, packet', ldu', rest)"
    and "list_all (\<lambda>s. length (data s) = 56) ss"
  shows "\<exists>sent us. ss = sent @ rest \<and> packet' = packet @ concat us
    \<and> sendable l (filter (\<lambda>s. id s AND service_mask \<noteq> 0) sent)
    \<and> carry l (filter (\<lambda>s. id s AND service_mask \<noteq> 0) sent) us
    \<and> length (concat us) \<le> p_left \<and> ldu' = (if us = [] then ldu else length (last us))
    \<and> list_all (\<lambda>u. if fixed_length then length u = 46 else length u \<in> {5, 16, 46}) us"
  using assms
proof (induction ss arbitrary: l packet p_left ldu)
  case (Cons s ss)
  let ?w = "\<lambda>s. id s AND service_mask \<noteq> 0"
  note [simp del] = insert_sliced_loop.simps(2)
  note eq = Cons.prems(1) [unfolded insert_sliced_loop.simps(2)]
  have stop: ?case if "packet' = packet" "ldu' = ldu" "rest = s # ss"
    using that by (intro exI [of _ "[]"]) simp
  show ?case
  proof (cases "?w s")
    case False
    then have "insert_sliced_loop service_mask fixed_length l packet p_left ldu ss = (err, packet', ldu', rest)"
      using eq by simp
    from Cons.IH [OF this] Cons.prems(2) obtain sent us where
      "ss = sent @ rest" "packet' = packet @ concat us" "sendable l (filter ?w sent)" "carry l (filter ?w sent) us"
      "length (concat us) \<le> p_left" "ldu' = (if us = [] then ldu else length (last us))"
      "list_all (\<lambda>u. if fixed_length then length u = 46 else length u \<in> {5, 16, 46}) us" by auto
    then show ?thesis using False by (intro exI [of _ "s # sent"] exI [of _ us]) simp
  next
    case True
    show ?thesis
    proof (cases "line s > 0 \<and> line s \<le> l")
      case True
      then show ?thesis using eq \<open>?w s\<close> by (intro stop) auto
    next
      case order: False
      show ?thesis
      proof (cases "service_du_size s")
        case (Inl e)
        then show ?thesis using eq True order by (intro stop) (auto simp: Let_def)
      next
        case (Inr n)
        let ?n = "if fixed_length then 2 + 0x2C else n"
        show ?thesis
        proof (cases "?n > p_left \<or> line_offset_byte (next_line l s) (line s) = None")
          case True
          then show ?thesis
            using eq \<open>?w s\<close> order Inr by (intro stop) (auto simp: Let_def next_line_def split: if_splits)
        next
          case False
          then obtain lofp where lofp: "line_offset_byte (next_line l s) (line s) = Some lofp" by auto
          let ?u = "data_unit fixed_length ?n lofp s"
          have "insert_sliced_loop service_mask fixed_length (next_line l s) (packet @ ?u) (p_left - ?n) ?n ss = (err, packet', ldu', rest)"
            using eq True order Inr False lofp by (simp add: Let_def next_line_def del: insert_sliced_loop.simps split: if_splits)
          from Cons.IH [OF this] Cons.prems(2) obtain sent us where
            us: "ss = sent @ rest" "packet' = (packet @ ?u) @ concat us" "sendable (next_line l s) (filter ?w sent)"
              "carry (next_line l s) (filter ?w sent) us"
              "length (concat us) \<le> p_left - ?n" "ldu' = (if us = [] then ?n else length (last us))"
              "list_all (\<lambda>u. if fixed_length then length u = 46 else length u \<in> {5, 16, 46}) us" by auto
          have d: "length (data s) = 56" using Cons.prems(2) by simp
          have u: "carries l s ?u" "length ?u = ?n"
            using data_unit_carries [OF Inr d lofp, of fixed_length] by (auto split: if_splits)
          have "line s = 0 \<or> l < line s" using order word_gt_0 [of "line s"] by (auto simp: not_le)
          then show ?thesis
            using us u True Inr False d service_du_size_range [OF Inr]
            by (intro exI [of _ "s # sent"] exI [of _ "?u # us"]) (auto split: if_splits)
        qed
      qed
    qed
  qed
qed auto

text \<open>Stuffing units, and what they do to the last data unit.\<close>

definition stuffing :: "u8 list \<Rightarrow> bool" where
  "stuffing t \<longleftrightarrow> (\<exists>ns. list_all (\<lambda>n. 2 \<le> n \<and> n \<le> 257) ns \<and> t = concat (map stuffing_unit ns))"

lemma length_stuffing_unit [simp]: "2 \<le> n \<Longrightarrow> length (stuffing_unit n) = n"
  by (simp add: stuffing_unit_def)

lemma stuffing_loop_spec:
  "stuffing_loop fixed_length packet p_left ldu =
     (packet @ concat (replicate (p_left div stuffing_du_size fixed_length) (stuffing_unit (stuffing_du_size fixed_length))),
      p_left mod stuffing_du_size fixed_length,
      if p_left < stuffing_du_size fixed_length then ldu else stuffing_du_size fixed_length)"
proof (induction fixed_length packet p_left ldu rule: stuffing_loop.induct)
  case (1 fixed_length packet p_left ldu)
  let ?n = "stuffing_du_size fixed_length"
  have n: "0 < ?n" by (simp add: stuffing_du_size_def)
  show ?case
  proof (cases "?n \<le> p_left")
    case True
    then have d: "p_left div ?n = Suc ((p_left - ?n) div ?n)" "p_left mod ?n = (p_left - ?n) mod ?n"
      using n by (simp_all add: le_div_geq le_mod_geq)
    have l: "(if p_left - ?n < ?n then ?n else ?n) = ?n" by simp
    show ?thesis
      unfolding stuffing_loop.simps [of fixed_length packet] Let_def if_P [OF True] 1 [OF refl True] l d
      using True by simp
  next
    case False
    then show ?thesis unfolding stuffing_loop.simps [of fixed_length packet] Let_def if_not_P [OF False] by simp
  qed
qed

lemma stuffing_append: "stuffing s \<Longrightarrow> stuffing t \<Longrightarrow> stuffing (s @ t)"
  unfolding stuffing_def
  by (elim exE conjE) (rule_tac x = "ns @ nsa" in exI, simp)

lemma stuffing_replicate: "2 \<le> n \<Longrightarrow> n \<le> 257 \<Longrightarrow> stuffing (concat (replicate k (stuffing_unit n)))"
  unfolding stuffing_def by (intro exI [of _ "replicate k n"]) (simp add: list_all_iff)

lemma stuffing_single: "2 \<le> n \<Longrightarrow> n \<le> 257 \<Longrightarrow> stuffing (stuffing_unit n)"
  using stuffing_replicate [of n 1] by simp

lemma stuffing_Nil: "stuffing []"
  unfolding stuffing_def by (intro exI [of _ "[]"]) simp

text \<open>A stuffing unit of the largest size with one more byte is two stuffing units.\<close>

lemma stuffing_unit_split: "(stuffing_unit 257)[1 := 254] @ [0] = stuffing_unit 256 @ stuffing_unit 2"
proof -
  have "replicate 255 (0xFF :: u8) = replicate 254 0xFF @ [0xFF]"
    using replicate_append_same [of 254 "0xFF :: u8"] replicate_Suc [of 254 "0xFF :: u8"] by simp
  then show ?thesis by (simp add: stuffing_unit_def)
qed

lemma list_update_length_append: "i < length u \<Longrightarrow> (P @ u)[length P + i := x] = P @ u[i := x]"
  by (simp add: list_update_append)

text \<open>The packet is filled up: the data units stay, but for the length of the last one.\<close>

lemma encode_stuffing_spec:
  assumes "p_left mod stuffing_du_size fixed_length = 1 \<longrightarrow> 2 \<le> p_left \<or> us \<noteq> []"
    and "fixed_length \<longrightarrow> p_left mod 46 = 0"
    and "ldu = (if us = [] then 0 else length (last us))" "list_all (\<lambda>u. 2 \<le> length u \<and> length u < 257) us"
  shows "\<exists>us' t. encode_stuffing fixed_length (P @ concat us) p_left ldu = Some (P @ concat us' @ t) \<and> stuffing t
    \<and> length (concat us' @ t) = length (concat us) + p_left
    \<and> (us' = us \<or> us \<noteq> [] \<and> us' = butlast us @ [(last us)[1 := word_of_nat (length (last us) - 1)] @ [0xFF]])"
proof -
  let ?n = "stuffing_du_size fixed_length"
  define q r where "q = p_left div ?n" and "r = p_left mod ?n"
  have n: "2 \<le> ?n" "?n \<le> 257" by (simp_all add: stuffing_du_size_def)
  have r: "r < ?n" using n by (simp add: r_def)
  have p: "p_left = q * ?n + r" by (simp add: q_def r_def)
  let ?T = "concat (replicate q (stuffing_unit ?n))"
  have T: "stuffing ?T" "length ?T = q * ?n" using stuffing_replicate [OF n] n by (simp_all add: length_concat sum_list_replicate)
  have e: "encode_stuffing fixed_length (P @ concat us) p_left ldu =
     (if r > 0 then
        if fixed_length then None
        else if r \<ge> 2 then Some (((P @ concat us) @ ?T) @ stuffing_unit r)
        else
          let packet = (P @ concat us) @ ?T; l = (if p_left < ?n then ldu else ?n) in
          if l < 2 then None
          else if 257 = l then Some (packet[length packet + 1 - 257 := 256 - 2] @ [2 - 2])
          else Some (packet[length packet + 1 - l := word_of_nat (l - 1)] @ [0xFF])
      else Some ((P @ concat us) @ ?T))"
    unfolding encode_stuffing_def stuffing_loop_spec Let_def q_def r_def by simp
  consider (zero) "r = 0" | (big) "2 \<le> r" | (one) "r = 1" by linarith
  then show ?thesis
  proof cases
    case zero
    then have "encode_stuffing fixed_length (P @ concat us) p_left ldu = Some (P @ concat us @ ?T)" by (simp add: e)
    then show ?thesis using T p zero by (intro exI [of _ us] exI [of _ ?T]) simp
  next
    case big
    have "\<not> fixed_length" using assms(2) big by (auto simp: r_def stuffing_du_size_def)
    moreover have "stuffing (?T @ stuffing_unit r)" using T r n big by (intro stuffing_append stuffing_single) simp_all
    moreover have "encode_stuffing fixed_length (P @ concat us) p_left ldu = Some (P @ concat us @ ?T @ stuffing_unit r)"
      unfolding e using \<open>\<not> fixed_length\<close> big by simp
    ultimately show ?thesis
      using T p big by (intro exI [of _ us] exI [of _ "?T @ stuffing_unit r"]) simp
  next
    case one
    have f: "\<not> fixed_length" using assms(2) one by (auto simp: r_def stuffing_du_size_def)
    then have n257: "?n = 257" by (simp add: stuffing_du_size_def)
    show ?thesis
    proof (cases "q = 0")
      case True
      then have "p_left = 1" using p one by simp
      then have us: "us \<noteq> []" using assms(1) one [unfolded r_def] by auto
      define u where "u = last us"
      have "u \<in> set us" unfolding u_def by (rule last_in_set [OF us])
      with assms(4) have u: "2 \<le> length u" "length u < 257" "ldu = length u"
        unfolding assms(3) if_not_P [OF us] u_def list_all_iff by blast+
      have "concat us = concat (butlast us @ [u])" unfolding u_def append_butlast_last_id [OF us] ..
      then have cu: "concat us = concat (butlast us) @ u" by simp
      have "encode_stuffing fixed_length (P @ concat us) p_left ldu =
          Some (((P @ concat (butlast us)) @ u)[length (P @ concat (butlast us)) + 1 := word_of_nat (length u - 1)] @ [0xFF])"
        unfolding e using True one f u p n257 by (simp add: Let_def cu)
      also have "\<dots> = Some (P @ concat (butlast us @ [u[1 := word_of_nat (length u - 1)] @ [0xFF]]) @ [])"
        using u(1) by (subst list_update_length_append) simp_all
      finally show ?thesis
        using us u True one p stuffing_Nil
        by (intro exI [of _ "butlast us @ [u[1 := word_of_nat (length u - 1)] @ [0xFF]]"] exI [of _ "[]"])
          (simp add: cu u_def [symmetric])
    next
      case False
      then obtain k where k: "q = Suc k" by (cases q) auto
      let ?K = "concat (replicate k (stuffing_unit 257))"
      have T': "?T = ?K @ stuffing_unit 257"
      proof -
        have "replicate (Suc k) (stuffing_unit 257) = replicate k (stuffing_unit 257) @ [stuffing_unit 257]"
          unfolding replicate_append_same by simp
        then show ?thesis unfolding n257 k by simp
      qed
      define Q where "Q = P @ concat us @ ?K"
      have Q: "(P @ concat us) @ ?T = Q @ stuffing_unit 257" "length (Q @ stuffing_unit 257) + 1 - 257 = length Q + 1"
        by (simp_all add: Q_def T')
      have "\<not> p_left < ?n" using False p n by (cases q) simp_all
      then have "encode_stuffing fixed_length (P @ concat us) p_left ldu =
          Some (((P @ concat us @ ?K) @ stuffing_unit 257)[length (P @ concat us @ ?K) + 1 := 254] @ [0])"
        unfolding e Let_def Q Q_def [symmetric] using one f n257 by simp
      also have "\<dots> = Some ((P @ concat us @ ?K) @ stuffing_unit 256 @ stuffing_unit 2)"
        unfolding stuffing_unit_split [symmetric] by (subst list_update_length_append) simp_all
      finally have "encode_stuffing fixed_length (P @ concat us) p_left ldu = Some (P @ concat us @ ?K @ stuffing_unit 256 @ stuffing_unit 2)"
        by simp
      moreover have "stuffing (?K @ stuffing_unit 256 @ stuffing_unit 2)"
        by (intro stuffing_append stuffing_single stuffing_replicate) simp_all
      moreover have "length ?K = k * 257" by (simp add: length_concat sum_list_replicate)
      ultimately show ?thesis
        using p one n257 k by (intro exI [of _ us] exI [of _ "?K @ stuffing_unit 256 @ stuffing_unit 2"]) simp
    qed
  qed
qed

subsection \<open>What the demultiplexer reads\<close>

text \<open>The state after lines up to line \<open>l\<close> of a frame.\<close>

definition frame_at :: "u32 \<Rightarrow> frame \<Rightarrow> bool" where
  "frame_at l f \<longleftrightarrow> sliced_begin f \<noteq> None \<and> raw f = None \<and> raw_offset f = 0 \<and> last_frame_line f = unat l
     \<and> last_field f = (if l \<ge> 313 then 1 else 0)"

lemma lofp_first_field: "0 < l \<Longrightarrow> l < 32 \<Longrightarrow> lofp_to_line (ucast (push_bit 6 3 + push_bit 5 1 + l)) SYSTEM_625 = (0, unat l, unat l)" for l :: u32
proof -
  have "list_all (\<lambda>n. lofp_to_line (ucast (push_bit 6 3 + push_bit 5 1 + word_of_nat n :: u32)) SYSTEM_625 = (0, n, n)) [1..<32]"
    by code_simp
  moreover assume "0 < l" "l < 32"
  then have "unat l \<in> set [1..<32]" unfolding set_upt atLeastLessThan_iff by (simp add: word_less_nat_alt Suc_le_eq)
  moreover have "word_of_nat (unat l) = l" by simp
  ultimately show ?thesis unfolding list_all_iff by metis
qed

lemma lofp_second_field:
  "313 < l \<Longrightarrow> l < 313 + 32 \<Longrightarrow> lofp_to_line (ucast (push_bit 6 3 + push_bit 5 0 + l - 313)) SYSTEM_625 = (1, unat l - 313, unat l)" for l :: u32
proof -
  have "list_all (\<lambda>n. lofp_to_line (ucast (push_bit 6 3 + push_bit 5 0 + word_of_nat n - 313 :: u32)) SYSTEM_625 = (1, n - 313, n)) [314..<345]"
    by code_simp
  moreover assume "313 < l" "l < 313 + 32"
  then have "unat l \<in> set [314..<345]" unfolding set_upt atLeastLessThan_iff by (simp add: word_less_nat_alt)
  moreover have "word_of_nat (unat l) = l" by simp
  ultimately show ?thesis unfolding list_all_iff by metis
qed

text \<open>The line of a data unit, as the demultiplexer sees it.\<close>

lemma lofp_to_line_offset:
  assumes "line_offset_byte (next_line l s) (line s) = Some lofp" "line s \<noteq> 313"
  shows "lofp_to_line (ucast lofp) SYSTEM_625 =
    (if next_line l s \<ge> 313 then 1 else 0, if line s \<ge> 313 then unat (line s) - 313 else unat (line s), unat (line s))"
proof -
  have z: "lofp_to_line (ucast (push_bit 6 3 + push_bit 5 0 :: u32)) SYSTEM_625 = (1, 0, 0)"
    "lofp_to_line (ucast (push_bit 6 3 + push_bit 5 1 :: u32)) SYSTEM_625 = (0, 0, 0)" by code_simp+
  consider "line s = 0" | "0 < line s" "line s < 32" | "313 < line s" "line s < 313 + 32"
    using assms word_gt_0 [of "line s"] by (auto simp: line_offset_byte_def not_less order.order_iff_strict split: if_splits)
  then show ?thesis
  proof cases
    case 1
    then show ?thesis using assms(1) z by (auto simp: line_offset_byte_def next_line_def split: if_splits)
  next
    case 2
    then have c: "line s > 0" "(0 = line s) = False" "(line s < 32) = True" "(313 \<le> line s) = False"
      by (auto simp: word_less_nat_alt word_le_nat_alt)
    have "lofp = push_bit 6 3 + push_bit 5 1 + line s"
      using assms(1) unfolding line_offset_byte_def c if_True if_False option.inject by (rule sym)
    then show ?thesis unfolding next_line_def if_P [OF c(1)] c(4) if_False using lofp_first_field [OF 2] by simp
  next
    case 3
    then have c: "line s > 0" "(0 = line s) = False" "(line s < 32) = False" "(line s < 313) = False"
      "(line s < 313 + 32) = True" "(313 \<le> line s) = True" by (auto simp: word_less_nat_alt word_le_nat_alt)
    have "lofp = push_bit 6 3 + push_bit 5 0 + line s - 313"
      using assms(1) unfolding line_offset_byte_def c if_True if_False option.inject by (rule sym)
    then show ?thesis unfolding next_line_def if_P [OF c(1)] c(6) if_True using lofp_second_field [OF 3] by simp
  qed
qed

definition advance :: "frame \<Rightarrow> u32 \<Rightarrow> vbi_sliced \<Rightarrow> vbi_sliced list \<Rightarrow> frame" where
  "advance f l s v =
     f\<lparr>sliced_begin := Some v, sp := sp f + 1, last_field := (if l \<ge> 313 then 1 else 0),
       last_field_line := (if line s \<ge> 313 then unat (line s) - 313 else unat (line s)),
       last_frame_line := unat l, n_data_units := n_data_units f + 1\<rparr>"

lemma line_address_advance:
  assumes f: "frame_at l f" "sliced_begin f = Some v" "sp f < length v"
    and s: "line_offset_byte (next_line l s) (line s) = Some lofp" "line s = 0 \<or> l < line s" "line s \<noteq> 313"
  shows "line_address f False (ucast lofp) SYSTEM_625 =
    (Success, advance f (next_line l s) s (v[sp f := (v ! sp f)\<lparr>line := line s\<rparr>]))"
proof -
  note f = f [unfolded frame_at_def]
  have sz: "\<not> sp f \<ge> sliced_size f" using f by (simp add: sliced_size_def)
  note lo = lofp_to_line_offset [OF s(1,3)]
  show ?thesis
  proof (cases "line s = 0")
    case True
    then have n: "next_line l s = l" by (simp add: next_line_def)
    show ?thesis
      unfolding line_address_def lo n if_not_P [OF sz] using True f
      by (simp add: Let_def update_sliced_def advance_def)
  next
    case False
    then have n: "next_line l s = line s" using word_gt_0 [of "line s"] by (auto simp: next_line_def)
    have "l < line s" using s(2) False by simp
    then have g: "unat l < unat (line s)" by (simp only: word_less_nat_alt)
    show ?thesis
      unfolding line_address_def lo n if_not_P [OF sz] using False f g
      by (simp add: Let_def update_sliced_def advance_def)
  qed
qed

lemma frame_at_advance: "frame_at l f \<Longrightarrow> frame_at l' (advance f l' s v)"
  by (simp add: frame_at_def advance_def)

lemma sliced_update_all: "x\<lparr>line := l, id := i, data := d\<rparr> = \<lparr>id = i, line = l, data = d\<rparr>"
  by (cases x) simp

lemma sliced_unit_advance:
  assumes f: "frame_at l f" "sliced_begin f = Some v" "sp f < length v"
    and s: "line_offset_byte (next_line l s) (line s) = Some lofp" "line s = 0 \<or> l < line s" "line s \<noteq> 313"
    and p: "p ! 2 = ucast lofp" "min_length \<le> unat (p ! 1)"
    and ok: "ok (advance f (next_line l s) s (v[sp f := (v ! sp f)\<lparr>line := line s\<rparr>]))"
      "service (advance f (next_line l s) s (v[sp f := (v ! sp f)\<lparr>line := line s\<rparr>])) = sent_service s"
      "bytes = sent_payload s"
  shows "sliced_unit f p min_length False SYSTEM_625 ok service bytes =
    Some (Next (advance f (next_line l s) s (v[sp f := receive (v ! sp f) s])))"
proof -
  have n: "sliced_begin f \<noteq> None" "\<not> raw_offset f > 0" "\<not> unat (p ! 1) < min_length"
    using f p by (simp_all add: frame_at_def)
  show ?thesis
    unfolding sliced_unit_def p(1) line_address_advance [OF f s] using n ok f(2,3)
    by (simp add: Let_def update_sliced_def advance_def receive_def sliced_update_all)
qed

lemma rev_bytes [simp]: "map (rev_byte \<circ> rev_byte) bs = bs"
  by (induction bs) (simp_all add: rev_byte_rev_byte)

text \<open>A data unit of a line that can be sent next: the line is received.\<close>

lemma extract_data_unit_line:
  assumes f: "frame_at l f" "sliced_begin f = Some v" "sp f < length v"
    and s: "length (data s) = 56" "service_du_size s = Inr n" "line s = 0 \<or> l < line s" and u: "carries l s u"
  shows "extract_data_unit f (u @ t) = Some (Next (advance f (next_line l s) s (v[sp f := receive (v ! sp f) s])))" (is "_ = ?r")
proof -
  obtain i c where c: "data_unit_contents s = (i, c)" by (rule prod.exhaust)
  obtain lofp pad where lo: "line_offset_byte (next_line l s) (line s) = Some lofp"
    and ue: "u = i # word_of_nat (length u - 2) # ucast lofp # c @ pad" and lu: "length u < 258"
    using u unfolding carries_def c by auto
  have lc: "length c = n - 3" using data_unit_contents_length [OF s(2,1)] by (simp add: c)
  have pl: "length u = 3 + length c + length pad" by (subst ue) simp
  have p: "(u @ t) ! 0 = i" "(u @ t) ! 1 = word_of_nat (length u - 2)" "(u @ t) ! 2 = ucast lofp" "(u @ t) ! 3 = (c @ pad @ t) ! 0"
    and d: "drop 3 (u @ t) = c @ pad @ t" "drop 4 (u @ t) = drop 1 (c @ pad @ t)"
    by (subst ue, simp)+
  have p1: "unat ((u @ t) ! 1) = length u - 2" unfolding p(2) using lu by (simp add: unsigned_of_nat take_bit_nat_eq_self)
  note cases = service_du_size_cases [OF s(2)]
  have l313: "line s \<noteq> 313" using cases by auto
  note adv = sliced_unit_advance [OF f lo s(3) l313 p(3)]
  have cur: "current_line (advance f (next_line l s) s (v[sp f := (v ! sp f)\<lparr>line := line s\<rparr>])) = Some (line s)"
    using f(3) by (simp add: current_line_def advance_def)
  have e1: "take 2 (data s) = [data s ! 0, data s ! 1]"
    using s(1) by (simp add: numeral_2_eq_2 take_Suc_conv_app_nth)
  have len: "1 + 1 + 42 \<le> unat ((u @ t) ! 1)" if "n = 46" using that p1 pl lc by simp
  have len': "1 + 13 \<le> unat ((u @ t) ! 1)" if "n = 16" using that p1 pl lc by simp
  have len'': "1 + 2 \<le> unat ((u @ t) ! 1)" if "n = 5" using that p1 pl lc by simp
  consider (ttx) "id s \<in> {1, 2, 3}" "n = 46" | (vps) "id s = VBI_SLICED_VPS" "n = 16" "line s = 16"
    | (wss) "id s = VBI_SLICED_WSS_625" "n = 5" "line s = 23"
    | (cc) "id s = VBI_SLICED_CAPTION_625 \<or> id s = VBI_SLICED_CAPTION_625_F1" "n = 5" "line s = 21"
    using cases by blast
  then show ?thesis
  proof cases
    case k: ttx
    have ic: "i = DATA_UNIT_EBU_TELETEXT_NON_SUBTITLE" "c = 0xE4 # map rev_byte (take 42 (data s))"
      using c k by (auto simp: data_unit_contents_def)
    have svc: "sent_service s = VBI_SLICED_TELETEXT_B" "sent_payload s = take 42 (data s)"
      using k by (auto simp: sent_service_def sent_payload_def)
    have lf: "last_field_line (advance f (next_line l s) s w) = 0
        \<or> 7 \<le> last_field_line (advance f (next_line l s) s w) \<and> last_field_line (advance f (next_line l s) s w) < 23" for w
      using cases k by (auto simp: advance_def word_le_nat_alt)
    have b: "map rev_byte (take 42 (drop 4 (u @ t))) = sent_payload s" unfolding d ic svc using s(1) by simp
    have h: "(0xE4 \<noteq> (u @ t) ! 3) = False" unfolding p ic by simp
    have i: "(i \<in> {DATA_UNIT_EBU_TELETEXT_NON_SUBTITLE, DATA_UNIT_EBU_TELETEXT_SUBTITLE}) = True" by (simp add: ic)
    show ?thesis
      unfolding extract_data_unit_def Let_def p(1) i h if_True
      by (rule adv) (use len [OF k(2)] lf svc(1) b in simp_all)
  next
    case k: vps
    have ic: "i = DATA_UNIT_VPS" "c = take 13 (data s)" using c k by (auto simp: data_unit_contents_def)
    have n: "next_line l s = 16" using k by (simp add: next_line_def)
    have "sliced_unit f (u @ t) (1 + 13) False SYSTEM_625 (\<lambda>f. current_line f = Some 16)
        (\<lambda>f. if 0 = last_field f then VBI_SLICED_VPS else VBI_SLICED_VPS_F2) (take 13 (drop 3 (u @ t))) = ?r"
      unfolding d ic
      by (rule adv) (use k s(1) cur len' n in \<open>simp_all add: sent_service_def sent_payload_def advance_def\<close>)
    then show ?thesis by (simp add: extract_data_unit_def p(1) ic(1))
  next
    case k: wss
    have ic: "i = DATA_UNIT_WSS" "c = [rev_byte (data s ! 0), rev_byte (data s ! 1) OR 3]"
      using c k by (auto simp: data_unit_contents_def)
    have svc: "sent_service s = VBI_SLICED_WSS_625" "sent_payload s = [data s ! 0, data s ! 1 OR 0xC0]"
      using k by (simp_all add: sent_service_def sent_payload_def)
    have "sliced_unit f (u @ t) (1 + 2) False SYSTEM_625 (\<lambda>f. current_line f = Some 23) (\<lambda>f. VBI_SLICED_WSS_625)
        (map rev_byte (take 2 (drop 3 (u @ t)))) = ?r"
      unfolding d ic
      by (rule adv) (use k cur len'' svc in \<open>simp_all add: rev_byte_rev_byte rev_byte_wss\<close>)
    then show ?thesis by (simp add: extract_data_unit_def p(1) ic(1))
  next
    case k: cc
    have ic: "i = DATA_UNIT_CLOSED_CAPTION" "c = [rev_byte (data s ! 0), rev_byte (data s ! 1)]"
      using c k by (auto simp: data_unit_contents_def)
    have svc: "sent_service s = VBI_SLICED_CAPTION_625_F1" "sent_payload s = [data s ! 0, data s ! 1]"
      using k e1 by (auto simp: sent_service_def sent_payload_def)
    have n: "next_line l s = 21" using k by (simp add: next_line_def)
    have "sliced_unit f (u @ t) (1 + 2) False SYSTEM_625 (\<lambda>f. current_line f = Some 21)
        (\<lambda>f. if 0 = last_field f then VBI_SLICED_CAPTION_625_F1 else VBI_SLICED_CAPTION_625_F2)
        (map rev_byte (take 2 (drop 3 (u @ t)))) = ?r"
      unfolding d ic
      by (rule adv) (use k cur len'' n svc in \<open>simp_all add: rev_byte_rev_byte advance_def\<close>)
    then show ?thesis by (simp add: extract_data_unit_def p(1) ic(1))
  qed
qed

lemma frame_at_last_unit [simp]: "frame_at l (f\<lparr>last_data_unit_id := i\<rparr>) = frame_at l f"
  by (simp add: frame_at_def)

text \<open>The buffer after the lines \<open>ss\<close> were stored from the position \<open>i\<close> on.\<close>

definition store_lines :: "nat \<Rightarrow> vbi_sliced list \<Rightarrow> vbi_sliced list \<Rightarrow> vbi_sliced list" where
  "store_lines i ss v = take i v @ map2 receive (drop i v) ss @ drop (i + length ss) v"

lemma store_lines_Nil [simp]: "store_lines i [] v = v"
  by (simp add: store_lines_def)

lemma store_lines_Cons:
  "i < length v \<Longrightarrow> store_lines i (s # ss) v = store_lines (Suc i) ss (v[i := receive (v ! i) s])"
  by (simp add: store_lines_def Cons_nth_drop_Suc [symmetric] take_Suc_conv_app_nth drop_update_cancel take_update_cancel)

lemma extract_loop_unit:
  assumes "extract_data_unit f (u @ t) = Some (Next f')" "3 \<le> length u" "unat (u ! 1) = length u - 2"
  shows "extract_loop f (u @ t) i = extract_loop (f'\<lparr>last_data_unit_id := u ! 0\<rparr>) t (i + length u)"
proof -
  have n: "\<not> length (u @ t) \<le> 2" "\<not> unat ((u @ t) ! 1) > length (u @ t) - 2"
    "(u @ t) ! 0 = u ! 0" "unat ((u @ t) ! 1) + 2 = length u" "drop (length u) (u @ t) = t"
    using assms(2,3) by (auto simp: nth_append)
  show ?thesis
    unfolding extract_loop.simps [of f "u @ t"] if_not_P [OF n(1)] if_not_P [OF n(2)] assms(1) option.case unit_result.case n ..
qed

lemma unat_word_of_nat_u8: "n < 256 \<Longrightarrow> unat (word_of_nat n :: u8) = n"
  by (simp add: unsigned_of_nat take_bit_nat_eq_self)

lemma carries_length: "carries l s u \<Longrightarrow> 3 \<le> length u \<and> unat (u ! 1) = length u - 2"
proof -
  assume "carries l s u"
  then obtain lofp :: u32 and pad where
    u: "u = fst (data_unit_contents s) # word_of_nat (length u - 2) # ucast lofp # snd (data_unit_contents s) @ pad" "length u < 258"
    unfolding carries_def by blast
  have "3 \<le> length u" by (subst u(1)) simp
  moreover have e: "u ! 1 = word_of_nat (length u - 2)" by (subst u(1)) simp
  have "unat (u ! 1) = length u - 2" unfolding e using u(2) by (intro unat_word_of_nat_u8) simp
  ultimately show ?thesis by simp
qed

lemma extract_loop_carry:
  assumes "frame_at l f" "sliced_begin f = Some v" "sp f + length ss \<le> length v" "sendable l ss" "carry l ss us"
  shows "\<exists>f'. extract_loop f (concat us @ t) i = extract_loop f' t (i + length (concat us))
    \<and> frame_at (foldl next_line l ss) f' \<and> sliced_begin f' = Some (store_lines (sp f) ss v) \<and> sp f' = sp f + length ss"
  using assms
proof (induction l ss us arbitrary: f v i rule: carry.induct)
  case (1 l us)
  then show ?case by (intro exI [of _ f]) simp
next
  case (3 l s ss u us)
  let ?v = "v[sp f := receive (v ! sp f) s]"
  let ?f = "(advance f (next_line l s) s ?v)\<lparr>last_data_unit_id := u ! 0\<rparr>"
  from 3 obtain n where s: "length (data s) = 56" "service_du_size s = Inr n" "line s = 0 \<or> l < line s"
    and u: "carries l s u" "carry (next_line l s) ss us" and ss: "sendable (next_line l s) ss" by auto
  have sp: "sp f < length v" using 3 by simp
  have e: "extract_loop f (concat (u # us) @ t) i = extract_loop ?f (concat us @ t) (i + length u)"
    using extract_loop_unit [OF extract_data_unit_line [OF 3(2,3) sp s u(1), of "concat us @ t"]] carries_length [OF u(1)]
    by simp
  have "frame_at (next_line l s) ?f" using frame_at_advance [OF 3(2)] by simp
  moreover have "sliced_begin ?f = Some ?v" "sp ?f = Suc (sp f)" by (simp_all add: advance_def)
  ultimately obtain f' where
    "extract_loop ?f (concat us @ t) (i + length u) = extract_loop f' t (i + length u + length (concat us))"
    "frame_at (foldl next_line (next_line l s) ss) f'" "sliced_begin f' = Some (store_lines (Suc (sp f)) ss ?v)" "sp f' = Suc (sp f) + length ss"
    using 3(1) [of ?f ?v "i + length u"] 3(4) ss u(2) by auto
  then show ?case
    unfolding e store_lines_Cons [OF sp] by (intro exI [of _ f']) (simp add: add.assoc)
qed simp

lemma extract_loop_stuffing:
  assumes "stuffing t"
  shows "\<exists>f'. extract_loop f t i = Some (Success, f', i + length t) \<and> sliced_begin f' = sliced_begin f \<and> sp f' = sp f
    \<and> (frame_at l f \<longrightarrow> frame_at l f')"
proof -
  from assms obtain ns where ns: "list_all (\<lambda>n. 2 \<le> n \<and> n \<le> 257) ns" and t: "t = concat (map stuffing_unit ns)"
    unfolding stuffing_def by blast
  from ns show ?thesis unfolding t
  proof (induction ns arbitrary: f i)
    case (Cons n ns)
    let ?t = "concat (map stuffing_unit ns)"
    let ?f = "f\<lparr>last_data_unit_id := DATA_UNIT_STUFFING\<rparr>"
    have n: "2 \<le> n" "n \<le> 257" using Cons.prems by simp_all
    have u0: "stuffing_unit n ! 0 = DATA_UNIT_STUFFING" "stuffing_unit n ! 1 = word_of_nat (n - 2)"
      by (simp_all add: stuffing_unit_def)
    have "unat (stuffing_unit n ! 1) = n - 2" unfolding u0(2) using n by (intro unat_word_of_nat_u8) simp
    note u = u0(1) this
    show ?case
    proof (cases "n = 2 \<and> ?t = []")
      case True
      then show ?thesis by (intro exI [of _ f]) (simp add: extract_loop.simps)
    next
      case False
      have long: "\<not> length (stuffing_unit n @ ?t) \<le> 2"
      proof (cases "?t = []")
        case True
        then show ?thesis using n False by simp
      next
        case False
        then have "0 < length ?t" by (simp only: length_greater_0_conv not_False_eq_True)
        then show ?thesis using n by (simp only: length_append length_stuffing_unit)
      qed
      have e: "extract_data_unit f (stuffing_unit n @ ?t) = Some (Next f)"
        unfolding extract_data_unit_def Let_def using u(1) n by (simp add: nth_append)
      have "extract_loop f (stuffing_unit n @ ?t) i = extract_loop ?f ?t (i + n)"
      proof -
        have c: "\<not> unat ((stuffing_unit n @ ?t) ! 1) > length (stuffing_unit n @ ?t) - 2"
          "(stuffing_unit n @ ?t) ! 0 = DATA_UNIT_STUFFING" "unat ((stuffing_unit n @ ?t) ! 1) + 2 = n"
          "drop n (stuffing_unit n @ ?t) = ?t"
          using u n by (auto simp: nth_append)
        show ?thesis
          unfolding extract_loop.simps [of f "stuffing_unit n @ ?t"] if_not_P [OF long] if_not_P [OF c(1)] e option.case
            unit_result.case c ..
      qed
      moreover obtain f' where "extract_loop ?f ?t (i + n) = Some (Success, f', i + n + length ?t)"
        "sliced_begin f' = sliced_begin f" "sp f' = sp f" "frame_at l f \<longrightarrow> frame_at l f'" using Cons.IH [of ?f "i + n"] Cons.prems by auto
      ultimately show ?thesis using n by (intro exI [of _ f']) simp
    qed
  qed (simp add: extract_loop.simps)
qed

lemma carries_longer:
  assumes "carries l s u" "length u < 257"
  shows "carries l s (u[1 := word_of_nat (length u - 1)] @ [0xFF])"
proof -
  from assms(1) obtain lofp pad where lo: "line_offset_byte (next_line l s) (line s) = Some lofp"
    and u: "u = fst (data_unit_contents s) # word_of_nat (length u - 2) # ucast lofp # snd (data_unit_contents s) @ pad"
    unfolding carries_def by blast
  have "u[1 := x] @ [0xFF] = fst (data_unit_contents s) # x # ucast lofp # snd (data_unit_contents s) @ (pad @ [0xFF])" for x
    by (subst u) simp
  moreover have "length (u[1 := x] @ [0xFF]) = length u + 1" "length u + 1 - 2 = length u - 1" for x by simp_all
  ultimately show ?thesis
    unfolding carries_def using lo assms(2) by (intro exI [of _ lofp] exI [of _ "pad @ [0xFF]"]) (simp del: length_append)
qed

lemma carry_last:
  "carry l ss us \<Longrightarrow> us \<noteq> [] \<Longrightarrow> length (last us) < 257 \<Longrightarrow>
     carry l ss (butlast us @ [(last us)[1 := word_of_nat (length (last us) - 1)] @ [0xFF]])"
proof (induction l ss us rule: carry.induct)
  case (3 l s ss u us)
  show ?case
  proof (cases "us = []")
    case True
    with 3 have "ss = []" by (cases ss) auto
    then show ?thesis using 3 True carries_longer by simp
  next
    case False
    then show ?thesis using 3 by (cases us) auto
  qed
qed simp_all

lemma carry_same_length: "carry l ss us \<Longrightarrow> length ss = length us"
  by (induction l ss us rule: carry.induct) auto

text \<open>The loop stops early only if there is no room for the next line.\<close>

lemma insert_sliced_loop_stop:
  "insert_sliced_loop service_mask fixed_length l packet p_left ldu ss = (None, packet', ldu', rest) \<Longrightarrow> rest \<noteq> [] \<Longrightarrow>
     list_all (\<lambda>s. length (data s) = 56) ss \<Longrightarrow> id (hd rest) AND service_mask \<noteq> 0 \<and> p_left < length packet' - length packet + 46"
proof (induction ss arbitrary: l packet p_left ldu)
  case (Cons s ss)
  note [simp del] = insert_sliced_loop.simps(2)
  note eq = Cons.prems(1) [unfolded insert_sliced_loop.simps(2)]
  show ?case
  proof (cases "id s AND service_mask = 0")
    case True
    then show ?thesis using eq Cons by simp
  next
    case False
    then obtain n where n: "service_du_size s = Inr n"
      using eq by (cases "service_du_size s") (auto simp: Let_def split: if_splits)
    let ?n = "if fixed_length then 2 + 0x2C else n"
    show ?thesis
    proof (cases "?n > p_left")
      case True
      have "n \<le> 46" using service_du_size_range [OF n] by auto
      then show ?thesis using True False eq n by (auto simp: Let_def split: if_splits)
    next
      case fits: False
      then obtain lofp where lofp: "line_offset_byte (next_line l s) (line s) = Some lofp"
        and e: "insert_sliced_loop service_mask fixed_length (next_line l s) (packet @ data_unit fixed_length ?n lofp s) (p_left - ?n) ?n ss
          = (None, packet', ldu', rest)"
        using eq False n by (auto simp: Let_def next_line_def split: if_splits option.splits)
      have d: "length (data s) = 56" "list_all (\<lambda>s. length (data s) = 56) ss" using Cons.prems(3) by simp_all
      have len: "length (data_unit fixed_length ?n lofp s) = ?n" using data_unit_carries(2) [OF n d(1) lofp, of fixed_length] by (cases fixed_length) simp_all
      obtain us where "packet' = (packet @ data_unit fixed_length ?n lofp s) @ concat us"
        using insert_sliced_loop_spec [OF e d(2)] by blast
      then have "length packet' = length packet + ?n + length (concat us)" using len by (simp only: length_append)
      moreover have "id (hd rest) AND service_mask \<noteq> 0" "p_left - ?n < length packet' - (length packet + ?n) + 46"
        using Cons.IH [OF e Cons.prems(2) d(2)] unfolding length_append len by blast+
      ultimately show ?thesis by linarith
    qed
  qed
qed simp

lemma unit_sizes:
  assumes "list_all (\<lambda>u. if fx then length u = 46 else length u \<in> {5, 16, 46}) us"
  shows "list_all (\<lambda>u. 2 \<le> length u \<and> length u < 257) us" "length (concat us) \<le> 46 * length us"
    "fx \<Longrightarrow> length (concat us) = 46 * length us"
proof -
  show "list_all (\<lambda>u. 2 \<le> length u \<and> length u < 257) us" using assms by (auto simp: list_all_iff split: if_splits)
  show "length (concat us) \<le> 46 * length us" using assms by (induction us) (auto split: if_splits)
  show "length (concat us) = 46 * length us" if fx using assms that by (induction us) auto
qed

text \<open>The stuffing after the lines of \<^const>\<open>insert_sliced_loop\<close>.\<close>

lemma stuffing_after_lines:
  assumes "list_all (\<lambda>u. if fx then length u = 46 else length u \<in> {5, 16, 46}) us"
    and "2 \<le> packet_left" "fx \<longrightarrow> packet_left mod 46 = 0" "length (concat us) \<le> packet_left"
    and "ldu = (if us = [] then 0 else length (last us))"
  obtains us' t where "encode_stuffing fx (p0 @ concat us) (packet_left - length (concat us)) ldu = Some (p0 @ concat us' @ t)"
    and "stuffing t" "length (concat us' @ t) = packet_left"
    and "us' = us \<or> us \<noteq> [] \<and> us' = butlast us @ [(last us)[1 := word_of_nat (length (last us) - 1)] @ [0xFF]]"
proof -
  let ?left = "packet_left - length (concat us)"
  note sizes = unit_sizes [OF assms(1)]
  have c2: "fx \<longrightarrow> ?left mod 46 = 0"
    using assms(3) sizes(3) by (auto simp: mod_eq_0_iff_dvd dvd_diff_nat)
  have c1: "?left mod stuffing_du_size fx = 1 \<longrightarrow> 2 \<le> ?left \<or> us \<noteq> []"
    using assms(2) by auto
  have "length (concat us) + ?left = packet_left" using assms(4) by simp
  with encode_stuffing_spec [OF c1 c2 assms(5) sizes(1), of p0] that show thesis by metis
qed



text \<open>C34: the lines that fit into the packet arrive at the demultiplexer in order, each with the service and the
  payload that \<^const>\<open>receive\<close> describes, and the packet is filled up with stuffing which the demultiplexer skips;
  if there is room for all the lines none is left.\<close>

theorem dvb_multiplex_roundtrip:
  assumes "list_all (\<lambda>s. length (data s) = 56) sliced"
    and "vbi_dvb_multiplex_sliced (Some p0) packet_left sliced service_mask data_identifier True = Some (True, Some packet, left, rest)"
    and "length sliced \<le> length buffer"
  shows "\<exists>sent bytes. sliced = sent @ rest \<and> packet = p0 @ bytes \<and> length bytes = packet_left \<and> left = 0
    \<and> (let lines = filter (\<lambda>s. id s AND service_mask \<noteq> 0) sent in
        vbi_dvb_demultiplex_sliced buffer (Some bytes) = Some (True, store_lines 0 lines buffer, Some (length lines), Some []))
    \<and> (46 * length (filter (\<lambda>s. id s AND service_mask \<noteq> 0) sliced) \<le> packet_left \<longrightarrow> rest = [])"
proof -
  let ?w = "\<lambda>s. id s AND service_mask \<noteq> 0" and ?fx = "fixed_length_format data_identifier"
  from assms(2) obtain p' ldu where ins: "insert_sliced_loop service_mask ?fx 0 p0 packet_left 0 sliced = (None, p', ldu, rest)"
    and enc: "encode_stuffing ?fx p' (packet_left - (length p' - length p0)) ldu = Some packet" and "left = 0"
    and "2 \<le> packet_left" "?fx \<longrightarrow> packet_left mod 46 = 0"
    by (auto simp: vbi_dvb_multiplex_sliced_def insert_sliced_data_units_def Let_def split: if_splits prod.splits)
  from insert_sliced_loop_spec [OF ins assms(1)] obtain sent us where
    sl: "sliced = sent @ rest" and p': "p' = p0 @ concat us" and ok: "sendable 0 (filter ?w sent)"
    and cy: "carry 0 (filter ?w sent) us" and fit: "length (concat us) \<le> packet_left"
    and ldu: "ldu = (if us = [] then 0 else length (last us))"
    and sizes: "list_all (\<lambda>u. if ?fx then length u = 46 else length u \<in> {5, 16, 46}) us" by blast
  let ?ls = "filter ?w sent" and ?left = "packet_left - length (concat us)"
  have e: "encode_stuffing ?fx (p0 @ concat us) ?left ldu = Some packet" using enc p' by simp
  from stuffing_after_lines [OF sizes \<open>2 \<le> packet_left\<close> \<open>?fx \<longrightarrow> packet_left mod 46 = 0\<close> fit ldu, of p0, unfolded e option.inject]
  obtain us' t where pk: "packet = p0 @ concat us' @ t" and st: "stuffing t" and total: "length (concat us' @ t) = packet_left"
    and us': "us' = us \<or> us \<noteq> [] \<and> us' = butlast us @ [(last us)[1 := word_of_nat (length (last us) - 1)] @ [0xFF]]" .
  have cy': "carry 0 ?ls us'"
    using us' cy carry_last [OF cy] unit_sizes(1) [OF sizes] by (auto simp: list_all_iff)
  let ?f = "clear_frame\<lparr>sliced_begin := Some buffer\<rparr>"
  have f: "frame_at 0 ?f" "sliced_begin ?f = Some buffer" "sp ?f = 0" by (simp_all add: frame_at_def clear_frame_def)
  have "length ?ls \<le> length buffer" using assms(3) sl le_trans [OF length_filter_le [of ?w sent]] by simp
  then obtain f' where f': "extract_loop ?f (concat us' @ t) 0 = extract_loop f' t (length (concat us'))"
    "sliced_begin f' = Some (store_lines 0 ?ls buffer)" "sp f' = length ?ls"
    using extract_loop_carry [OF f(1,2) _ ok cy', of t 0] f(3) by auto
  obtain f'' where f'': "extract_loop f' t (length (concat us')) = Some (Success, f'', length (concat us') + length t)"
    "sliced_begin f'' = sliced_begin f'" "sp f'' = sp f'" using extract_loop_stuffing [OF st] by blast
  have "vbi_dvb_demultiplex_sliced buffer (Some (concat us' @ t)) =
      Some (True, store_lines 0 ?ls buffer, Some (length ?ls), Some [])"
    using total \<open>2 \<le> packet_left\<close> f' f''
    by (simp add: vbi_dvb_demultiplex_sliced_def extract_data_units_def)
  moreover have "rest = []" if "46 * length (filter ?w sliced) \<le> packet_left"
  proof (rule ccontr)
    assume "rest \<noteq> []"
    with insert_sliced_loop_stop [OF ins this assms(1)] have
      w: "?w (hd rest)" and small: "packet_left < length (concat us) + 46" using p' by simp_all
    have "length (concat us) \<le> 46 * length us" by (rule unit_sizes(2) [OF sizes])
    moreover have "length us = length ?ls" using carry_same_length [OF cy] ..
    moreover have "length (filter ?w rest) \<noteq> 0" using w \<open>rest \<noteq> []\<close> by (cases rest) auto
    moreover have "length (filter ?w sliced) = length ?ls + length (filter ?w rest)" by (simp add: sl)
    ultimately show False using small that by linarith
  qed
  ultimately show ?thesis using sl pk total \<open>left = 0\<close> unfolding Let_def by blast
qed

definition mux_lines :: "vbi_sliced list" where
  "mux_lines = [\<lparr>id = VBI_SLICED_TELETEXT_B, line = 7, data = replicate 56 0x31\<rparr>,
                \<lparr>id = VBI_SLICED_VPS, line = 16, data = replicate 56 0x5A\<rparr>]"

theorem dvb_multiplex_roundtrip_witness:
  "\<exists>packet. vbi_dvb_multiplex_sliced (Some []) 63 mux_lines 0xFFFFFFFF 0x99 True = Some (True, Some packet, 0, [])
     \<and> length packet = 63
     \<and> vbi_dvb_demultiplex_sliced mux_lines (Some packet) = Some (True, store_lines 0 mux_lines mux_lines, Some 2, Some [])"
proof -
  have "case vbi_dvb_multiplex_sliced (Some []) 63 mux_lines 0xFFFFFFFF 0x99 True of
      Some (b, Some packet, left, rest) \<Rightarrow> b \<and> left = 0 \<and> rest = [] | _ \<Rightarrow> False"
    by code_simp
  then have "\<exists>packet. vbi_dvb_multiplex_sliced (Some []) 63 mux_lines 0xFFFFFFFF 0x99 True = Some (True, Some packet, 0, [])"
    by (auto split: option.splits)
  then obtain packet where p: "vbi_dvb_multiplex_sliced (Some []) 63 mux_lines 0xFFFFFFFF 0x99 True = Some (True, Some packet, 0, [])" ..
  have l: "list_all (\<lambda>s. length (data s) = 56) mux_lines" "length mux_lines \<le> length mux_lines"
    by (simp_all add: mux_lines_def)
  have f: "filter (\<lambda>s. id s AND 0xFFFFFFFF \<noteq> 0) mux_lines = mux_lines" "length mux_lines = 2" by (simp_all add: mux_lines_def)
  show ?thesis
    using dvb_multiplex_roundtrip [OF l(1) p l(2)] unfolding Let_def append_Nil append_Nil2 using p f by auto
qed

end
