(* ===== verification/Dvb_Mux.thy ===== *)
theory Dvb_Mux
  imports Dvb_Frame
begin

text \<open>The packet layer of the DVB multiplexer, dvb_mux.c from \<^verbatim>\<open>struct _vbi_dvb_mux\<close> on, and the check of the
  sampling parameters it uses from sampling_par.c. The unfinished raw line is the list \<open>raw_samples\<close>, so
  \<^verbatim>\<open>raw_samples_left\<close> is its length; a raw frame is a list of bytes. Fields of the sampling parameters that the code
  casts to unsigned are 32 bit words. The output buffer holds what \<^verbatim>\<open>mx->packet\<close> holds up to the end of the last
  packet. \<^const>\<open>None\<close> as a result is a failed assertion, a \<^verbatim>\<open>NULL\<close> dereference or an access outside of the raw frame.\<close>

unbundle bit_operations_syntax

subsection \<open>Sampling parameters\<close>

record vbi_sampling_par =
  scanning :: int
  sampling_format :: nat
  sampling_rate :: int
  bytes_per_line :: u32
  offset :: u32
  start :: "u32 \<times> u32"
  count :: "u32 \<times> u32"
  interlaced :: bool
  synchronous :: bool

abbreviation (input) "VBI_PIXFMT_YUV420 \<equiv> 1 :: nat"

definition VBI_PIXFMT_BPP :: "nat \<Rightarrow> u32" where
  "VBI_PIXFMT_BPP fmt = (if fmt = 1 then 1 else if 32 \<le> fmt \<and> fmt \<le> 35 then 4 else if fmt = 36 \<or> fmt = 37 then 3 else 2)"

definition vbi_videostd_set_from_scanning :: "int \<Rightarrow> u64" where
  "vbi_videostd_set_from_scanning n =
     (if n = 525 then VBI_VIDEOSTD_SET_525_60 else if n = 625 then VBI_VIDEOSTD_SET_625_50 else 0)"

definition range_check :: "u32 \<Rightarrow> u32 \<Rightarrow> u32 \<Rightarrow> u32 \<Rightarrow> bool" where
  "range_check first n lo hi \<longleftrightarrow> first \<ge> lo \<and> first + n \<le> hi \<and> first + n \<ge> first"

definition vbi_sampling_par_valid :: "vbi_sampling_par \<Rightarrow> bool" where
  "vbi_sampling_par_valid par =
     (let videostd_set = vbi_videostd_set_from_scanning (scanning par);
          (start0, start1) = start par; (count0, count1) = count par;
          ranges_ok = (\<lambda>max0 min1 max1. (0 = start0 \<or> range_check start0 count0 1 max0)
            \<and> (0 = start1 \<or> range_check start1 count1 min1 max1)) in
      if VBI_PIXFMT_YUV420 \<noteq> sampling_format par \<and> 0 \<noteq> bytes_per_line par mod VBI_PIXFMT_BPP (sampling_format par) then False
      else if 0 = bytes_per_line par then False
      else if 0 = count0 \<and> 0 = count1 then False
      else if VBI_VIDEOSTD_SET_525_60 AND videostd_set \<noteq> 0 then
        if VBI_VIDEOSTD_SET_625_50 AND videostd_set \<noteq> 0 then False
        else ranges_ok 262 263 525 \<and> \<not> (interlaced par \<and> (count0 \<noteq> count1 \<or> 0 = count0))
      else if VBI_VIDEOSTD_SET_625_50 AND videostd_set \<noteq> 0 then
        ranges_ok 311 312 625 \<and> \<not> (interlaced par \<and> (count0 \<noteq> count1 \<or> 0 = count0))
      else False)"

subsection \<open>State\<close>

record vbi_dvb_mux =
  packet :: "u8 list"
  min_packet_size :: nat
  max_packet_size :: nat
  data_identifier :: u32
  raw_samples :: "u8 list"
  raw_line :: u32
  raw_line_offset :: u32
  raw_samples_per_line :: u32
  pid :: u32
  continuity_counter :: u32
  cor_offset :: nat
  cor_end :: nat
  cor_ts_left :: nat

definition MAX_PES_PACKET_SIZE :: nat where
  "MAX_PES_PACKET_SIZE = 6 + 65535 - (6 + 65535) mod 184"

abbreviation (input) BT601_625_OFFSET :: u32 where "BT601_625_OFFSET \<equiv> 864 - 12 - 720"

definition vbi_dvb_mux_reset :: "vbi_dvb_mux \<Rightarrow> vbi_dvb_mux" where
  "vbi_dvb_mux_reset mx =
     mx\<lparr>raw_samples := [], continuity_counter := (continuity_counter mx - 1) AND 0xF, cor_offset := 0, cor_end := 0\<rparr>"

text \<open>The list of the samples of a line. \<open>rawbuf\<close> is \<^const>\<open>None\<close> for \<^verbatim>\<open>NULL\<close>.\<close>

definition samples_pointer :: "u8 list option \<Rightarrow> vbi_sampling_par option \<Rightarrow> u32 \<Rightarrow> (mux_error + u8 list) option" where
  "samples_pointer rawbuf par l =
     (case (rawbuf, par) of
        (None, _) \<Rightarrow> Some (Inl VBI_ERR_NO_RAW_DATA)
      | (Some _, None) \<Rightarrow> Some (Inl VBI_ERR_SAMPLING_PAR)
      | (Some rawbuf, Some par) \<Rightarrow>
          if 0 = l then Some (Inl VBI_ERR_LINE_NUMBER)
          else
            let second = l \<ge> 313;
                first_line = (if second then snd (start par) else fst (start par));
                lines = (if second then snd (count par) else fst (count par));
                row = l - first_line in
            if l < first_line then Some (Inl VBI_ERR_RAW_BUFFER_OVERFLOW)
            else if row \<ge> lines then Some (Inl VBI_ERR_RAW_BUFFER_OVERFLOW)
            else
              let row = (if interlaced par then row * 2 + of_bool second else if second then row + fst (count par) else row);
                  samples = take (unat (bytes_per_line par)) (drop (unat (row * bytes_per_line par)) rawbuf) in
              if length samples < unat (bytes_per_line par) then None else Some (Inr samples))"

definition encode_timestamp :: "u64 \<Rightarrow> u8 \<Rightarrow> u8 list" where
  "encode_timestamp pts mark =
     (let t = ucast pts :: u32 in
      [mark + ucast (drop_bit 29 pts AND 0xE), ucast (drop_bit 22 t), ucast (drop_bit 14 t OR 1), ucast (drop_bit 7 t),
       ucast (t * 2 + 1)])"

definition valid_sampling_par :: "vbi_sampling_par \<Rightarrow> bool" where
  "valid_sampling_par par =
     (let samples_end = offset par + bytes_per_line par in
      if 625 \<noteq> scanning par then False
      else if VBI_PIXFMT_YUV420 \<noteq> sampling_format par then False
      else if 13500000 \<noteq> sampling_rate par then False
      else if offset par < BT601_625_OFFSET then False
      else if samples_end > BT601_625_OFFSET + 720 then False
      else if samples_end < bytes_per_line par then False
      else if \<not> synchronous par then False
      else vbi_sampling_par_valid par)"

definition init_pes_packet_header :: "vbi_dvb_mux \<Rightarrow> vbi_dvb_mux" where
  "init_pes_packet_header mx =
     mx\<lparr>packet := take 4 (packet mx) @ [0x00, 0x00, 0x01, 0xBD] @ take 2 (drop 8 (packet mx))
          @ [push_bit 6 2 OR push_bit 2 1, push_bit 6 2, 0x24] @ replicate 36 0xFF @ drop 49 (packet mx)\<rparr>"

subsection \<open>Packets\<close>

text \<open>The room between the end of the data and \<^verbatim>\<open>p_end\<close>. The packet begins with four bytes for a TS packet header.\<close>

definition p_left :: "vbi_dvb_mux \<Rightarrow> u8 list \<Rightarrow> nat" where
  "p_left mx p = 4 + max_packet_size mx - length p"

text \<open>The loop over the lines. \<open>pend\<close> are the lines between \<^verbatim>\<open>s_begin\<close> and \<^verbatim>\<open>s\<close>. The results are the error, the
  context, the packet, \<^verbatim>\<open>last_du_size\<close> and the lines left.\<close>

fun encode_lines ::
  "u32 \<Rightarrow> u8 list option \<Rightarrow> vbi_sampling_par option \<Rightarrow> bool \<Rightarrow> vbi_dvb_mux \<Rightarrow> u32 \<Rightarrow> u8 list \<Rightarrow> vbi_sliced list \<Rightarrow> vbi_sliced list
   \<Rightarrow> (mux_error option \<times> vbi_dvb_mux \<times> u8 list \<times> nat \<times> vbi_sliced list) option" where
  "encode_lines service_mask rawbuf par fixed_length mx last_line p pend [] =
     (let (err, p, last_du_size, left) = insert_sliced_data_units p (p_left mx p) pend service_mask fixed_length in
      Some (err, mx, p, last_du_size, left))"
| "encode_lines service_mask rawbuf par fixed_length mx last_line p pend (s # ss) =
     (if line s > 0 \<and> line s \<le> last_line then Some (Some VBI_ERR_LINE_ORDER, mx, p, 0, s # ss)
      else
        let last_line = (if line s > 0 then line s else last_line) in
        if VBI_SLICED_VBI_625 \<noteq> id s then encode_lines service_mask rawbuf par fixed_length mx last_line p (pend @ [s]) ss
        else
          let (err, p, last_du_size, left) = insert_sliced_data_units p (p_left mx p) pend service_mask fixed_length in
          if err \<noteq> None \<or> left \<noteq> [] then Some (err, mx, p, last_du_size, left @ s # ss)
          else if 0 = service_mask AND VBI_SLICED_VBI_625
          then encode_lines service_mask rawbuf par fixed_length mx last_line p [] ss
          else
            case (if raw_samples mx = [] then samples_pointer rawbuf par (line s) else Some (Inr (raw_samples mx))) of
              None \<Rightarrow> None
            | Some (Inl err) \<Rightarrow> Some (Some err, mx, p, last_du_size, s # ss)
            | Some (Inr samples) \<Rightarrow>
                case par of
                  None \<Rightarrow> None
                | Some sampling \<Rightarrow>
                    if length samples > 720 then None
                    else
                      case insert_raw_data_units p (p_left mx p) samples fixed_length VBI_VIDEOSTD_SET_625_50 (line s)
                             (unat (offset sampling - BT601_625_OFFSET)) (unat (bytes_per_line sampling)) True of
                        Inl err \<Rightarrow> Some (Some err, mx\<lparr>raw_samples := []\<rparr>, p, last_du_size, s # ss)
                      | Inr (p, last_du_size, r) \<Rightarrow>
                          if r \<noteq> [] then
                            Some (None, mx\<lparr>raw_samples := r, raw_line := line s, raw_line_offset := offset sampling,
                                           raw_samples_per_line := bytes_per_line sampling\<rparr>, p, last_du_size, s # ss)
                          else encode_lines service_mask rawbuf par fixed_length (mx\<lparr>raw_samples := []\<rparr>) last_line p [] ss)"

text \<open>Whether the first line continues the unfinished raw line.\<close>

definition raw_interrupted :: "vbi_dvb_mux \<Rightarrow> vbi_sliced list \<Rightarrow> vbi_sampling_par option \<Rightarrow> bool option" where
  "raw_interrupted mx sliced par =
     (if raw_samples mx = [] then Some False
      else
        case sliced of
          [] \<Rightarrow> Some True
        | s # _ \<Rightarrow>
            if VBI_SLICED_VBI_625 \<noteq> id s \<or> raw_line mx \<noteq> line s then Some True
            else
              case par of
                None \<Rightarrow> None
              | Some sampling \<Rightarrow> Some (raw_line_offset mx \<noteq> offset sampling \<or> raw_samples_per_line mx \<noteq> bytes_per_line sampling))"

text \<open>The results are the error, the context, the size of the packet and the lines left.\<close>

definition store_packet :: "u8 list \<Rightarrow> vbi_dvb_mux \<Rightarrow> vbi_dvb_mux" where
  "store_packet p mx = mx\<lparr>packet := p @ drop (length p) (packet mx)\<rparr>"

definition generate_pes_packet ::
  "vbi_dvb_mux \<Rightarrow> vbi_sliced list \<Rightarrow> u32 \<Rightarrow> u8 list option \<Rightarrow> vbi_sampling_par option \<Rightarrow> u64
   \<Rightarrow> (mux_error option \<times> vbi_dvb_mux \<times> nat \<times> vbi_sliced list) option" where
  "generate_pes_packet mx sliced service_mask rawbuf par pts =
     (let p = take 13 (packet mx) @ encode_timestamp pts 0x21 @ take 31 (drop 18 (packet mx)) @ [ucast (data_identifier mx)];
          mx = store_packet p mx;
          fixed_length = fixed_length_format (data_identifier mx) in
      case raw_interrupted mx sliced par of
        None \<Rightarrow> None
      | Some True \<Rightarrow> Some (Some VBI_ERR_RAW_DATA_INTERRUPTION, mx, 0, sliced)
      | Some False \<Rightarrow>
          case encode_lines service_mask rawbuf par fixed_length mx 0 p [] sliced of
            None \<Rightarrow> None
          | Some (Some err, mx, p, _, s) \<Rightarrow> Some (Some err, store_packet p mx, 0, s)
          | Some (None, mx, p, last_du_size, s) \<Rightarrow>
              let size = length p - 4; remainder = size mod 184;
                  left = (if size < min_packet_size mx then min_packet_size mx - size
                          else if remainder > 0 then 184 - remainder else 0);
                  size = size + left in
              case encode_stuffing fixed_length p left last_du_size of
                None \<Rightarrow> None
              | Some p \<Rightarrow>
                  let p = p[4 + 4 := word_of_nat ((size - 6) div 256), 4 + 5 := word_of_nat (size - 6)] in
                  Some (None, store_packet p mx, size, s))"

definition generate_ts_packet_header :: "vbi_dvb_mux \<Rightarrow> nat \<Rightarrow> vbi_dvb_mux" where
  "generate_ts_packet_header mx i =
     (let b1 = drop_bit 8 (pid mx);
          header = [0x47, ucast (if i = 0 then push_bit 6 1 OR b1 else b1), ucast (pid mx),
                    ucast (push_bit 4 1 + (continuity_counter mx AND 15))] in
      mx\<lparr>packet := take i (packet mx) @ header @ drop (i + 4) (packet mx), continuity_counter := continuity_counter mx + 1\<rparr>)"

subsection \<open>The interface\<close>

definition vbi_dvb_mux_get_data_identifier :: "vbi_dvb_mux \<Rightarrow> u32" where
  "vbi_dvb_mux_get_data_identifier mx = data_identifier mx"

definition vbi_dvb_mux_set_data_identifier :: "vbi_dvb_mux \<Rightarrow> u32 \<Rightarrow> bool \<times> vbi_dvb_mux" where
  "vbi_dvb_mux_set_data_identifier mx n =
     (if n \<ge> 0x10 \<and> n < 0x20 \<or> n \<ge> 0x99 \<and> n < 0x9C then (True, mx\<lparr>data_identifier := n\<rparr>) else (False, mx))"

definition vbi_dvb_mux_get_min_pes_packet_size :: "vbi_dvb_mux \<Rightarrow> nat" where
  "vbi_dvb_mux_get_min_pes_packet_size mx = min_packet_size mx"

definition vbi_dvb_mux_get_max_pes_packet_size :: "vbi_dvb_mux \<Rightarrow> nat" where
  "vbi_dvb_mux_get_max_pes_packet_size mx = max_packet_size mx"

definition vbi_dvb_mux_set_pes_packet_size :: "vbi_dvb_mux \<Rightarrow> nat \<Rightarrow> nat \<Rightarrow> bool \<times> vbi_dvb_mux" where
  "vbi_dvb_mux_set_pes_packet_size mx min_size max_size =
     (let min_size = (if min_size < 184 then 184
                      else if min_size > MAX_PES_PACKET_SIZE then MAX_PES_PACKET_SIZE
                      else min_size + 183 - (min_size + 183) mod 184);
          max_size = (if max_size < min_size then min_size
                      else if max_size > MAX_PES_PACKET_SIZE then MAX_PES_PACKET_SIZE
                      else max_size - max_size mod 184)
      in (True, mx\<lparr>min_packet_size := min_size, max_packet_size := max_size\<rparr>))"

text \<open>The flags are the success of the two allocations, \<open>garbage\<close> the bytes of the new packet buffer.\<close>

definition vbi_dvb_pes_mux_new :: "bool \<Rightarrow> bool \<Rightarrow> u8 list \<Rightarrow> vbi_dvb_mux option" where
  "vbi_dvb_pes_mux_new mem1 mem2 garbage =
     (if mem1 \<and> mem2 then
        Some (init_pes_packet_header
          \<lparr>packet = garbage, min_packet_size = 184, max_packet_size = MAX_PES_PACKET_SIZE, data_identifier = 0x10,
           raw_samples = [], raw_line = 0, raw_line_offset = 0, raw_samples_per_line = 0, pid = 0,
           continuity_counter = 0, cor_offset = 0, cor_end = 0, cor_ts_left = 0\<rparr>)
      else None)"

definition vbi_dvb_ts_mux_new :: "u32 \<Rightarrow> bool \<Rightarrow> bool \<Rightarrow> u8 list \<Rightarrow> vbi_dvb_mux option" where
  "vbi_dvb_ts_mux_new n mem1 mem2 garbage =
     (if n \<le> 0x000F \<or> n \<ge> 0x1FFF then None
      else map_option (\<lambda>mx. mx\<lparr>pid := n\<rparr>) (vbi_dvb_pes_mux_new mem1 mem2 garbage))"

text \<open>The callback gets a PES packet or one TS packet after the other; it works on a state of its own and can stop
  the output.\<close>

function feed_ts_packets ::
  "('s \<Rightarrow> u8 list \<Rightarrow> bool \<times> 's) \<Rightarrow> vbi_dvb_mux \<Rightarrow> nat \<Rightarrow> nat \<Rightarrow> 's \<Rightarrow> bool \<times> vbi_dvb_mux \<times> 's" where
  "feed_ts_packets cb mx packet_size i s =
     (let mx = generate_ts_packet_header mx i;
          (ok, s) = cb s (take 188 (drop i (packet mx))) in
      if \<not> ok then (False, mx, s)
      else if i + 184 < packet_size then feed_ts_packets cb mx packet_size (i + 184) s
      else (True, mx, s))"
  by pat_completeness auto
termination by (relation "measure (\<lambda>(cb, mx, packet_size, i, s). packet_size - i)") auto

declare feed_ts_packets.simps [simp del]

definition vbi_dvb_mux_feed ::
  "('s \<Rightarrow> u8 list \<Rightarrow> bool \<times> 's) option \<Rightarrow> vbi_dvb_mux \<Rightarrow> vbi_sliced list \<Rightarrow> u32 \<Rightarrow> u8 list option
   \<Rightarrow> vbi_sampling_par option \<Rightarrow> u64 \<Rightarrow> 's \<Rightarrow> (bool \<times> vbi_dvb_mux \<times> 's) option" where
  "vbi_dvb_mux_feed callback mx sliced service_mask rawbuf par pts s =
     (case callback of
        None \<Rightarrow> Some (False, mx, s)
      | Some cb \<Rightarrow>
          if case par of None \<Rightarrow> False | Some par \<Rightarrow> \<not> valid_sampling_par par then Some (False, mx, s)
          else
            let mx = (if cor_offset mx < cor_end mx then mx\<lparr>cor_end := 0\<rparr> else mx) in
            case generate_pes_packet mx sliced service_mask rawbuf par pts of
              None \<Rightarrow> None
            | Some (err, mx, packet_size, s_left) \<Rightarrow>
                if err \<noteq> None then Some (False, mx, s)
                else if s_left \<noteq> [] then Some (False, mx, s)
                else if 0 = pid mx then
                  let (ok, s) = cb s (take packet_size (drop 4 (packet mx))) in Some (ok, mx, s)
                else Some (feed_ts_packets cb mx packet_size 0 s))"

text \<open>The coroutine copies \<open>room\<close> bytes of the packet to the output buffer. The results are the bytes written.\<close>

function cor_ts_packets :: "vbi_dvb_mux \<Rightarrow> nat \<Rightarrow> nat \<Rightarrow> nat \<Rightarrow> u8 list \<Rightarrow> vbi_dvb_mux \<times> u8 list \<times> nat \<times> nat" where
  "cor_ts_packets mx room i ts_left out =
     (let (mx, i, ts_left) = (if 0 = ts_left then (generate_ts_packet_header mx (i - 4), i - 4, 188) else (mx, i, ts_left));
          n = min room ts_left;
          out = out @ take n (drop i (packet mx)) in
      if room - n > 0 \<and> i + n < cor_end mx then cor_ts_packets mx (room - n) (i + n) (ts_left - n) out
      else (mx, out, i + n, ts_left - n))"
  by pat_completeness auto
termination
  by (relation "measure (\<lambda>(mx, room, i, ts_left, out). room)") (auto split: if_splits)

declare cor_ts_packets.simps [simp del]

definition vbi_dvb_mux_cor ::
  "vbi_dvb_mux \<Rightarrow> nat option \<Rightarrow> vbi_sliced list \<Rightarrow> u32 \<Rightarrow> u8 list option \<Rightarrow> vbi_sampling_par option \<Rightarrow> u64
   \<Rightarrow> (bool \<times> vbi_dvb_mux \<times> u8 list \<times> vbi_sliced list) option" where
  "vbi_dvb_mux_cor mx room sliced service_mask rawbuf par pts =
     (if room = None \<or> room = Some 0 then Some (False, mx, [], sliced)
      else if case par of None \<Rightarrow> False | Some par \<Rightarrow> \<not> valid_sampling_par par then Some (False, mx, [], sliced)
      else
        let output = (\<lambda>mx i.
              let (mx, out, i) =
                (if 0 = pid mx then
                   let n = min (the room) (cor_end mx - i) in (mx, take n (drop i (packet mx)), i + n)
                 else
                   let (mx, out, i, ts_left) = cor_ts_packets mx (the room) i (cor_ts_left mx) [] in
                   (mx\<lparr>cor_ts_left := ts_left\<rparr>, out, i))
              in Some (True, mx\<lparr>cor_offset := i\<rparr>, out, if i \<ge> cor_end mx then [] else sliced)) in
        if cor_offset mx \<ge> cor_end mx then
          if sliced = [] then Some (False, mx, [], sliced)
          else
            case generate_pes_packet mx sliced service_mask rawbuf par pts of
              None \<Rightarrow> None
            | Some (err, mx, packet_size, s_left) \<Rightarrow>
                if err \<noteq> None \<or> s_left \<noteq> [] then Some (False, mx\<lparr>cor_end := 0\<rparr>, [], s_left)
                else output (mx\<lparr>cor_end := packet_size + 4, cor_ts_left := 0\<rparr>) 4
        else output mx (cor_offset mx))"

end
