(* ===== verification/Dvb_Transmission.thy ===== *)
theory Dvb_Transmission
  imports Dvb_Roundtrip Dvb_Stream Dvb_Mux
begin
text \<open>From the lines of a frame to the callback: what \<^const>\<open>vbi_dvb_mux_feed\<close> of dvb_mux.c sends, in packets of a PES
  stream cut into any pieces, \<^const>\<open>vbi_dvb_demux_feed\<close> of dvb_demux.c gives to its callback.\<close>

unbundle bit_operations_syntax

subsection \<open>Time stamps\<close>

lemma bit_twice: "bit (t * 2) n \<longleftrightarrow> 0 < n \<and> n < 32 \<and> bit t (n - 1)" for t :: u32
proof -
  have "t * 2 = push_bit 1 t" by (simp add: push_bit_eq_mult)
  then show ?thesis by (simp only: bit_simps) (auto simp: Suc_le_eq)
qed

lemma double_or_one: "t * 2 + 1 = t * 2 OR 1" for t :: u32
proof -
  have "t * 2 AND 1 = 0" by (rule bit_word_eqI) (auto simp: bit_twice bit_simps)
  from or_eq_plus [OF this] show ?thesis ..
qed

lemma timestamp_low:
  "push_bit 22 (ucast (ucast (drop_bit 22 t) :: u8)) OR push_bit 14 (ucast (ucast (drop_bit 14 t OR 1) :: u8) AND NOT 1)
     OR push_bit 7 (ucast (ucast (drop_bit 7 t) :: u8)) OR drop_bit 1 (ucast (ucast (t * 2 + 1) :: u8)) = take_bit 30 t"
  for t :: u32
  unfolding double_or_one by (simp add: u32_eq_bits all_lt_32 bit_simps bit_twice)

lemma bit_0xE: "bit (0xE :: u64) n \<longleftrightarrow> n \<in> {1, 2, 3}" "bit (0xE :: u8) n \<longleftrightarrow> n \<in> {1, 2, 3}"
    "bit (0xE :: nat) n \<longleftrightarrow> n \<in> {1, 2, 3}" "bit (0xE :: int) n \<longleftrightarrow> n \<in> {1, 2, 3}"
proof -
  have "(0xE :: u64) = push_bit 1 (mask 3)" "(0xE :: u8) = push_bit 1 (mask 3)" "(0xE :: nat) = push_bit 1 (mask 3)"
    "(0xE :: int) = push_bit 1 (mask 3)" by (simp_all add: mask_eq_exp_minus_1 push_bit_eq_mult)
  then show "bit (0xE :: u64) n \<longleftrightarrow> n \<in> {1, 2, 3}" "bit (0xE :: u8) n \<longleftrightarrow> n \<in> {1, 2, 3}"
    "bit (0xE :: nat) n \<longleftrightarrow> n \<in> {1, 2, 3}" "bit (0xE :: int) n \<longleftrightarrow> n \<in> {1, 2, 3}"
    by (simp_all only: bit_simps) auto
qed

lemma timestamp_high:
  "push_bit 29 (ucast (0x21 + ucast (drop_bit 29 pts AND 0xE) :: u8) AND 0x0E) = push_bit 30 (take_bit 3 (drop_bit 30 pts))"
  for pts :: u64
proof -
  let ?x = "ucast (drop_bit 29 pts AND 0xE) :: u8"
  have "0x21 AND ?x = 0" by (simp add: u8_eq_bits all_lt_8 bit_simps)
  from or_eq_plus [OF this] have e: "0x21 + ?x = 0x21 OR ?x" ..
  have "(0x21 OR ?x) AND 0xE = ?x" by (simp add: u8_eq_bits all_lt_8 bit_simps)
  then have "ucast ((0x21 OR ?x) AND 0xE) = (ucast ?x :: u64)" by simp
  then have "ucast (0x21 OR ?x) AND 0x0E = (ucast ?x :: u64)" by (simp only: unsigned_and_eq) simp
  moreover have "push_bit 29 (ucast ?x :: u64) = push_bit 30 (take_bit 3 (drop_bit 30 pts))"
  proof (rule bit_word_eqI)
    fix n
    assume "n < LENGTH(64)"
    consider "n < 30" | "n = 30" | "n = 31" | "n = 32" | "32 < n" by linarith
    then show "bit (push_bit 29 (ucast ?x :: u64)) n = bit (push_bit 30 (take_bit 3 (drop_bit 30 pts))) n"
      by cases (auto simp: bit_simps bit_0xE)
  qed
  ultimately show ?thesis unfolding e by simp
qed

lemma timestamp_roundtrip:
  "decode_timestamp (encode_timestamp pts 0x21 @ t) = take_bit 33 pts"
proof -
  have "ucast (take_bit 30 (ucast pts :: u32)) OR push_bit 30 (take_bit 3 (drop_bit 30 pts)) = take_bit 33 pts"
  proof (rule bit_word_eqI)
    fix n
    assume "n < LENGTH(64)"
    then show "bit (ucast (take_bit 30 (ucast pts :: u32)) OR push_bit 30 (take_bit 3 (drop_bit 30 pts))) n = bit (take_bit 33 pts) n"
      by (cases "n < 30") (auto simp: bit_simps)
  qed
  then show ?thesis
    unfolding decode_timestamp_def encode_timestamp_def Let_def using timestamp_low [of "ucast pts"] timestamp_high [of pts]
    by simp
qed

subsection \<open>Packets of the multiplexer\<close>

definition valid_data_identifier :: "u32 \<Rightarrow> bool" where
  "valid_data_identifier n \<longleftrightarrow> n \<ge> 0x10 \<and> n < 0x20 \<or> n \<ge> 0x99 \<and> n < 0x9C"

text \<open>The contexts without an unfinished raw line. The packet begins with four bytes for a TS packet header; of the
  PES packet header the packet length and the 36 bytes at the end can vary.\<close>

definition pes_header_ok :: "u8 list \<Rightarrow> bool" where
  "pes_header_ok q \<longleftrightarrow> 49 \<le> length q \<and> take 4 (drop 4 q) = [0, 0, 1, 0xBD] \<and> take 3 (drop 10 q) = [0x84, 0x80, 0x24]"

definition mux_ok :: "vbi_dvb_mux \<Rightarrow> bool" where
  "mux_ok mx \<longleftrightarrow> raw_samples mx = [] \<and> valid_data_identifier (data_identifier mx) \<and> pes_header_ok (packet mx)
     \<and> 184 dvd min_packet_size mx \<and> 184 dvd max_packet_size mx \<and> 184 \<le> min_packet_size mx
     \<and> min_packet_size mx \<le> max_packet_size mx \<and> max_packet_size mx \<le> MAX_PES_PACKET_SIZE"

lemma pes_header_ok_take:
  assumes "pes_header_ok q" "take 13 q' = take 13 q" "49 \<le> length q'"
  shows "pes_header_ok q'"
proof -
  have a: "take 4 (drop 4 r) = drop 4 (take 8 (take 13 r))" and b: "take 3 (drop 10 r) = drop 10 (take 13 r)" for r :: "u8 list"
    by (simp_all add: drop_take)
  show ?thesis using assms(1,3) unfolding pes_header_ok_def a [of q] a [of q'] b [of q] b [of q'] assms(2) by blast
qed

text \<open>The header of a PES packet with the data identifier.\<close>

definition pes_packet_header :: "nat \<Rightarrow> u64 \<Rightarrow> u8 list \<Rightarrow> u32 \<Rightarrow> u8 list" where
  "pes_packet_header n pts fill di =
     [0, 0, 1, 0xBD, word_of_nat ((n - 6) div 256), word_of_nat (n - 6), 0x84, 0x80, 0x24] @ encode_timestamp pts 0x21 @ fill
       @ [ucast di]"

lemma length_encode_timestamp [simp]: "length (encode_timestamp pts mark) = 5"
  by (simp add: encode_timestamp_def Let_def)

lemma mux_ok_new:
  assumes "vbi_dvb_pes_mux_new True True garbage = Some mx" "49 \<le> length garbage"
  shows "mux_ok mx" "pid mx = 0"
proof -
  obtain a b c d where g: "take 4 garbage = [a, b, c, d]"
    using that [of "garbage ! 0" "garbage ! 1" "garbage ! 2" "garbage ! 3"] assms(2)
    by (simp add: list_eq_iff_nth_eq numeral_eq_Suc All_less_Suc)
  obtain e f where h: "take 2 (drop 8 garbage) = [e, f]"
    using that [of "garbage ! 8" "garbage ! 9"] assms(2) by (simp add: list_eq_iff_nth_eq numeral_eq_Suc All_less_Suc)
  have "packet mx = [a, b, c, d, 0, 0, 1, 0xBD, e, f, 0x84, 0x80, 0x24] @ replicate 36 0xFF @ drop 49 garbage"
    using assms(1) unfolding vbi_dvb_pes_mux_new_def init_pes_packet_header_def by (auto simp: g h)
  then have "pes_header_ok (packet mx)" by (simp add: pes_header_ok_def)
  then show "mux_ok mx" "pid mx = 0" using assms(1)
    by (auto simp: mux_ok_def vbi_dvb_pes_mux_new_def init_pes_packet_header_def valid_data_identifier_def MAX_PES_PACKET_SIZE_def)
qed

lemma round_down: "184 dvd n - n mod 184" "b \<le> n \<Longrightarrow> 184 dvd b \<Longrightarrow> b \<le> n - n mod 184" for n b :: nat
proof -
  show "184 dvd n - n mod 184" by (simp add: minus_mod_eq_mult_div)
  assume "b \<le> n" "184 dvd b"
  then obtain k where "b = 184 * k" "184 * k \<le> n" by (elim dvdE) simp
  then show "b \<le> n - n mod 184" by (simp add: minus_mod_eq_mult_div less_eq_div_iff_mult_less_eq mult.commute)
qed

lemma mux_ok_set_size:
  assumes "mux_ok mx" "vbi_dvb_mux_set_pes_packet_size mx lo hi = (ok, mx')"
  shows "mux_ok mx'" "pid mx' = pid mx"
proof -
  define m where "m = MAX_PES_PACKET_SIZE"
  have m: "184 dvd m" "184 \<le> m" by (simp_all add: m_def MAX_PES_PACKET_SIZE_def)
  define l where "l = (if lo < 184 then 184 else if lo > m then m else lo + 183 - (lo + 183) mod 184)"
  define h where "h = (if hi < l then l else if hi > m then m else hi - hi mod 184)"
  have l: "184 dvd l" "184 \<le> l" "l \<le> m"
  proof -
    show "184 dvd l" using m round_down(1) by (simp add: l_def)
    show "184 \<le> l" using m round_down(2) [of 184 "lo + 183"] by (simp add: l_def)
    have "lo + 183 - (lo + 183) mod 184 < m + 184" if "lo \<le> m" using that by simp
    moreover obtain j where "lo + 183 - (lo + 183) mod 184 = 184 * j" using round_down(1) [of "lo + 183"] by (elim dvdE)
    moreover obtain k where "m = 184 * k" using m(1) by (elim dvdE)
    ultimately show "l \<le> m" using m(2) by (auto simp: l_def)
  qed
  have h: "184 dvd h" "l \<le> h" "h \<le> m" using l m round_down by (auto simp: h_def)
  have "mx' = mx\<lparr>min_packet_size := l, max_packet_size := h\<rparr>"
    using assms(2) unfolding vbi_dvb_mux_set_pes_packet_size_def Let_def l_def h_def m_def by simp
  then show "mux_ok mx'" "pid mx' = pid mx" using assms(1) l h by (simp_all add: mux_ok_def m_def)
qed

lemma mux_ok_set_identifier: "mux_ok mx \<Longrightarrow> vbi_dvb_mux_set_data_identifier mx n = (ok, mx') \<Longrightarrow> mux_ok mx' \<and> pid mx' = pid mx"
  by (auto simp: vbi_dvb_mux_set_data_identifier_def mux_ok_def valid_data_identifier_def split: if_splits)

lemma encode_lines_sliced:
  assumes "\<forall>s \<in> set ss. id s \<noteq> VBI_SLICED_VBI_625"
  obtains rest where "encode_lines service_mask rawbuf par fx mx l p pend ss = Some (Some VBI_ERR_LINE_ORDER, mx, p, 0, rest)"
    | "encode_lines service_mask rawbuf par fx mx l p pend ss =
        (let (err, p, last_du_size, left) = insert_sliced_data_units p (p_left mx p) (pend @ ss) service_mask fx in
         Some (err, mx, p, last_du_size, left))"
  using assms
proof (induction ss arbitrary: l pend thesis)
  case (Cons s ss)
  show ?case
  proof (cases "line s > 0 \<and> line s \<le> l")
    case True
    then show ?thesis by (intro Cons.prems(1)) simp
  next
    case False
    have e: "encode_lines service_mask rawbuf par fx mx l p pend (s # ss) =
        encode_lines service_mask rawbuf par fx mx (if line s > 0 then line s else l) p (pend @ [s]) ss"
      unfolding encode_lines.simps(2) if_not_P [OF False] using Cons.prems(3) by simp
    show ?thesis
      using Cons.IH [of "if line s > 0 then line s else l" "pend @ [s]"] Cons.prems e by auto
  qed
qed simp

subsection \<open>A packet with the lines of a frame\<close>

abbreviation (input) "pes_wanted service_mask \<equiv> filter (\<lambda>s. id s AND service_mask \<noteq> 0)"

text \<open>The data units of the lines and the stuffing after them.\<close>

definition pes_payload :: "vbi_sliced list \<Rightarrow> u8 list \<Rightarrow> bool" where
  "pes_payload ss bytes \<longleftrightarrow> (\<exists>us t. bytes = concat us @ t \<and> sendable 0 ss \<and> carry 0 ss us \<and> stuffing t)"

lemma round_up:
  assumes "n \<le> hi" "lo \<le> hi" "184 dvd lo" "184 dvd (hi :: nat)"
  defines "left \<equiv> (if n < lo then lo - n else if n mod 184 > 0 then 184 - n mod 184 else 0)"
  shows "184 dvd n + left" "lo \<le> n + left" "n + left \<le> hi"
proof -
  obtain h where h: "hi = 184 * h" using assms(4) by (elim dvdE)
  have n: "n = 184 * (n div 184) + n mod 184" by simp
  have up: "n + left = 184 * (n div 184 + 1)" if "\<not> (n < lo \<or> n mod 184 = 0)"
  proof -
    define r d where "r = n mod 184" and "d = n div 184"
    have "left = 184 - r" using that by (simp add: left_def r_def)
    moreover have "r < 184" "n = 184 * d + r" using n by (simp_all add: r_def d_def)
    ultimately show ?thesis unfolding d_def [symmetric] by simp
  qed
  show "184 dvd n + left"
  proof (cases "n < lo \<or> n mod 184 = 0")
    case True
    then show ?thesis using assms(3) by (auto simp: left_def mod_eq_0_iff_dvd)
  next
    case False
    show ?thesis unfolding up [OF False] by simp
  qed
  show "lo \<le> n + left" by (simp add: left_def)
  show "n + left \<le> hi"
  proof (cases "n < lo \<or> n mod 184 = 0")
    case True
    then show ?thesis using assms(1,2) by (auto simp: left_def)
  next
    case False
    have "n div 184 < h" using False n assms(1) h by linarith
    then show ?thesis unfolding up [OF False] h by simp
  qed
qed

text \<open>Everything of a context but the packet.\<close>

lemma mux_ok_store: "mux_ok mx \<Longrightarrow> take 13 p = take 13 (packet mx) \<Longrightarrow> 13 \<le> length p \<Longrightarrow> mux_ok (store_packet p mx)"
proof -
  assume m: "mux_ok mx" and p: "take 13 p = take 13 (packet mx)" "13 \<le> length p"
  have h: "pes_header_ok (packet mx)" using m by (simp add: mux_ok_def)
  then have "49 \<le> length (packet mx)" by (simp add: pes_header_ok_def)
  then have l: "49 \<le> length (p @ drop (length p) (packet mx))" by simp
  have t: "take 13 (p @ drop (length p) (packet mx)) = take 13 (packet mx)" using p by simp
  have "pes_header_ok (p @ drop (length p) (packet mx))" by (rule pes_header_ok_take [OF h t l])
  then show ?thesis using m by (simp add: mux_ok_def store_packet_def)
qed

lemma store_packet_simps [simp]:
  "data_identifier (store_packet p mx) = data_identifier mx" "raw_samples (store_packet p mx) = raw_samples mx"
  "min_packet_size (store_packet p mx) = min_packet_size mx" "max_packet_size (store_packet p mx) = max_packet_size mx"
  "packet (store_packet p mx) = p @ drop (length p) (packet mx)" "mx\<lparr>packet := q\<rparr>\<lparr>packet := r\<rparr> = mx\<lparr>packet := r\<rparr>"
  by (simp_all add: store_packet_def)

lemma store_store: "store_packet q (store_packet p mx) = mx\<lparr>packet := q @ drop (length q) (p @ drop (length p) (packet mx))\<rparr>"
  by (simp add: store_packet_def)

lemma pes_header_ok_prefix:
  assumes "pes_header_ok q"
  obtains a b c d e f where "take 13 q = [a, b, c, d, 0, 0, 1, 0xBD, e, f, 0x84, 0x80, 0x24]"
proof -
  have l: "13 \<le> length q" using assms by (simp add: pes_header_ok_def)
  have "take 4 (drop 4 q) = [q ! 4, q ! 5, q ! 6, q ! 7]" "take 3 (drop 10 q) = [q ! 10, q ! 11, q ! 12]"
    "take 13 q = [q ! 0, q ! 1, q ! 2, q ! 3, q ! 4, q ! 5, q ! 6, q ! 7, q ! 8, q ! 9, q ! 10, q ! 11, q ! 12]"
    using l by (simp_all add: list_eq_iff_nth_eq numeral_eq_Suc All_less_Suc)
  with assms that show thesis unfolding pes_header_ok_def by simp
qed

lemma generate_pes_packet_spec:
  assumes "mux_ok mx" "\<forall>s \<in> set sliced. id s \<noteq> VBI_SLICED_VBI_625" "list_all (\<lambda>s. length (data s) = 56) sliced"
  obtains err mx' n rest q where "generate_pes_packet mx sliced service_mask rawbuf par pts = Some (err, mx', n, rest)"
    and "mx' = mx\<lparr>packet := q\<rparr>" "mux_ok mx'"
    and "err = None \<Longrightarrow> \<exists>fill bytes sent. sliced = sent @ rest \<and> length fill = 31
      \<and> take n (drop 4 q) = pes_packet_header n pts fill (data_identifier mx) @ bytes \<and> n = 46 + length bytes
      \<and> pes_payload (pes_wanted service_mask sent) bytes
      \<and> 184 dvd n \<and> min_packet_size mx \<le> n \<and> n \<le> max_packet_size mx"
proof -
  let ?fx = "fixed_length_format (data_identifier mx)"
  let ?fill = "take 31 (drop 18 (packet mx))"
  let ?p = "take 13 (packet mx) @ encode_timestamp pts 0x21 @ ?fill @ [ucast (data_identifier mx)]"
  let ?mx = "store_packet ?p mx"
  note m = assms(1) [unfolded mux_ok_def]
  have len: "49 \<le> length (packet mx)" using m by (simp add: pes_header_ok_def)
  have lp: "length ?p = 50" using len by simp
  have tp: "take 13 ?p = take 13 (packet mx)" using len by simp
  have fill: "length ?fill = 31" using len by simp
  have mx: "mux_ok ?mx" using mux_ok_store [OF assms(1) tp] lp by simp
  have smx: "?mx = mx\<lparr>packet := ?p @ drop 50 (packet mx)\<rparr>" using lp by (simp only: store_packet_def)
  have ri: "raw_interrupted ?mx sliced par = Some False" using m by (simp add: raw_interrupted_def store_packet_def)
  note g = generate_pes_packet_def [of mx sliced service_mask rawbuf par pts]
  show thesis
  proof (rule encode_lines_sliced [OF assms(2), of service_mask rawbuf par ?fx ?mx 0 ?p "[]"])
    fix rest
    assume e: "encode_lines service_mask rawbuf par ?fx ?mx 0 ?p [] sliced = Some (Some VBI_ERR_LINE_ORDER, ?mx, ?p, 0, rest)"
    show thesis
    proof (rule that [OF _ store_store])
      show "generate_pes_packet mx sliced service_mask rawbuf par pts = Some (Some VBI_ERR_LINE_ORDER, store_packet ?p ?mx, 0, rest)"
        using e ri unfolding g Let_def by simp
      show "mux_ok (store_packet ?p ?mx)" by (rule mux_ok_store [OF mx]) (use lp in simp_all)
    qed simp
  next
    assume e: "encode_lines service_mask rawbuf par ?fx ?mx 0 ?p [] sliced =
        (let (err, p, last_du_size, left) = insert_sliced_data_units ?p (p_left ?mx ?p) ([] @ sliced) service_mask ?fx in
         Some (err, ?mx, p, last_du_size, left))"
    obtain err p' ldu rest where i: "insert_sliced_loop service_mask ?fx 0 ?p (p_left ?mx ?p) 0 sliced = (err, p', ldu, rest)"
      by (rule prod_cases4)
    from insert_sliced_loop_spec [OF i assms(3)] obtain sent us where
      sl: "sliced = sent @ rest" and p': "p' = ?p @ concat us" and ok: "sendable 0 (pes_wanted service_mask sent)"
      and cy: "carry 0 (pes_wanted service_mask sent) us" and fit: "length (concat us) \<le> p_left ?mx ?p"
      and ldu: "ldu = (if us = [] then 0 else length (last us))"
      and sizes: "list_all (\<lambda>u. if ?fx then length u = 46 else length u \<in> {5, 16, 46}) us" by blast
    have e: "encode_lines service_mask rawbuf par ?fx ?mx 0 ?p [] sliced = Some (err, ?mx, p', ldu, rest)"
      unfolding e insert_sliced_data_units_def append_Nil i by simp
    show thesis
    proof (cases err)
      case (Some x)
      show thesis
      proof (rule that [OF _ store_store])
        show "generate_pes_packet mx sliced service_mask rawbuf par pts = Some (err, store_packet p' ?mx, 0, rest)"
          using e ri Some unfolding g Let_def by simp
        show "mux_ok (store_packet p' ?mx)" by (rule mux_ok_store [OF mx]) (use lp p' in simp_all)
      qed (simp add: Some)
    next
      case None
      let ?n = "length p' - 4"
      define left where "left = (if ?n < min_packet_size mx then min_packet_size mx - ?n
        else if ?n mod 184 > 0 then 184 - ?n mod 184 else 0)"
      have n: "?n = 46 + length (concat us)" unfolding p' using lp by simp
      have mm: "184 \<le> max_packet_size mx" using m by linarith
      have "length (concat us) \<le> max_packet_size mx - 46" using fit lp by (simp add: p_left_def)
      then have "?n \<le> max_packet_size mx" using mm unfolding n by linarith
      note bounds = round_up [OF this, of "min_packet_size mx", folded left_def]
      have bounds: "184 dvd ?n + left" "min_packet_size mx \<le> ?n + left" "?n + left \<le> max_packet_size mx"
        using bounds m by simp_all
      let ?room = "?n + left - 46"
      have "46 \<le> ?n + left" using n by simp
      have "(46 :: nat) dvd 184" by simp
      then have "46 dvd ?n + left" using bounds(1) by (rule dvd_trans)
      then have "46 dvd ?room" by simp
      then have r3: "?fx \<longrightarrow> ?room mod 46 = 0" by simp
      have "184 \<le> ?n + left" using bounds(2) m by linarith
      then have r2: "2 \<le> ?room" by simp
      have r4: "length (concat us) \<le> ?room" using n by simp
      obtain us' t where st: "encode_stuffing ?fx (?p @ concat us) (?room - length (concat us)) ldu = Some (?p @ concat us' @ t)"
        and t: "stuffing t" "length (concat us' @ t) = ?room"
        and us': "us' = us \<or> us \<noteq> [] \<and> us' = butlast us @ [(last us)[1 := word_of_nat (length (last us) - 1)] @ [0xFF]]"
        by (rule stuffing_after_lines [OF sizes r2 r3 r4 ldu])
      have l: "?room - length (concat us) = left" using n by simp
      have st': "encode_stuffing ?fx p' left ldu = Some (?p @ concat us' @ t)" using st unfolding l unfolding p' .
      let ?q = "(?p @ concat us' @ t)[8 := word_of_nat ((?n + left - 6) div 256), 9 := word_of_nat (?n + left - 6)]"
      have us2: "carry 0 (pes_wanted service_mask sent) us'"
        using us' cy carry_last [OF cy] unit_sizes(1) [OF sizes] by (auto simp: list_all_iff)
      have "pes_header_ok (packet mx)" using m by simp
      then obtain a b c d x y where pre: "take 13 (packet mx) = [a, b, c, d, 0, 0, 1, 0xBD, x, y, 0x84, 0x80, 0x24]"
        by (rule pes_header_ok_prefix)
      have q: "?q = [a, b, c, d] @ pes_packet_header (?n + left) pts ?fill (data_identifier mx) @ concat us' @ t"
        unfolding pre pes_packet_header_def by simp
      show thesis
      proof (rule that [OF _ store_store])
        show "generate_pes_packet mx sliced service_mask rawbuf par pts = Some (None, store_packet ?q ?mx, ?n + left, rest)"
          unfolding g Let_def ri store_packet_simps e None option.case prod.case bool.case left_def [symmetric] st' by simp
        have "pes_header_ok (?q @ r)" for r
          unfolding q pes_header_ok_def pes_packet_header_def using fill by simp
        then show "mux_ok (store_packet ?q ?mx)" using m unfolding store_store mux_ok_def by simp
        have room: "?n + left = 46 + length (concat us' @ t)" unfolding t(2) using n by simp
        have h: "length (pes_packet_header (?n + left) pts ?fill (data_identifier mx)) = 46"
          using fill by (simp add: pes_packet_header_def)
        have "take (?n + left) (drop 4 (?q @ r)) = pes_packet_header (?n + left) pts ?fill (data_identifier mx) @ concat us' @ t" for r
          unfolding q using room h by simp
        moreover have "pes_payload (pes_wanted service_mask sent) (concat us' @ t)"
          unfolding pes_payload_def using ok us2 t(1) by blast
        ultimately show "\<exists>fill bytes sent. sliced = sent @ rest \<and> length fill = 31
          \<and> take (?n + left) (drop 4 (?q @ drop (length ?q) (?p @ drop (length ?p) (packet mx))))
            = pes_packet_header (?n + left) pts fill (data_identifier mx) @ bytes \<and> ?n + left = 46 + length bytes
          \<and> pes_payload (pes_wanted service_mask sent) bytes
          \<and> 184 dvd ?n + left \<and> min_packet_size mx \<le> ?n + left \<and> ?n + left \<le> max_packet_size mx"
          using fill room bounds sl by (intro exI conjI) assumption+
      qed
    qed
  qed
qed

subsection \<open>The frame of the demultiplexer\<close>

text \<open>The first data unit of the next frame is not extracted, it tells that the frame is complete.\<close>

lemma line_address_new_frame:
  assumes "line_offset_byte (next_line 0 s) (line s) = Some lofp" "line s \<noteq> 313" "0 < line s" "line s \<le> l"
    and "frame_at l f" "sliced_begin f = Some v" "sp f < length v" "n_data_units f = 0"
  shows "line_address f False (ucast lofp) SYSTEM_625 = (New_frame, f)"
proof -
  note lo = lofp_to_line_offset [OF assms(1,2)]
  have sz: "\<not> sp f \<ge> sliced_size f" using assms by (simp add: sliced_size_def)
  have "unat (line s) \<le> last_frame_line f" using assms(4,5) by (simp add: frame_at_def word_le_nat_alt)
  moreover have "0 < unat (line s)" using assms(3) by (simp add: word_less_nat_alt)
  ultimately show ?thesis
    unfolding line_address_def lo if_not_P [OF sz] using assms(8) by (simp add: Let_def)
qed

lemma extract_data_unit_new_frame:
  assumes f: "frame_at l f" "sliced_begin f = Some v" "sp f < length v" "n_data_units f = 0"
    and s: "length (data s) = 56" "service_du_size s = Inr n" "0 < line s" "line s \<le> l" and u: "carries 0 s u"
  shows "extract_data_unit f (u @ t) = Some (Failed New_frame f)"
proof -
  obtain i c where c: "data_unit_contents s = (i, c)" by (rule prod.exhaust)
  obtain lofp pad where lo: "line_offset_byte (next_line 0 s) (line s) = Some lofp"
    and ue: "u = i # word_of_nat (length u - 2) # ucast lofp # c @ pad" and lu: "length u < 258"
    using u unfolding carries_def c by auto
  have lc: "length c = n - 3" using data_unit_contents_length [OF s(2,1)] by (simp add: c)
  have pl: "length u = 3 + length c + length pad" by (subst ue) simp
  have p: "(u @ t) ! 0 = i" "(u @ t) ! 1 = word_of_nat (length u - 2)" "(u @ t) ! 2 = ucast lofp" "(u @ t) ! 3 = (c @ pad @ t) ! 0"
    by (subst ue, simp)+
  have p1: "unat ((u @ t) ! 1) = length u - 2" unfolding p(2) using lu by (simp add: unsigned_of_nat take_bit_nat_eq_self)
  note cases = service_du_size_cases [OF s(2)]
  have l313: "line s \<noteq> 313" using cases by auto
  note la = line_address_new_frame [OF lo l313 s(3,4) f]
  have unit: "sliced_unit f (u @ t) k False SYSTEM_625 ok service bytes = Some (Failed New_frame f)"
    if "k \<le> unat ((u @ t) ! 1)" for k ok service bytes
  proof -
    have "sliced_begin f \<noteq> None" "\<not> raw_offset f > 0" "\<not> unat ((u @ t) ! 1) < k" using f that by (simp_all add: frame_at_def)
    then show ?thesis unfolding sliced_unit_def p(3) la by simp
  qed
  consider (ttx) "id s \<in> {1, 2, 3}" "n = 46" | (vps) "id s = VBI_SLICED_VPS" "n = 16" "line s = 16"
    | (wss) "id s = VBI_SLICED_WSS_625" "n = 5" "line s = 23"
    | (cc) "id s = VBI_SLICED_CAPTION_625 \<or> id s = VBI_SLICED_CAPTION_625_F1" "n = 5" "line s = 21"
    using cases by blast
  then show ?thesis
  proof cases
    case k: ttx
    have ic: "i = DATA_UNIT_EBU_TELETEXT_NON_SUBTITLE" "c = 0xE4 # map rev_byte (take 42 (data s))"
      using c k by (auto simp: data_unit_contents_def)
    have h: "(0xE4 \<noteq> (u @ t) ! 3) = False" unfolding p ic by simp
    have i: "(i \<in> {DATA_UNIT_EBU_TELETEXT_NON_SUBTITLE, DATA_UNIT_EBU_TELETEXT_SUBTITLE}) = True" by (simp add: ic)
    show ?thesis unfolding extract_data_unit_def Let_def p(1) i h if_True by (rule unit) (use k p1 pl lc in simp)
  next
    case k: vps
    then have "i = DATA_UNIT_VPS" using c by (auto simp: data_unit_contents_def)
    then show ?thesis using unit [of "1 + 13"] k p1 pl lc by (simp add: extract_data_unit_def p(1))
  next
    case k: wss
    then have "i = DATA_UNIT_WSS" using c by (auto simp: data_unit_contents_def)
    then show ?thesis using unit [of "1 + 2"] k p1 pl lc by (simp add: extract_data_unit_def p(1))
  next
    case k: cc
    then have "i = DATA_UNIT_CLOSED_CAPTION" using c by (auto simp: data_unit_contents_def)
    then show ?thesis using unit [of "1 + 2"] k p1 pl lc by (simp add: extract_data_unit_def p(1))
  qed
qed

lemma extract_payload_new_frame:
  assumes f: "frame_at l f" "sliced_begin f = Some v" "sp f < length v" "n_data_units f = 0"
    and "pes_payload (s # ss) bytes" "0 < line s" "line s \<le> l"
  shows "extract_data_units f bytes = Some (New_frame, f, bytes)"
proof -
  from assms(5) obtain us t where b: "bytes = concat us @ t" and ok: "sendable 0 (s # ss)" and cy: "carry 0 (s # ss) us"
    unfolding pes_payload_def by blast
  from cy obtain u us' where us: "us = u # us'" and u: "carries 0 s u" by (cases us) auto
  from ok obtain n where s: "length (data s) = 56" "service_du_size s = Inr n" by auto
  have e: "extract_data_unit f bytes = Some (Failed New_frame f)"
    unfolding b us using extract_data_unit_new_frame [OF f s assms(6,7) u] by simp
  have "3 \<le> length u" "unat (u ! 1) = length u - 2" using carries_length [OF u] by simp_all
  then have n: "\<not> length bytes \<le> 2" "\<not> unat (bytes ! 1) > length bytes - 2" "\<not> length bytes < 2"
    unfolding b us by (auto simp: nth_append)
  show ?thesis
    unfolding extract_data_units_def extract_loop.simps [of f bytes] if_not_P [OF n(1)] if_not_P [OF n(2)] if_not_P [OF n(3)] e
    by simp
qed

lemma extract_payload:
  assumes "frame_at 0 f" "sliced_begin f = Some v" "sp f = 0" "length ss \<le> length v" "pes_payload ss bytes" "2 \<le> length bytes"
  obtains f' where "extract_data_units f bytes = Some (Success, f', [])" "frame_at (foldl next_line 0 ss) f'"
    and "sliced_begin f' = Some (store_lines 0 ss v)" "sp f' = length ss"
proof -
  from assms(5) obtain us t where b: "bytes = concat us @ t" and ok: "sendable 0 ss" and cy: "carry 0 ss us" and t: "stuffing t"
    unfolding pes_payload_def by blast
  obtain f1 where f1: "extract_loop f (concat us @ t) 0 = extract_loop f1 t (length (concat us))"
    "frame_at (foldl next_line 0 ss) f1" "sliced_begin f1 = Some (store_lines 0 ss v)" "sp f1 = length ss"
    using extract_loop_carry [OF assms(1,2) _ ok cy, of t 0] assms(3,4) by auto
  obtain f2 where f2: "extract_loop f1 t (length (concat us)) = Some (Success, f2, length (concat us) + length t)"
    "sliced_begin f2 = sliced_begin f1" "sp f2 = sp f1" "frame_at (foldl next_line 0 ss) f2"
    using extract_loop_stuffing [OF t] f1(2) by blast
  have n: "\<not> length bytes < 2" using assms(6) by simp
  show thesis
  proof (rule that)
    show "extract_data_units f bytes = Some (Success, f2, [])"
      unfolding extract_data_units_def if_not_P [OF n] unfolding b f1(1) f2(1) by simp
  qed (use f1 f2 in simp_all)
qed

text \<open>A received line.\<close>

definition received_line :: "vbi_sliced \<Rightarrow> vbi_sliced \<Rightarrow> bool" where
  "received_line s r \<longleftrightarrow> id r = sent_service s \<and> line r = line s
     \<and> take (length (sent_payload s)) (data r) = sent_payload s"

text \<open>A context that holds the lines \<open>ss\<close> of a frame that is not known to be complete, between two packets.\<close>

definition holds_frame :: "vbi_sliced list \<Rightarrow> u64 \<Rightarrow> vbi_dvb_demux \<Rightarrow> bool" where
  "holds_frame ss pts dx \<longleftrightarrow> \<not> new_frame dx \<and> frame_pts dx = pts \<and> frame_at (foldl next_line 0 ss) (frame dx)
     \<and> sp (frame dx) = length ss
     \<and> (\<exists>v. sliced_begin (frame dx) = Some v \<and> length v = 64 \<and> list_all2 received_line ss (take (length ss) v))"

lemma list_all2_receive: "length ss \<le> length v \<Longrightarrow> list_all2 received_line ss (map2 receive v ss)"
  by (auto simp: list_all2_conv_all_nth received_line_def receive_def)

lemma frame_at_reset [simp]: "frame_at l f \<Longrightarrow> frame_at 0 (reset_frame f)"
  by (simp add: frame_at_def reset_frame_def)

text \<open>The first packet of a frame is taken into the empty context.\<close>

lemma demux_first_packet:
  assumes "new_frame dx" "frame_at l (frame dx)" "sliced_begin (frame dx) = Some v" "length v = 64"
    and "pes_payload ss bytes" "2 \<le> length bytes" "length ss \<le> 64"
  obtains dx' where "demux_pes_packet_frame cb dx bytes s = Some (Packet_done, dx', [], s)" "holds_frame ss (packet_pts dx) dx'"
proof -
  let ?dx = "begin_frame dx"
  have b: "?dx = dx\<lparr>frame := reset_frame (frame dx), frame_pts := packet_pts dx, new_frame := False\<rparr>"
    using assms(1) by (simp add: begin_frame_def)
  have f: "frame_at 0 (frame ?dx)" "sliced_begin (frame ?dx) = Some v" "sp (frame ?dx) = 0"
    using assms(2,3) by (simp_all add: b) (simp add: reset_frame_def)+
  obtain f' where f': "extract_data_units (frame ?dx) bytes = Some (Success, f', [])" "frame_at (foldl next_line 0 ss) f'"
    "sliced_begin f' = Some (store_lines 0 ss v)" "sp f' = length ss"
    by (rule extract_payload [OF f _ assms(5,6)]) (use assms in simp_all)
  have "list_all2 received_line ss (take (length ss) (store_lines 0 ss v))"
    using list_all2_receive [of ss v] assms(4,7) by (simp add: store_lines_def)
  moreover have "length (store_lines 0 ss v) = 64" using assms(4,7) by (simp add: store_lines_def)
  ultimately have "holds_frame ss (packet_pts dx) (?dx\<lparr>frame := f'\<rparr>)" using f' by (simp add: holds_frame_def b)
  moreover have "demux_pes_packet_frame cb dx bytes s = Some (Packet_done, ?dx\<lparr>frame := f'\<rparr>, [], s)"
    unfolding demux_pes_packet_frame.simps [of cb dx] f'(1) by simp
  ultimately show thesis by (rule that [rotated])
qed

text \<open>The next packet delivers the frame.\<close>

lemma demux_next_packet:
  assumes "holds_frame ss0 pts0 dx" "n_data_units (frame dx) = 0" "length ss0 < 64"
    and "pes_payload (l # ss) bytes" "2 \<le> length bytes" "length (l # ss) \<le> 64" "0 < line l" "line l \<le> foldl next_line 0 ss0"
    and "\<forall>s lines pts. fst (call s lines pts)"
  obtains dx' lines where
    "demux_pes_packet_frame (Some call) dx bytes s = Some (Packet_done, dx', [], snd (call s lines pts0))"
    "list_all2 received_line ss0 lines" "holds_frame (l # ss) (packet_pts dx) dx'"
proof -
  note h = assms(1) [unfolded holds_frame_def]
  from h obtain v where v: "sliced_begin (frame dx) = Some v" "length v = 64" "list_all2 received_line ss0 (take (length ss0) v)"
    by blast
  have b: "begin_frame dx = dx" using h by (simp add: begin_frame_def)
  have "extract_data_units (frame dx) bytes = Some (New_frame, frame dx, bytes)"
    by (rule extract_payload_new_frame [OF _ v(1) _ assms(2,4,7,8)]) (use h v assms(3) in simp_all)
  then have e: "extract_data_units (frame (begin_frame dx)) bytes = Some (New_frame, frame dx, bytes)" by (simp add: b)
  let ?dx = "dx\<lparr>new_frame := True\<rparr>" and ?lines = "take (length ss0) v"
  have o: "output_lines ?dx = ?lines" "frame_pts ?dx = pts0" using h v by (simp_all add: output_lines_def)
  have n: "frame_at (foldl next_line 0 ss0) (frame ?dx)" "sliced_begin (frame ?dx) = Some v" "new_frame ?dx"
    using h v by simp_all
  obtain dx' where
    d: "demux_pes_packet_frame (Some call) ?dx bytes (snd (call s ?lines pts0))
        = Some (Packet_done, dx', [], snd (call s ?lines pts0))"
      "holds_frame (l # ss) (packet_pts ?dx) dx'"
    by (rule demux_first_packet [OF n(3,1,2) v(2) assms(4-6), of "Some call" "snd (call s ?lines pts0)"])
  have c: "fst (call s ?lines pts0)" using assms(9) by simp
  have same: "(begin_frame dx)\<lparr>frame := frame dx, new_frame := True\<rparr> = ?dx" unfolding b by (cases dx) simp
  have "demux_pes_packet_frame (Some call) dx bytes s = Some (Packet_done, dx', [], snd (call s ?lines pts0))"
    unfolding demux_pes_packet_frame.simps [of "Some call" dx] e option.case prod.case demux_result.case Let_def same o
    unfolding case_prod_beta using c d(1) by (simp only: not_True_eq_False if_False simp_thms)
  then show thesis using that v(3) d(2) by simp
qed

subsection \<open>A packet of the stream\<close>

text \<open>The demultiplexer accepts the header of a packet.\<close>

lemma data_identifier_range: "valid_data_identifier n \<Longrightarrow> 0x10 \<le> (ucast n :: u8) \<and> (ucast n :: u8) \<le> 0x1F \<or> 0x99 \<le> (ucast n :: u8) \<and> (ucast n :: u8) \<le> 0x9B"
proof -
  assume v: "valid_data_identifier n"
  then have "unat n < 256" by (auto simp: valid_data_identifier_def word_less_nat_alt word_le_nat_alt)
  then have "unat (ucast n :: u8) = unat n" by (simp add: unsigned_ucast_eq take_bit_nat_eq_self)
  then show ?thesis using v by (auto simp: valid_data_identifier_def word_less_nat_alt word_le_nat_alt)
qed

lemma pes_packet_header_nth:
  assumes "length fill = 31" "p = pes_packet_header n pts fill di @ t"
  shows "p ! 0 = 0" "p ! 1 = 0" "p ! 2 = 1" "p ! 3 = 0xBD" "p ! 4 = word_of_nat ((n - 6) div 256)" "p ! 5 = word_of_nat (n - 6)"
    "p ! 6 = 0x84" "p ! 7 = 0x80" "p ! 8 = 0x24" "p ! (9 + 36) = ucast di"
    "drop 9 p = encode_timestamp pts 0x21 @ fill @ ucast di # t" "length p = 46 + length t" "drop 46 p = t"
  using assms(1) unfolding assms(2) pes_packet_header_def by (simp_all add: nth_append)

lemma pes_packet_length:
  assumes "length fill = 31" "6 \<le> n" "n \<le> 6 + 65535"
  shows "packet_length (pes_packet_header n pts fill di @ t) + 6 = n"
proof -
  have "(n - 6) div 256 < 256" using assms(3) by (simp add: less_mult_imp_div_less)
  then have "unat (word_of_nat ((n - 6) div 256) :: u8) = (n - 6) div 256" by (rule unat_word_of_nat_u8)
  moreover have "unat (word_of_nat (n - 6) :: u8) = (n - 6) mod 256" by (simp add: unsigned_of_nat take_bit_eq_mod)
  ultimately show ?thesis
    unfolding packet_length_def pes_packet_header_nth [OF assms(1) refl] using assms(2) by simp
qed

lemma valid_pes_packet_header:
  assumes "length fill = 31" "valid_data_identifier di"
  shows "valid_vbi_pes_packet_header dx (pes_packet_header n pts fill di @ t) = (True, dx\<lparr>packet_pts := take_bit 33 pts\<rparr>)"
  unfolding valid_vbi_pes_packet_header_def Let_def pes_packet_header_nth [OF assms(1) refl] timestamp_roundtrip
  using data_identifier_range [OF assms(2)] by auto

lemma pes_stream_packet:
  assumes "pes_wrap dx = clear_wrap 48" "length fill = 31" "valid_data_identifier di"
    and "n = 46 + length bytes" "184 \<le> n" "n \<le> 6 + 65535"
    and "demux_pes_packet_frame cb (dx\<lparr>packet_pts := take_bit 33 pts, frame := (frame dx)\<lparr>n_data_units := 0\<rparr>\<rparr>) bytes s
      = Some (Packet_done, dx', rest, s')"
  shows "pes_stream cb dx ((pes_packet_header n pts fill di @ bytes) @ t) s = pes_stream cb dx' t s'"
proof -
  let ?S = "pes_packet_header n pts fill di @ bytes @ t"
  note p = pes_packet_header_nth [OF assms(2) refl, of n pts di "bytes @ t"]
  have len: "packet_length ?S + 6 = n" using pes_packet_length [OF assms(2) _ assms(6)] assms(5) by simp
  have w: "skip (pes_wrap dx) = 0" "lookahead (pes_wrap dx) = 48" "buffer (pes_wrap dx) = []" "leftover (pes_wrap dx) = 0"
    "set_skip 0 (with_unread [] dx) = dx"
    using assms(1) by (cases dx, simp add: clear_wrap_def set_skip_def with_unread_def)+
  have "start_code_at ?S 0 = Vbi_stream"
    unfolding start_code_at_def add_0 p by simp
  then have sc: "scan_start_code ?S 0 0 = Scan_packet 0" by (simp add: scan_single)
  let ?w = "\<lparr>buffer = [], skip = 46, consume = 0, lookahead = length bytes, leftover = 0\<rparr>"
  have h: "demux_pes_header dx ?S 0 = dx\<lparr>packet_pts := take_bit 33 pts, pes_wrap := ?w\<rparr>" (is "_ = ?dx")
  proof -
    have n: "\<not> packet_length ?S < 178" "packet_length ?S - 3 - 36 - 1 = length bytes" "0 + 9 + 36 + 1 = (46 :: nat)"
      using len assms(4,5) by simp_all
    have v: "valid_vbi_pes_packet_header dx' ?S = (True, dx'\<lparr>packet_pts := take_bit 33 pts\<rparr>)" for dx'
      by (rule valid_pes_packet_header [OF assms(2,3)])
    show ?thesis
      unfolding demux_pes_header_def sc pes_header_result_def scan_result.case Let_def drop_0 if_not_P [OF n(1)] v prod.case n(2,3)
      using assms(1) by (simp add: set_skip_def clear_wrap_def)
  qed
  let ?w' = "\<lparr>buffer = [], skip = 0, consume = 0, lookahead = length bytes, leftover = 0\<rparr>"
  let ?dx' = "dx\<lparr>packet_pts := take_bit 33 pts, frame := (frame dx)\<lparr>n_data_units := 0\<rparr>, pes_wrap := ?w'\<rparr>"
  have d: "demux_pes_packet_frame cb ?dx' bytes s = Some (Packet_done, dx'\<lparr>pes_wrap := ?w'\<rparr>, rest, s')"
    using assms(7) demux_pes_packet_frame_wrap [where w = ?w' and src = bytes and s = s and cb = cb
        and dx = "dx\<lparr>packet_pts := take_bit 33 pts, frame := (frame dx)\<lparr>n_data_units := 0\<rparr>\<rparr>"]
    by simp
  have "pes_stream cb dx ?S s = pes_stream cb ?dx ?S s"
  proof -
    have "\<not> 48 > length ?S" using p(12) assms(4,5) by simp
    then show ?thesis unfolding pes_stream.simps [of cb dx ?S s] w Let_def using h by simp
  qed
  also have "\<dots> = pes_stream cb (dx'\<lparr>pes_wrap := ?w'\<lparr>skip := length bytes, lookahead := 48\<rparr>\<rparr>) (bytes @ t) s'"
  proof -
    have k: "skip (pes_wrap ?dx) = 46" "lookahead (pes_wrap ?dx) = length bytes" by simp_all
    have n: "\<not> 46 > length ?S" "\<not> length bytes > length (bytes @ t)" "length bytes > 48" "take (length bytes) (bytes @ t) = bytes"
      using assms(4,5) p(12) by simp_all
    have e: "set_skip 0 (with_unread [] ?dx) = dx\<lparr>packet_pts := take_bit 33 pts, pes_wrap := ?w'\<rparr>"
      by (simp add: set_skip_def with_unread_def)
    have f: "dx\<lparr>packet_pts := take_bit 33 pts, pes_wrap := ?w'\<rparr>
        \<lparr>frame := (frame (dx\<lparr>packet_pts := take_bit 33 pts, pes_wrap := ?w'\<rparr>))\<lparr>n_data_units := 0\<rparr>\<rparr> = ?dx'"
      by simp
    show ?thesis
      unfolding pes_stream.simps [of cb ?dx ?S s] k Let_def e p(13) if_not_P [OF n(1)] if_not_P [OF n(2)] if_P [OF n(3)] n(4) f d
      by simp
  qed
  also have "\<dots> = pes_stream cb (set_skip (length bytes + skip (pes_wrap dx')) dx') (bytes @ t) s'"
  proof (rule pes_stream_erase)
    have "pes_wrap dx' = clear_wrap 48"
      using packet_context_eq(1) [OF demux_pes_packet_frame_context [OF assms(7)]] assms(1) by simp
    then show "with_unread [] (dx'\<lparr>pes_wrap := ?w'\<lparr>skip := length bytes, lookahead := 48\<rparr>\<rparr>) =
        with_unread [] (set_skip (length bytes + skip (pes_wrap dx')) dx')"
      by (simp add: with_unread_def set_skip_def clear_wrap_def)
  qed
  also have "\<dots> = pes_stream cb dx' t s'" using pes_stream_shift [of "length bytes" "bytes @ t" cb dx' s'] by simp
  finally show ?thesis by simp
qed

subsection \<open>Transmission\<close>

text \<open>A callback of the multiplexer that collects the packets.\<close>

definition collect :: "'a list \<Rightarrow> 'a \<Rightarrow> bool \<times> 'a list" where
  "collect out p = (True, out @ [p])"

lemma mux_feed_spec:
  assumes "mux_ok mx" "pid mx = 0" "\<forall>s \<in> set sliced. id s \<noteq> VBI_SLICED_VBI_625" "list_all (\<lambda>s. length (data s) = 56) sliced"
  obtains ok mx' out where "vbi_dvb_mux_feed (Some collect) mx sliced service_mask rawbuf None pts [] = Some (ok, mx', out)"
    and "mux_ok mx'" "pid mx' = 0" "data_identifier mx' = data_identifier mx"
    and "min_packet_size mx' = min_packet_size mx" "max_packet_size mx' = max_packet_size mx"
    and "ok \<Longrightarrow> \<exists>n fill bytes. out = [pes_packet_header n pts fill (data_identifier mx) @ bytes] \<and> length fill = 31
      \<and> n = 46 + length bytes \<and> pes_payload (pes_wanted service_mask sliced) bytes
      \<and> 184 dvd n \<and> min_packet_size mx \<le> n \<and> n \<le> max_packet_size mx"
proof -
  let ?mx = "if cor_offset mx < cor_end mx then mx\<lparr>cor_end := 0\<rparr> else mx"
  have m: "mux_ok ?mx" "pid ?mx = 0" "data_identifier ?mx = data_identifier mx" "min_packet_size ?mx = min_packet_size mx"
    "max_packet_size ?mx = max_packet_size mx"
    using assms(1,2) by (simp_all add: mux_ok_def)
  obtain err mx' n rest q where g: "generate_pes_packet ?mx sliced service_mask rawbuf None pts = Some (err, mx', n, rest)"
    and q: "mx' = ?mx\<lparr>packet := q\<rparr>" "mux_ok mx'"
    and spec: "err = None \<Longrightarrow> \<exists>fill bytes sent. sliced = sent @ rest \<and> length fill = 31
      \<and> take n (drop 4 q) = pes_packet_header n pts fill (data_identifier ?mx) @ bytes \<and> n = 46 + length bytes
      \<and> pes_payload (pes_wanted service_mask sent) bytes
      \<and> 184 dvd n \<and> min_packet_size ?mx \<le> n \<and> n \<le> max_packet_size ?mx"
    by (rule generate_pes_packet_spec [OF m(1) assms(3,4), where service_mask = service_mask and rawbuf = rawbuf and par = None and pts = pts]; rule that; assumption)
  have pid: "pid mx' = 0" "data_identifier mx' = data_identifier mx" "min_packet_size mx' = min_packet_size mx"
    "max_packet_size mx' = max_packet_size mx" "packet mx' = q" using q(1) m by simp_all
  let ?ok = "err = None \<and> rest = []" and ?out = "if err = None \<and> rest = [] then [take n (drop 4 q)] else []"
  show thesis
  proof (rule that)
    show "vbi_dvb_mux_feed (Some collect) mx sliced service_mask rawbuf None pts [] = Some (?ok, mx', ?out)"
      unfolding vbi_dvb_mux_feed_def Let_def option.case if_False g prod.case using pid by (simp add: collect_def)
    show "\<exists>n fill bytes. ?out = [pes_packet_header n pts fill (data_identifier mx) @ bytes] \<and> length fill = 31
      \<and> n = 46 + length bytes \<and> pes_payload (pes_wanted service_mask sliced) bytes
      \<and> 184 dvd n \<and> min_packet_size mx \<le> n \<and> n \<le> max_packet_size mx" if ?ok
      using spec that unfolding m(3-5) by auto
  qed (use q pid in simp_all)
qed


text \<open>The packets for a sequence of frames with their time stamps, if every frame fits into a packet.\<close>

fun mux_frames :: "u32 \<Rightarrow> vbi_dvb_mux \<Rightarrow> (vbi_sliced list \<times> u64) list \<Rightarrow> u8 list list option" where
  "mux_frames service_mask mx [] = Some []"
| "mux_frames service_mask mx ((ss, pts) # fs) =
     (case vbi_dvb_mux_feed (Some collect) mx ss service_mask None None pts [] of
        Some (True, mx, out) \<Rightarrow> map_option (\<lambda>ps. out @ ps) (mux_frames service_mask mx fs)
      | _ \<Rightarrow> None)"

text \<open>Frames that can be told from each other: the first line of a frame has a number, and it is not above the last
  number of the frame before. There are less than 64 lines and no raw lines.\<close>

fun frame_sequence :: "u32 \<Rightarrow> u32 \<Rightarrow> (vbi_sliced list \<times> u64) list \<Rightarrow> bool" where
  "frame_sequence service_mask last_line [] \<longleftrightarrow> True"
| "frame_sequence service_mask last_line ((ss, pts) # fs) \<longleftrightarrow>
     (case pes_wanted service_mask ss of
        [] \<Rightarrow> False
      | s # ss' \<Rightarrow> 0 < line s \<and> line s \<le> last_line \<and> length ss' < 63)
     \<and> list_all (\<lambda>s. length (data s) = 56 \<and> id s \<noteq> VBI_SLICED_VBI_625) ss
     \<and> frame_sequence service_mask (foldl next_line 0 (pes_wanted service_mask ss)) fs"

text \<open>What the callback gets for a frame.\<close>

definition received_frame :: "u32 \<Rightarrow> vbi_sliced list \<times> u64 \<Rightarrow> vbi_sliced list \<times> u64 \<Rightarrow> bool" where
  "received_frame service_mask sent got \<longleftrightarrow>
     list_all2 received_line (pes_wanted service_mask (fst sent)) (fst got) \<and> snd got = take_bit 33 (snd sent)"

definition deliver :: "(vbi_sliced list \<times> u64) list \<Rightarrow> vbi_sliced list \<Rightarrow> u64 \<Rightarrow> bool \<times> (vbi_sliced list \<times> u64) list" where
  "deliver out lines pts = (True, out @ [(lines, pts)])"

lemma mux_frames_Cons:
  assumes "mux_ok mx" "pid mx = 0" "mux_frames service_mask mx ((ss, pts) # fs) = Some packets"
    and "list_all (\<lambda>s. length (data s) = 56 \<and> id s \<noteq> VBI_SLICED_VBI_625) ss"
  obtains mx' n fill bytes packets' where "packets = (pes_packet_header n pts fill (data_identifier mx) @ bytes) # packets'"
    and "mux_frames service_mask mx' fs = Some packets'" "mux_ok mx'" "pid mx' = 0"
    and "length fill = 31" "n = 46 + length bytes" "184 \<le> n" "n \<le> 6 + 65535" "pes_payload (pes_wanted service_mask ss) bytes"
proof -
  have ss: "\<forall>s \<in> set ss. id s \<noteq> VBI_SLICED_VBI_625" "list_all (\<lambda>s. length (data s) = 56) ss"
    using assms(4) by (auto simp: list_all_iff)
  obtain ok mx' out where f: "vbi_dvb_mux_feed (Some collect) mx ss service_mask None None pts [] = Some (ok, mx', out)"
    and m: "mux_ok mx'" "pid mx' = 0" "data_identifier mx' = data_identifier mx"
    and "min_packet_size mx' = min_packet_size mx" "max_packet_size mx' = max_packet_size mx"
    and spec: "ok \<Longrightarrow> \<exists>n fill bytes. out = [pes_packet_header n pts fill (data_identifier mx) @ bytes] \<and> length fill = 31
      \<and> n = 46 + length bytes \<and> pes_payload (pes_wanted service_mask ss) bytes
      \<and> 184 dvd n \<and> min_packet_size mx \<le> n \<and> n \<le> max_packet_size mx"
    by (rule mux_feed_spec [OF assms(1,2) ss, where service_mask = service_mask and rawbuf = None and pts = pts]; rule that; assumption)
  from assms(3) f obtain packets' where ok and p: "packets = out @ packets'" "mux_frames service_mask mx' fs = Some packets'"
    by (auto split: bool.splits)
  from spec [OF \<open>ok\<close>] obtain n fill bytes where n: "out = [pes_packet_header n pts fill (data_identifier mx) @ bytes]"
    "length fill = 31" "n = 46 + length bytes" "pes_payload (pes_wanted service_mask ss) bytes"
    "min_packet_size mx \<le> n" "n \<le> max_packet_size mx" by blast
  have "184 \<le> min_packet_size mx" "max_packet_size mx \<le> MAX_PES_PACKET_SIZE" using assms(1) by (simp_all add: mux_ok_def)
  then have "184 \<le> n" "n \<le> 6 + 65535" using n(5,6) by (simp_all add: MAX_PES_PACKET_SIZE_def)
  then show thesis using that [OF _ p(2) m(1,2) n(2,3) _ _ n(4)] p(1) n(1) by simp
qed

lemma frame_sequence_Cons:
  assumes "frame_sequence service_mask l ((ss, pts) # fs)"
  obtains s ss' where "pes_wanted service_mask ss = s # ss'" "0 < line s" "line s \<le> l" "length (s # ss') < 64"
    and "list_all (\<lambda>s. length (data s) = 56 \<and> id s \<noteq> VBI_SLICED_VBI_625) ss"
    and "frame_sequence service_mask (foldl next_line 0 (s # ss')) fs"
  using assms by (auto split: list.splits)

lemma n_data_units_holds: "holds_frame ss pts (dx\<lparr>packet_pts := p, frame := (frame dx)\<lparr>n_data_units := 0\<rparr>\<rparr>) = holds_frame ss pts dx"
  by (simp add: holds_frame_def frame_at_def)

lemma transmission_loop:
  assumes "pes_wrap dx = clear_wrap 48" "holds_frame ss0 (take_bit 33 pts0) dx" "length ss0 < 64" "ss0 = pes_wanted service_mask ss"
    and "mux_ok mx" "pid mx = 0" "mux_frames service_mask mx fs = Some packets"
    and "frame_sequence service_mask (foldl next_line 0 ss0) fs"
  shows "\<exists>dx' out'. pes_stream (Some deliver) dx (concat packets) out = Some (Packet_done, dx', out @ out')
    \<and> list_all2 (received_frame service_mask) (butlast ((ss, pts0) # fs)) out'"
  using assms
proof (induction fs arbitrary: dx ss0 ss pts0 mx packets out)
  case Nil
  then have "pes_stream (Some deliver) dx [] out = Some (Packet_done, with_unread [] dx, out)"
    by (intro pes_stream_waiting) (simp add: waiting_def clear_wrap_def)
  with Nil show ?case by simp
next
  case (Cons f fs)
  obtain ss1 pts where f: "f = (ss1, pts)" by (rule prod.exhaust)
  obtain s ss' where w: "pes_wanted service_mask ss1 = s # ss'" "0 < line s" "line s \<le> foldl next_line 0 ss0" "length (s # ss') < 64"
    and ls: "list_all (\<lambda>s. length (data s) = 56 \<and> id s \<noteq> VBI_SLICED_VBI_625) ss1"
    and fs: "frame_sequence service_mask (foldl next_line 0 (s # ss')) fs"
    by (rule frame_sequence_Cons [OF Cons.prems(8) [unfolded f]])
  obtain mx' n fill bytes packets' where p: "packets = (pes_packet_header n pts fill (data_identifier mx) @ bytes) # packets'"
    and m: "mux_frames service_mask mx' fs = Some packets'" "mux_ok mx'" "pid mx' = 0"
    and n: "length fill = 31" "n = 46 + length bytes" "184 \<le> n" "n \<le> 6 + 65535" "pes_payload (pes_wanted service_mask ss1) bytes"
    by (rule mux_frames_Cons [OF Cons.prems(5,6) Cons.prems(7) [unfolded f] ls])
  let ?dx = "dx\<lparr>packet_pts := take_bit 33 pts, frame := (frame dx)\<lparr>n_data_units := 0\<rparr>\<rparr>"
  have h: "holds_frame ss0 (take_bit 33 pts0) ?dx" using Cons.prems(2) by (simp only: n_data_units_holds)
  have nd: "n_data_units (frame ?dx) = 0" by simp
  have "2 \<le> length bytes" using n(2,3) by simp
  moreover have "\<forall>s lines pts. fst (deliver s lines pts)" by (simp add: deliver_def)
  ultimately obtain dx1 lines where
    d: "demux_pes_packet_frame (Some deliver) ?dx bytes out = Some (Packet_done, dx1, [], snd (deliver out lines (take_bit 33 pts0)))"
    "list_all2 received_line ss0 lines" "holds_frame (s # ss') (packet_pts ?dx) dx1"
    using demux_next_packet [OF h nd Cons.prems(3) n(5) [unfolded w(1)] _ _ w(2,3), where s = out] w(4) by (metis less_imp_le)
  have v: "valid_data_identifier (data_identifier mx)" using Cons.prems(5) by (simp add: mux_ok_def)
  have s: "pes_stream (Some deliver) dx (concat packets) out =
      pes_stream (Some deliver) dx1 (concat packets') (out @ [(lines, take_bit 33 pts0)])"
    using pes_stream_packet [OF Cons.prems(1) n(1) v n(2-4) d(1), of "concat packets'"] by (simp add: p deliver_def)
  have wr: "pes_wrap dx1 = clear_wrap 48"
    using packet_context_eq(1) [OF demux_pes_packet_frame_context [OF d(1)]] Cons.prems(1) by simp
  have h1: "holds_frame (s # ss') (take_bit 33 pts) dx1" using d(3) by simp
  obtain dx' out' where IH: "pes_stream (Some deliver) dx1 (concat packets') (out @ [(lines, take_bit 33 pts0)])
      = Some (Packet_done, dx', (out @ [(lines, take_bit 33 pts0)]) @ out')"
    "list_all2 (received_frame service_mask) (butlast ((ss1, pts) # fs)) out'"
    using Cons.IH [OF wr h1 w(4) w(1) [symmetric] m(2,3,1) fs] by blast
  show ?case
  proof (intro exI conjI)
    show "pes_stream (Some deliver) dx (concat packets) out = Some (Packet_done, dx', out @ (lines, take_bit 33 pts0) # out')"
      unfolding s IH(1) by simp
    show "list_all2 (received_frame service_mask) (butlast ((ss, pts0) # f # fs)) ((lines, take_bit 33 pts0) # out')"
      using IH(2) d(2) Cons.prems(4) by (simp add: f received_frame_def)
  qed
qed


definition two_frames :: "(vbi_sliced list \<times> u64) list" where
  "two_frames = [([\<lparr>id = VBI_SLICED_TELETEXT_B, line = 7, data = replicate 56 0x31\<rparr>, \<lparr>id = VBI_SLICED_VPS, line = 16, data = replicate 56 0x5A\<rparr>], 0x123456789),
     ([\<lparr>id = VBI_SLICED_TELETEXT_B, line = 7, data = replicate 56 0x32\<rparr>], 0x123456F99)]"

definition small_mux :: vbi_dvb_mux where
  "small_mux = \<lparr>packet = [0, 0, 0, 0, 0, 0, 1, 0xBD, 0, 0, 0x84, 0x80, 0x24] @ replicate 36 0xFF, min_packet_size = 184,
     max_packet_size = 184, data_identifier = 0x10, raw_samples = [], raw_line = 0, raw_line_offset = 0,
     raw_samples_per_line = 0, pid = 0, continuity_counter = 0, cor_offset = 0, cor_end = 0, cor_ts_left = 0\<rparr>"

lemma small_mux:
  defines "mx \<equiv> small_mux\<lparr>max_packet_size := 65504\<rparr>"
  shows "vbi_dvb_pes_mux_new True True (replicate 49 0) = Some mx" "vbi_dvb_mux_set_data_identifier mx 0x10 = (True, mx)"
    "vbi_dvb_mux_set_pes_packet_size mx 184 184 = (True, small_mux)"
proof -
  have "replicate 4 (0 :: u8) = [0, 0, 0, 0]" "replicate 2 (0 :: u8) = [0, 0]" by (simp_all add: numeral_eq_Suc)
  then show "vbi_dvb_pes_mux_new True True (replicate 49 0) = Some mx" "vbi_dvb_mux_set_data_identifier mx 0x10 = (True, mx)"
    "vbi_dvb_mux_set_pes_packet_size mx 184 184 = (True, small_mux)"
    by (simp_all add: mx_def small_mux_def vbi_dvb_pes_mux_new_def init_pes_packet_header_def vbi_dvb_mux_set_data_identifier_def
      vbi_dvb_mux_set_pes_packet_size_def MAX_PES_PACKET_SIZE_def)
qed



end
