(* ===== verification/Dvb_Full_Frame.thy ===== *)
theory Dvb_Full_Frame
  imports Dvb_Transmission
begin

text \<open>A frame that fills the 64 lines of the buffer in dvb_demux.c is never delivered by the PES demultiplexer, and
  nothing after it: \<^verbatim>\<open>line_address\<close> looks for room before it looks for a new frame, and \<^verbatim>\<open>demux_pes_packet\<close> discards
  the frame only for errors below zero, of which there are none.\<close>

unbundle bit_operations_syntax

definition full_frame :: "frame \<Rightarrow> bool" where
  "full_frame f \<longleftrightarrow> raw f = None \<and> raw_offset f = 0 \<and> sliced_begin f \<noteq> None \<and> sliced_size f \<le> sp f"

lemma full_frame_simps [simp]:
  "full_frame (f\<lparr>last_data_unit_id := i\<rparr>) = full_frame f" "full_frame (f\<lparr>n_data_units := n\<rparr>) = full_frame f"
  by (simp_all add: full_frame_def sliced_size_def)

lemma full_frame_unit:
  assumes "full_frame f" "extract_data_unit f p = Some r"
  shows "r = Next f \<or> (\<exists>e. r = Failed (Failure e) f)"
proof -
  have la: "line_address f False lofp system = (Failure SLICED_BUFFER_OVERFLOW, f)" for lofp system
    using assms(1) by (simp add: full_frame_def line_address_def)
  have s: "r = Next f \<or> (\<exists>e. r = Failed (Failure e) f)" if "sliced_unit f p n k system ok service bytes = Some r"
    for n k system ok service bytes
    using that assms(1) by (auto simp: sliced_unit_def la full_frame_def split: if_splits)
  have "r = Next f" if "samples_unit f p system = Some r" for system
    using that assms(1) by (simp add: samples_unit_def full_frame_def)
  then show ?thesis using assms(2) s unfolding extract_data_unit_def Let_def by (auto split: if_splits)
qed

lemma full_frame_loop:
  assumes "full_frame f" "extract_loop f p i = Some (err, f', k)"
  shows "err \<noteq> New_frame \<and> full_frame f'"
  using assms
proof (induction f p i rule: extract_loop.induct)
  case (1 f p i)
  show ?case
  proof (cases "length p \<le> 2 \<or> unat (p ! 1) > length p - 2")
    case True
    then show ?thesis using 1(2,3) by (auto simp: extract_loop.simps [of f p i] split: if_splits)
  next
    case False
    then obtain r where r: "extract_data_unit f p = Some r"
      using 1(3) by (auto simp: extract_loop.simps [of f p i] split: option.splits)
    from full_frame_unit [OF 1(2) r] show ?thesis
      using 1 False r by (auto simp: extract_loop.simps [of f p i])
  qed
qed

lemma full_frame_packet:
  assumes "full_frame (frame dx)" "\<not> new_frame dx" "demux_pes_packet_frame cb dx src s = Some (err, dx', rest, s')"
  shows "full_frame (frame dx') \<and> \<not> new_frame dx' \<and> err \<noteq> Packet_callback \<and> s' = s"
proof -
  have b: "begin_frame dx = dx" using assms(2) by (simp add: begin_frame_def)
  have "err \<noteq> New_frame \<and> full_frame f" if "extract_data_units (frame dx) src = Some (err, f, rest)" for err f rest
    using that full_frame_loop [OF assms(1), of src 0 err f] by (auto simp: extract_data_units_def split: if_splits)
  then show ?thesis
    using assms unfolding demux_pes_packet_frame.simps [of cb dx src s] b
    by (auto split: option.splits demux_result.splits)
qed

lemma demux_pes_header_new_frame [simp]: "new_frame (demux_pes_header dx p n) = new_frame dx"
  by (auto simp: demux_pes_header_def pes_header_result_def set_skip_def Let_def valid_vbi_pes_packet_header_def
      split: scan_result.split prod.split if_splits)

lemma full_frame_stream:
  assumes "full_frame (frame dx)" "\<not> new_frame dx" "pes_stream cb dx S s = Some (err, dx', s')"
  shows "s' = s"
  using assms
proof (induction cb dx S s rule: pes_stream.induct)
  case (1 cb dx S s)
  let ?dx = "set_skip 0 (with_unread [] dx)"
  let ?n = "lookahead (pes_wrap dx)" and ?S = "drop (skip (pes_wrap dx)) S"
  note e = 1(5) [unfolded pes_stream.simps [of cb dx S s] Let_def]
  show ?case
  proof (cases "skip (pes_wrap dx) > length S \<or> ?n > length ?S")
    case True
    then show ?thesis using e by (auto split: if_splits)
  next
    case False
    then have n: "\<not> skip (pes_wrap dx) > length S" "\<not> ?n > length ?S" by auto
    note e = e [unfolded if_not_P [OF n(1)] if_not_P [OF n(2)]]
    show ?thesis
    proof (cases "?n > 48")
      case True
      note e = e [unfolded if_P [OF True]]
      from e obtain err1 dx1 rest s1 where d: "demux_pes_packet_frame cb (?dx\<lparr>frame := (frame ?dx)\<lparr>n_data_units := 0\<rparr>\<rparr>) (take ?n ?S) s
          = Some (err1, dx1, rest, s1)" by (auto split: option.splits)
      from full_frame_packet [OF _ _ d] 1(3,4) have f: "full_frame (frame dx1)" "\<not> new_frame dx1" "err1 \<noteq> Packet_callback" "s1 = s"
        by simp_all
      show ?thesis
        using 1(1) [OF refl refl refl n(1) refl n(2) True d refl refl refl f(3)] e [unfolded d option.case prod.case if_not_P [OF f(3)]] f by simp
    next
      case False
      note e = e [unfolded if_not_P [OF False]]
      show ?thesis using 1(2) [OF refl refl refl n(1) refl n(2) False _ _ e] 1(3,4) by simp
    qed
  qed
qed

lemma holds_full_frame: "holds_frame ss pts dx \<Longrightarrow> length ss = 64 \<Longrightarrow> full_frame (frame dx) \<and> \<not> new_frame dx"
  by (auto simp: holds_frame_def full_frame_def frame_at_def sliced_size_def)

text \<open>C38: after a packet with 64 lines on an empty demultiplexer the callback is never called, neither for this frame nor
  for any other, whatever data come. Only \<^verbatim>\<open>vbi_dvb_demux_reset\<close> helps.\<close>

theorem dvb_full_frame_blocks:
  assumes "vbi_dvb_pes_mux_new True True garbage = Some mx0" "49 \<le> length garbage"
    and "vbi_dvb_mux_set_data_identifier mx0 di = (ok1, mx1)" "vbi_dvb_mux_set_pes_packet_size mx1 lo hi = (ok2, mx)"
    and "mux_frames service_mask mx [(sliced, pts)] = Some [p]" "length (pes_wanted service_mask sliced) = 64"
    and "list_all (\<lambda>s. length (data s) = 56 \<and> id s \<noteq> VBI_SLICED_VBI_625) sliced"
    and "vbi_dvb_pes_demux_new True = Some dx" "concat chunks = p @ rest"
  shows "\<exists>dx'. feed_chunks deliver dx chunks [] = Some (dx', [])"
proof -
  have "mux_ok mx0" "pid mx0 = 0" using mux_ok_new [OF assms(1,2)] by simp_all
  then have "mux_ok mx1" "pid mx1 = 0" using mux_ok_set_identifier [OF _ assms(3)] by simp_all
  then have mx: "mux_ok mx" "pid mx = 0" using mux_ok_set_size [OF _ assms(4)] by simp_all
  obtain mx' n fill bytes packets' where p: "[p] = (pes_packet_header n pts fill (data_identifier mx) @ bytes) # packets'"
    and "mux_frames service_mask mx' [] = Some packets'" "mux_ok mx'" "pid mx' = 0"
    and n: "length fill = 31" "n = 46 + length bytes" "184 \<le> n" "n \<le> 6 + 65535" "pes_payload (pes_wanted service_mask sliced) bytes"
    by (rule mux_frames_Cons [OF mx assms(5,7)])
  note dx = pes_demux_new [OF assms(8)]
  have call: "\<forall>s lines pts. fst (deliver s lines pts)" by (simp add: deliver_def)
  obtain dx1 out where feed: "feed_chunks deliver dx chunks [] = Some (dx1, out)"
    and stream: "pes_stream (Some deliver) dx (p @ rest) [] = Some (Packet_done, with_unread (pending_bytes (pes_wrap dx1)) dx1, out)"
    using feed_chunks_stream [OF dx(1,2) _ call, of chunks "[]"] dx(3,4) assms(9) by auto
  let ?dx = "dx\<lparr>packet_pts := take_bit 33 pts, frame := (frame dx)\<lparr>n_data_units := 0\<rparr>\<rparr>"
  let ?v = "replicate 64 \<lparr>id = 0, line = 0, data = replicate 56 0\<rparr>"
  have d: "new_frame ?dx" "frame_at 0 (frame ?dx)" "sliced_begin (frame ?dx) = Some ?v" "length ?v = 64"
    by (simp_all add: dx clear_dvb_demux_def clear_frame_def frame_at_def)
  have l: "2 \<le> length bytes" "length (pes_wanted service_mask sliced) \<le> 64" using n(2,3) assms(6) by simp_all
  obtain dx2 where d2: "demux_pes_packet_frame (Some deliver) ?dx bytes [] = Some (Packet_done, dx2, [], [])"
    "holds_frame (pes_wanted service_mask sliced) (packet_pts ?dx) dx2"
    by (rule demux_first_packet [OF d n(5) l, of "Some deliver" "[]"])
  have v: "valid_data_identifier (data_identifier mx)" using mx(1) by (simp add: mux_ok_def)
  have "pes_stream (Some deliver) dx (p @ rest) [] = pes_stream (Some deliver) dx2 rest []"
    using pes_stream_packet [OF dx(5) n(1) v n(2-4) d2(1), of rest] p by simp
  then have s: "pes_stream (Some deliver) dx2 rest [] = Some (Packet_done, with_unread (pending_bytes (pes_wrap dx1)) dx1, out)"
    using stream by simp
  have "out = []" using full_frame_stream [OF _ _ s] holds_full_frame [OF d2(2) assms(6)] by simp
  then show ?thesis using feed by simp
qed

text \<open>A packet with 64 lines of Teletext with undefined line numbers.\<close>

definition many_lines :: "vbi_sliced list" where
  "many_lines = replicate 64 \<lparr>id = VBI_SLICED_TELETEXT_B, line = 0, data = replicate 56 0x31\<rparr>"

definition large_mux :: vbi_dvb_mux where
  "large_mux = small_mux\<lparr>max_packet_size := 65504\<rparr>"

lemma insert_many_lines:
  "46 * k \<le> n \<Longrightarrow> \<exists>q ldu. insert_sliced_loop 0xFFFFFFFF True 0 p n l (replicate k \<lparr>id = VBI_SLICED_TELETEXT_B, line = 0, data = d\<rparr>)
     = (None, q, ldu, [])"
proof (induction k arbitrary: n p l)
  case (Suc k)
  have s: "service_du_size \<lparr>id = VBI_SLICED_TELETEXT_B, line = 0, data = d\<rparr> = Inr 46" by (simp add: service_du_size_def)
  have lo: "\<exists>lofp. line_offset_byte 0 0 = Some lofp" by (simp add: line_offset_byte_def)
  have "46 * k \<le> n - 46" "\<not> n < 46" using Suc.prems by simp_all
  then show ?case using Suc.IH [of "n - 46"] lo by (auto simp: s)
qed simp

lemma encode_many_lines:
  "encode_lines m rawbuf par fx mx 0 p pend (replicate k \<lparr>id = VBI_SLICED_TELETEXT_B, line = 0, data = d\<rparr>) =
   encode_lines m rawbuf par fx mx 0 p (pend @ replicate k \<lparr>id = VBI_SLICED_TELETEXT_B, line = 0, data = d\<rparr>) []"
proof (induction k arbitrary: pend)
  case (Suc k)
  then show ?case by (simp add: replicate_append_same)
qed simp

lemma generate_lines_taken:
  assumes "generate_pes_packet mx sliced m rawbuf par pts = Some (err, mx', n, rest)"
    and "P = take 13 (packet mx) @ encode_timestamp pts 0x21 @ take 31 (drop 18 (packet mx)) @ [ucast (data_identifier mx)]"
    and "raw_interrupted (store_packet P mx) sliced par = Some False"
    and "encode_lines m rawbuf par (fixed_length_format (data_identifier mx)) (store_packet P mx) 0 P [] sliced
      = Some (None, mx1, p', ldu, rest0)"
  shows "err = None \<and> rest = rest0"
  using assms(1) unfolding generate_pes_packet_def Let_def assms(2) [symmetric] store_packet_simps assms(3,4) option.case prod.case bool.case
  by (auto split: option.splits)

lemma many_lines_sent: "\<exists>p. mux_frames 0xFFFFFFFF large_mux [(many_lines, 0)] = Some [p]"
proof -
  have "mux_ok large_mux" "pid large_mux = 0"
    using mux_ok_new [OF small_mux(1)] by (simp_all add: large_mux_def)
  have ss: "\<forall>s \<in> set many_lines. id s \<noteq> VBI_SLICED_VBI_625" "list_all (\<lambda>s. length (data s) = 56) many_lines"
    by (simp_all add: many_lines_def list_all_iff)
  obtain err mx' n rest q where g: "generate_pes_packet large_mux many_lines 0xFFFFFFFF None None 0 = Some (err, mx', n, rest)"
    and "mx' = large_mux\<lparr>packet := q\<rparr>"
    using generate_pes_packet_spec [OF \<open>mux_ok large_mux\<close> ss, where service_mask = "0xFFFFFFFF" and rawbuf = None and par = None and pts = 0]
    by metis
  let ?p = "take 13 (packet large_mux) @ encode_timestamp 0 0x21 @ take 31 (drop 18 (packet large_mux)) @ [ucast (data_identifier large_mux)]"
  let ?mx = "store_packet ?p large_mux"
  have fx: "fixed_length_format (data_identifier large_mux) = True" by (simp add: large_mux_def small_mux_def fixed_length_format_def)
  have "length ?p = 50" by (simp add: large_mux_def small_mux_def)
  then have "46 * 64 \<le> p_left ?mx ?p" by (simp add: p_left_def large_mux_def)
  from insert_many_lines [OF this] obtain p' ldu where
    i: "insert_sliced_loop 0xFFFFFFFF True 0 ?p (p_left ?mx ?p) 0 many_lines = (None, p', ldu, [])"
    unfolding many_lines_def by blast
  have "encode_lines 0xFFFFFFFF None None True ?mx 0 ?p [] many_lines = encode_lines 0xFFFFFFFF None None True ?mx 0 ?p many_lines []"
    unfolding many_lines_def encode_many_lines [of _ _ _ _ _ _ "[]"] append_Nil ..
  also have "\<dots> = Some (None, ?mx, p', ldu, [])" unfolding encode_lines.simps(1) insert_sliced_data_units_def i by simp
  finally have e: "encode_lines 0xFFFFFFFF None None True ?mx 0 ?p [] many_lines = Some (None, ?mx, p', ldu, [])" .
  have ri: "raw_interrupted ?mx many_lines None = Some False" by (simp add: raw_interrupted_def large_mux_def small_mux_def)
  have "err = None \<and> rest = []"
    by (rule generate_lines_taken [OF g refl ri]) (simp only: fx e)
  moreover have "cor_offset large_mux = 0" "cor_end large_mux = 0" by (simp_all add: large_mux_def small_mux_def)
  moreover have "pid mx' = 0" using \<open>mx' = _\<close> \<open>pid large_mux = 0\<close> by simp
  ultimately have "vbi_dvb_mux_feed (Some collect) large_mux many_lines 0xFFFFFFFF None None 0 [] =
      Some (True, mx', [take n (drop 4 (packet mx'))])"
    unfolding vbi_dvb_mux_feed_def using g by (simp add: collect_def)
  then show ?thesis by simp
qed

theorem dvb_full_frame_blocks_witness:
  "case mux_frames 0xFFFFFFFF large_mux [(many_lines, 0)] of
     Some [p] \<Rightarrow> \<exists>dx'. feed_chunks deliver (the (vbi_dvb_pes_demux_new True)) [p, p @ p] [] = Some (dx', [])
   | _ \<Rightarrow> False"
proof -
  have n: "vbi_dvb_pes_demux_new True = Some (the (vbi_dvb_pes_demux_new True))" by (simp add: vbi_dvb_pes_demux_new_def)
  obtain p where p: "mux_frames 0xFFFFFFFF large_mux [(many_lines, 0)] = Some [p]" using many_lines_sent ..
  have m: "vbi_dvb_mux_set_pes_packet_size large_mux 184 65504 = (True, large_mux)"
    by (simp add: large_mux_def small_mux_def vbi_dvb_mux_set_pes_packet_size_def MAX_PES_PACKET_SIZE_def)
  have ss: "length (filter (\<lambda>s. id s AND 0xFFFFFFFF \<noteq> 0) many_lines) = 64"
    "list_all (\<lambda>s. length (data s) = 56 \<and> id s \<noteq> VBI_SLICED_VBI_625) many_lines" by (simp_all add: many_lines_def list_all_iff)
  have "concat [p, p @ p] = p @ p @ p" by simp
  from dvb_full_frame_blocks [OF small_mux(1) [folded large_mux_def] _ small_mux(2) [folded large_mux_def] m p ss n this] show ?thesis unfolding p by simp
qed

end
