(* ===== verification/Spec2Isabelle.thy ===== *)
theory Spec2Isabelle
  imports Bcd Hamm Hamm24 Hammgen Page_Table Sliced_Filter Pfc_Demux Idl_Demux Xds_Demux Vps Packet_830 Pdc Dvb_Ts_Safety Dvb_Full_Frame
begin

text \<open>
  A verification library for zvbi, the C library that decodes data services in the vertical blanking interval (VBI)
  of analog television signals.

  \<^bold>\<open>The program.\<close> A bit slicer turns samples of VBI lines into \<^emph>\<open>sliced\<close> lines, a service number, a line number and
  payload bytes (sliced.h). The rest of the library works on such lines: the error correction codes (hamm.h, hamm.c)
  and BCD numbers (bcd.h) of Teletext packets, the demultiplexers of single services (pfc_demux.c, idl_demux.c,
  xds_demux.c), the filter of Teletext pages (sliced_filter.c with the set of page numbers of page_table.c), program
  identification (vps.c, packet-830.c, pdc.c), and the transport of sliced lines in DVB streams (dvb_mux.c,
  dvb_demux.c). The page decoders, the cache, export and device access are the other half of the repository.

  \<^bold>\<open>Conventions.\<close> A C \<^verbatim>\<open>unsigned\<close> integer whose wrap-around can matter is a word of its width; counters and sizes
  that stay far below the width are natural numbers, signed integers are \<open>int\<close>. A struct is a record with its field
  names, an array a list, a pointer into an array an index or the rest of the list. Operations return the new
  state. An access outside an array and a failed assertion are \<open>None\<close>; a function that can report an error has a
  datatype or a sum for it. Callbacks and the allocator are arguments of the operations. Logging is left out.

  \<^bold>\<open>Theories.\<close>
  \<^item> Prelude: words, masks, casts. Gf2: tables that are linear over bits.
  \<^item> Bcd (bcd.h): conversion, addition, tests of packed BCD numbers. The lemmas relate each to the number that its
    digits denote.
  \<^item> Hamm, Hamm24 (hamm.h, hamm.c, hamm-tables.h): parity, bit reversal, Hamming 8/4 and 24/18; the locale
    \<open>sec_ded\<close> gives correction of single and detection of double bit errors for both. Hammgen (hammgen.c): the
    constant tables are what the generator computes.
  \<^item> Page_Table (page_table.c): the bit set of full pages and the vector of subpage ranges. The invariant \<open>table_ok\<close>,
    the abstraction \<open>pt_set\<close> to a set of page and subpage numbers, the locale \<open>page_set\<close> for what a client may rely
    on, and the errors of the subpage operations.
  \<^item> Sliced (sliced.h): a sliced line. Sliced_Filter (sliced_filter.c): the filter as a transducer on lines; packet
    selection refines an automaton that keeps the set of magazines whose page is wanted.
  \<^item> Demux: the loop of the \<open>feed_frame\<close> functions and the locales \<open>demux\<close> and \<open>total_demux\<close> for what a \<open>feed\<close>
    function promises, interpreted in the next three. Pfc_Demux (pfc_demux.c): block assembly refines an automaton
    on the byte stream. Idl_Demux (idl_demux.c): Format A packets, the cyclic redundancy check and bursts of errors.
    Xds_Demux (xds_demux.c): interleaved packets and the bounds of their buffers.
  \<^item> Vps (vps.c), Packet_830 (packet-830.c): encoding and decoding of program and network identifiers. Calendar: the
    calendar functions of the C library without time zones. Pdc (pdc.c): labels, their time and validity window; the
    time zone functions of the C library are the record \<open>clib\<close>.
  \<^item> Dvb_Units (dvb_mux.c): encoding of sliced and raw lines as data units and stuffing. Dvb_Frame (dvb_demux.c):
    their extraction, with its safety on any input. Dvb_Roundtrip: the demultiplexer on the output of the
    multiplexer.
  \<^item> Dvb_Demux, Dvb_Ts (dvb_demux.c): the coroutines for PES and transport streams with their wrap-around buffers.
    Dvb_Stream: the PES coroutine, fed with pieces of any size, refines the function \<open>pes_stream\<close> on the whole
    stream. Dvb_Ts_Safety: the transport stream coroutine stays within its buffers.
  \<^item> Dvb_Mux (dvb_mux.c, sampling_par.c): the packets of the multiplexer and its interface. Dvb_Transmission: frames
    sent by the PES multiplexer arrive at the callback of the PES demultiplexer. Dvb_Full_Frame: a frame of 64 lines
    stops the demultiplexer for good.

  \<^bold>\<open>Termination.\<close> All loops of the model end: they are structural recursions or have a measure, the bytes, pages or
  samples left. No definition uses fuel, so results are those of the code without a bound on the input.

  \<^bold>\<open>Not modelled.\<close> The bit slicer and raw decoder, the Teletext, Caption and XDS page decoders with the cache and
  export modules, device capture and the proxy daemon, and the contributed programs; the reasons are in the manifest.
  Of the modelled files: log messages, dump functions, and the release of memory.
\<close>

end
